(* ===== verification/Hft_Prelude.thy ===== *)
theory Hft_Prelude
  imports Main "HOL-Library.Word" "HOL-Library.AList"
begin

text \<open>
  Shared vocabulary of the development: names for the machine integers of the
  C++ sources, hash maps as association lists, ordered price maps, and the
  generic list, map and word lemmas the component theories use.
\<close>

unbundle bit_operations_syntax

section \<open>Machine integers\<close>

type_synonym u8 = "8 word"
type_synonym u16 = "16 word"
type_synonym u32 = "32 word"
type_synonym u64 = "64 word"

text \<open>Conversion of an unsigned value to \<^verbatim>\<open>int32_t\<close> and \<^verbatim>\<open>int64_t\<close> (two's complement).\<close>

definition to_i32 :: "nat \<Rightarrow> int" where
  "to_i32 n = signed_take_bit 31 (int n)"

lemma to_i32_small: "n < 2 ^ 31 \<Longrightarrow> to_i32 n = int n"
  by (simp add: to_i32_def signed_take_bit_int_eq_self)

lemma word_sub_nat: "(b :: 'a::len word) \<le> a \<Longrightarrow> unat (a - b) = unat a - unat b"
  by (rule unat_sub)

lemma word_gt_0_unat: "(0 < (w :: 'a::len word)) \<longleftrightarrow> 0 < unat w"
  by (simp add: word_less_nat_alt)

lemma unat_min_word: "unat (min (a :: 'a::len word) b) = min (unat a) (unat b)"
  by (simp add: min_def word_le_nat_alt)

lemma unat_sub_min: "unat ((a :: 'a::len word) - min a b) = unat a - min (unat a) (unat b)"
  by (simp add: unat_sub unat_min_word)

section \<open>Hash maps\<close>

text \<open>
  \<^verbatim>\<open>std::unordered_map\<close> is an association list whose keys are distinct:
  \<^const>\<open>map_of\<close> is \<^verbatim>\<open>find\<close>, \<^const>\<open>AList.update\<close> is \<^verbatim>\<open>m[k] = v\<close>, \<^const>\<open>AList.delete\<close> is
  \<^verbatim>\<open>erase\<close> and \<^const>\<open>length\<close> is \<^verbatim>\<open>size\<close>.
\<close>

type_synonym ('k, 'v) umap = "('k \<times> 'v) list"

named_theorems umap_simps \<open>lookup after an update or an erase of a hash map\<close>

lemma umap_update_lookup [umap_simps]:
  "map_of (AList.update k v m) = (map_of m)(k \<mapsto> v)"
  by (rule update_conv')

lemma umap_delete_lookup [umap_simps]:
  "map_of (AList.delete k m) = (map_of m)(k := None)"
  by (rule delete_conv')

definition umap_ok :: "('k, 'v) umap \<Rightarrow> bool" where
  "umap_ok m \<longleftrightarrow> distinct (map fst m)"

lemma umap_ok_Nil [simp, intro]: "umap_ok []"
  by (simp add: umap_ok_def)

lemma umap_ok_update [simp, intro]: "umap_ok m \<Longrightarrow> umap_ok (AList.update k v m)"
  by (simp add: umap_ok_def distinct_update)

lemma umap_ok_delete [simp, intro]: "umap_ok m \<Longrightarrow> umap_ok (AList.delete k m)"
  by (simp add: umap_ok_def distinct_delete)

lemma umap_size: "umap_ok m \<Longrightarrow> length m = card (dom (map_of m))"
  by (metis distinct_card length_map umap_ok_def dom_map_of_conv_image_fst set_map)

section \<open>Lists\<close>

lemma distinct_drop_middle: "distinct (xs @ ys @ zs) \<Longrightarrow> distinct (xs @ drop n ys @ zs)"
  by (auto dest: in_set_dropD)

section \<open>Effects that can fail\<close>

text \<open>Runs a fallible state change over a list of inputs; \<^const>\<open>None\<close> stops the run.\<close>

fun fold_opt :: "('e \<Rightarrow> 's \<Rightarrow> 's option) \<Rightarrow> 'e list \<Rightarrow> 's \<Rightarrow> 's option" where
  "fold_opt f [] s = Some s"
| "fold_opt f (e # es) s = (case f e s of None \<Rightarrow> None | Some s' \<Rightarrow> fold_opt f es s')"

lemma fold_opt_append:
  "fold_opt f (es @ fs) s = (case fold_opt f es s of None \<Rightarrow> None | Some s' \<Rightarrow> fold_opt f fs s')"
  by (induction es arbitrary: s) (auto split: option.splits)

lemma fold_opt_total:
  assumes "\<And>e s. P s \<Longrightarrow> e \<in> set es \<Longrightarrow> \<exists>s'. f e s = Some s' \<and> P s'" and "P s"
  shows "\<exists>s'. fold_opt f es s = Some s' \<and> P s'"
  using assms
proof (induction es arbitrary: s)
  case Nil
  then show ?case by simp
next
  case (Cons e es)
  then obtain s' where "f e s = Some s'" "P s'"
    by (meson list.set_intros(1))
  with Cons show ?case by simp
qed

end
