(* ===== verification/Hft_Types.thy ===== *)
theory Hft_Types
  imports Hft_Prelude
begin

text \<open>
  The shared vocabulary of the program: \<^verbatim>\<open>include/types.hpp\<close> (sides, orders,
  trades), \<^verbatim>\<open>include/event.hpp\<close> (the sequenced event) and
  \<^verbatim>\<open>include/outbound_ack.hpp\<close> (the acknowledgement sent back to a session), with
  the enumerations of \<^verbatim>\<open>include/gateway_protocol.hpp\<close> they use.
\<close>

section \<open>Orders and trades\<close>

text \<open>
  A C++ enumeration over \<^verbatim>\<open>uint8_t\<close> can hold every byte; \<open>Side_unnamed\<close> is a byte
  that is neither enumerator (such a value reaches the book when a client sends it).
\<close>

datatype Side = Buy | Sell | Side_unnamed u8

definition side_of_byte :: "u8 \<Rightarrow> Side" where
  "side_of_byte b = (if b = 0 then Buy else if b = 1 then Sell else Side_unnamed b)"

fun byte_of_side :: "Side \<Rightarrow> u8" where
  "byte_of_side Buy = 0"
| "byte_of_side Sell = 1"
| "byte_of_side (Side_unnamed b) = b"

lemma byte_of_side_of_byte [simp]: "byte_of_side (side_of_byte b) = b"
  by (simp add: side_of_byte_def)

lemma side_of_byte_eq_Buy [simp]: "side_of_byte b = Buy \<longleftrightarrow> b = 0"
  by (simp add: side_of_byte_def)

type_synonym OrderId = u64
type_synonym Price = int      \<comment> \<open>\<^verbatim>\<open>int64_t\<close> ticks; arithmetic on prices is range checked where it occurs\<close>
type_synonym Qty = u32
type_synonym Nanos = u64

text \<open>The values an \<^verbatim>\<open>int64_t\<close> can hold.\<close>

definition i64_range :: "int \<Rightarrow> bool" where
  "i64_range x \<longleftrightarrow> - (2 ^ 63) \<le> x \<and> x < 2 ^ 63"

record Order =
  ord_id :: OrderId
  ord_side :: Side
  ord_price :: Price
  ord_qty :: Qty
  ord_ts_ns :: Nanos

record Trade =
  tr_buy_order_id :: OrderId
  tr_sell_order_id :: OrderId
  tr_price :: Price
  tr_qty :: Qty
  tr_ts_ns :: Nanos

section \<open>Sequenced events\<close>

datatype EventType = Ev_NewOrder | Ev_CancelOrder | Ev_MarketDataOrder | Ev_Admin

datatype ProducerId = Gateway | FeedReplay | Admin | Count

record SequencedEvent =
  ev_seq_num :: u64
  ev_ingress_ts_ns :: u64
  ev_sequence_ts_ns :: u64
  ev_type :: EventType
  ev_producer :: ProducerId
  ev_session_id :: u32
  ev_client_order_id :: u64
  ev_side :: Side
  ev_price :: u32
  ev_quantity :: u32

section \<open>Acknowledgements\<close>

datatype ExecStatus = Accepted | Rejected | Filled | PartialFill | Canceled

record OutboundAck =
  ack_session_id :: u32
  ack_client_order_id :: u64
  ack_exchange_order_id :: u64
  ack_status :: ExecStatus
  ack_fill_price :: u32
  ack_fill_quantity :: u32
  ack_leaves_quantity :: u32

end
