(* ===== verification/Object_Pool.thy ===== *)
theory Object_Pool
  imports Hft_Types
begin

text \<open>
  The fixed-capacity object pool of \<^verbatim>\<open>include/object_pool.hpp\<close>: an array of slots
  and an intrusive free list threaded through \<^verbatim>\<open>next_free_\<close>. A pointer into the
  pool is the index of its slot (\<^verbatim>\<open>release\<close> recovers exactly that index from the
  pointer difference). A slot holds \<^const>\<open>None\<close> outside the lifetime of an object, so
  a dangling access is visible in the model.

  The theory shows that the free list always enumerates exactly the dead slots, and
  packages what a client may rely on as the interface \<open>object_store\<close>.
\<close>

section \<open>The pool\<close>

record 'a pool =
  storage :: "'a option list"
  next_free :: "int list"
  free_head :: int

definition pool_init :: "nat \<Rightarrow> 'a pool" where
  "pool_init cap =
     \<lparr> storage = replicate cap None,
       next_free = (if cap > 0 then (map (\<lambda>i. to_i32 (i + 1)) [0..<cap - 1]) @ [-1] else []),
       free_head = (if cap > 0 then 0 else -1) \<rparr>"

definition pool_acquire :: "'a pool \<Rightarrow> 'a \<Rightarrow> (nat \<times> 'a pool) option" where
  "pool_acquire p x =
     (if free_head p = -1 then None
      else let idx = nat (free_head p)
           in Some (idx, p\<lparr>free_head := next_free p ! idx, storage := (storage p)[idx := Some x]\<rparr>))"

definition pool_release :: "'a pool \<Rightarrow> nat \<Rightarrow> 'a pool" where
  "pool_release p idx =
     p\<lparr>storage := (storage p)[idx := None],
       next_free := (next_free p)[idx := free_head p],
       free_head := int idx\<rparr>"

definition pool_capacity :: "'a pool \<Rightarrow> nat" where
  "pool_capacity p = length (storage p)"

text \<open>Reading and writing through a pointer; \<^const>\<open>None\<close> is an access outside every lifetime.\<close>

definition pool_deref :: "'a pool \<Rightarrow> nat \<Rightarrow> 'a option" where
  "pool_deref p i = (if i < length (storage p) then storage p ! i else None)"

definition pool_store :: "'a pool \<Rightarrow> nat \<Rightarrow> 'a \<Rightarrow> 'a pool" where
  "pool_store p i x = p\<lparr>storage := (storage p)[i := Some x]\<rparr>"

lemma pool_deref_bound: "pool_deref p i = Some x \<Longrightarrow> i < pool_capacity p"
  by (simp add: pool_deref_def pool_capacity_def split: if_splits)

section \<open>The free list\<close>

text \<open>\<open>free_chain nf h is\<close>: following \<open>nf\<close> from \<open>h\<close> visits the slots \<open>is\<close> and ends at -1.\<close>

fun free_chain :: "int list \<Rightarrow> int \<Rightarrow> nat list \<Rightarrow> bool" where
  "free_chain nf h [] \<longleftrightarrow> h = -1"
| "free_chain nf h (i # is) \<longleftrightarrow> h = int i \<and> i < length nf \<and> free_chain nf (nf ! i) is"

definition pool_free :: "'a pool \<Rightarrow> nat list \<Rightarrow> bool" where
  "pool_free p is \<longleftrightarrow> length (next_free p) = length (storage p) \<and>
     free_chain (next_free p) (free_head p) is \<and> distinct is \<and>
     set is = {i. i < length (storage p) \<and> storage p ! i = None}"

definition pool_inv :: "'a pool \<Rightarrow> bool" where
  "pool_inv p \<longleftrightarrow> (\<exists>is. pool_free p is)"

lemma free_chain_update:
  "i \<notin> set is \<Longrightarrow> free_chain (nf[i := v]) h is = free_chain nf h is"
  by (induction "is" arbitrary: h) auto

lemma free_chain_init:
  fixes cap :: nat
  defines "nf \<equiv> map (\<lambda>i. to_i32 (i + 1)) [0..<cap - 1] @ [-1]"
  assumes "cap \<le> 2 ^ 31" and "k < cap"
  shows "free_chain nf (int k) [k..<cap]"
  using assms(3)
proof (induction "cap - k" arbitrary: k)
  case 0
  then show ?case by simp
next
  case (Suc m)
  have upt: "[k..<cap] = k # [Suc k..<cap]"
    using Suc.prems by (rule upt_conv_Cons)
  have len: "k < length nf"
    using Suc.prems by (simp add: nf_def)
  show ?case
  proof (cases "Suc k < cap")
    case True
    with Suc.hyps(2) have "free_chain nf (int (Suc k)) [Suc k..<cap]"
      by (intro Suc.hyps(1)) simp_all
    moreover have "k < cap - 1"
      using True by simp
    then have "nf ! k = int (Suc k)"
      using True assms(2) by (simp add: nf_def nth_append to_i32_small)
    ultimately show ?thesis by (simp add: upt len)
  next
    case False
    with Suc.prems have "cap = Suc k" by simp
    then show ?thesis by (simp add: upt nf_def nth_append)
  qed
qed

lemma pool_inv_init: "cap \<le> 2 ^ 31 \<Longrightarrow> pool_inv (pool_init cap)"
proof -
  assume cap: "cap \<le> 2 ^ 31"
  have "pool_free (pool_init cap) [0..<cap]"
    using free_chain_init [OF cap, of 0]
    by (cases "cap > 0") (auto simp: pool_free_def pool_init_def)
  then show ?thesis by (auto simp: pool_inv_def)
qed

lemma pool_acquire_spec:
  assumes "pool_inv p"
  shows "case pool_acquire p x of
      None \<Rightarrow> (\<forall>i < pool_capacity p. pool_deref p i \<noteq> None)
    | Some (i, p') \<Rightarrow> pool_inv p' \<and> i < pool_capacity p \<and> pool_deref p i = None \<and>
        pool_capacity p' = pool_capacity p \<and> pool_deref p' = (pool_deref p)(i \<mapsto> x)"
proof -
  from assms obtain "is" where f: "pool_free p is"
    by (auto simp: pool_inv_def)
  show ?thesis
  proof (cases "is")
    case Nil
    with f show ?thesis
      by (auto simp: pool_free_def pool_acquire_def pool_deref_def pool_capacity_def)
  next
    case (Cons i js)
    with f have hd: "free_head p = int i" "i < length (storage p)" "storage p ! i = None"
      by (auto simp: pool_free_def)
    define p' where
      "p' = p\<lparr>free_head := next_free p ! i, storage := (storage p)[i := Some x]\<rparr>"
    from hd have acq: "pool_acquire p x = Some (i, p')"
      by (simp add: pool_acquire_def p'_def)
    have "{k. k < length (storage p) \<and> (storage p)[i := Some x] ! k = None} =
          {k. k < length (storage p) \<and> storage p ! k = None} - {i}"
      using hd(2) by (auto simp: nth_list_update split: if_splits)
    then have "pool_free p' js"
      using f Cons by (auto simp: pool_free_def p'_def)
    moreover have "pool_deref p' = (pool_deref p)(i \<mapsto> x)"
      using hd by (auto simp: p'_def pool_deref_def fun_eq_iff)
    ultimately show ?thesis
      using hd acq by (auto simp: pool_inv_def pool_capacity_def p'_def pool_deref_def)
  qed
qed

lemma pool_release_spec:
  assumes "pool_inv p" and "pool_deref p i = Some x"
  shows "pool_inv (pool_release p i) \<and> pool_capacity (pool_release p i) = pool_capacity p \<and>
    pool_deref (pool_release p i) = (pool_deref p)(i := None)"
proof -
  from assms(1) obtain "is" where f: "pool_free p is"
    by (auto simp: pool_inv_def)
  from assms(2) have i: "i < length (storage p)" "storage p ! i = Some x"
    by (auto simp: pool_deref_def split: if_splits)
  with f have notin: "i \<notin> set is" and bnd: "i < length (next_free p)"
    by (auto simp: pool_free_def)
  have "{k. k < length (storage p) \<and> (storage p)[i := None] ! k = None} =
        insert i {k. k < length (storage p) \<and> storage p ! k = None}"
    using i by (auto simp: nth_list_update)
  then have "pool_free (pool_release p i) (i # is)"
    using f notin bnd by (auto simp: pool_free_def pool_release_def free_chain_update)
  moreover have "pool_deref (pool_release p i) = (pool_deref p)(i := None)"
    using i by (auto simp: pool_deref_def pool_release_def fun_eq_iff)
  ultimately show ?thesis
    by (auto simp: pool_inv_def pool_capacity_def pool_release_def)
qed

lemma pool_store_spec:
  assumes "pool_inv p" and "pool_deref p i = Some x"
  shows "pool_inv (pool_store p i y) \<and> pool_capacity (pool_store p i y) = pool_capacity p \<and>
    pool_deref (pool_store p i y) = (pool_deref p)(i \<mapsto> y)"
proof -
  from assms(2) have i: "i < length (storage p)" "storage p ! i = Some x"
    by (auto simp: pool_deref_def split: if_splits)
  then have "{k. k < length (storage p) \<and> (storage p)[i := Some y] ! k = None} =
        {k. k < length (storage p) \<and> storage p ! k = None}"
    by (auto simp: nth_list_update)
  then show ?thesis
    using assms(1) i by (auto simp: pool_inv_def pool_free_def pool_store_def pool_capacity_def
        pool_deref_def fun_eq_iff)
qed

section \<open>What a client of the pool relies on\<close>

text \<open>
  A bounded store of objects addressed by pointers: \<open>deref\<close> is the partial map of the
  live pointers, \<open>slots\<close> the pointers that can ever be handed out.
\<close>

locale object_store =
  fixes acquire :: "'s \<Rightarrow> 'a \<Rightarrow> ('p \<times> 's) option"
    and release :: "'s \<Rightarrow> 'p \<Rightarrow> 's"
    and put :: "'s \<Rightarrow> 'p \<Rightarrow> 'a \<Rightarrow> 's"
    and deref :: "'s \<Rightarrow> 'p \<Rightarrow> 'a option"
    and slots :: "'s \<Rightarrow> 'p set"
    and inv :: "'s \<Rightarrow> bool"
  assumes slots_finite: "finite (slots s)"
    and live_in_slots: "dom (deref s) \<subseteq> slots s"
    and acquire_None: "inv s \<Longrightarrow> acquire s x = None \<longleftrightarrow> dom (deref s) = slots s"
    and acquire_Some: "inv s \<Longrightarrow> acquire s x = Some (p, s') \<Longrightarrow>
      inv s' \<and> slots s' = slots s \<and> deref s p = None \<and> deref s' = (deref s)(p \<mapsto> x)"
    and release_live: "inv s \<Longrightarrow> deref s p = Some y \<Longrightarrow>
      inv (release s p) \<and> slots (release s p) = slots s \<and> deref (release s p) = (deref s)(p := None)"
    and put_live: "inv s \<Longrightarrow> deref s p = Some y \<Longrightarrow>
      inv (put s p x) \<and> slots (put s p x) = slots s \<and> deref (put s p x) = (deref s)(p \<mapsto> x)"
begin

lemma live_finite: "finite (dom (deref s))"
  using live_in_slots slots_finite by (rule finite_subset)

lemma acquire_frame:
  "inv s \<Longrightarrow> acquire s x = Some (p, s') \<Longrightarrow> deref s q = Some y \<Longrightarrow> deref s' q = Some y \<and> p \<noteq> q"
  using acquire_Some by fastforce

lemma acquire_card:
  assumes "inv s" and "acquire s x = Some (p, s')"
  shows "card (dom (deref s')) = Suc (card (dom (deref s)))"
  using acquire_Some [OF assms] live_finite [of s] by (simp add: domIff)

lemma release_card:
  assumes "inv s" and "deref s p = Some y"
  shows "Suc (card (dom (deref (release s p)))) = card (dom (deref s))"
proof -
  have "dom (deref (release s p)) = dom (deref s) - {p}"
    using release_live [OF assms] by simp
  moreover have "p \<in> dom (deref s)"
    using assms(2) by blast
  ultimately show ?thesis
    using live_finite [of s] by (simp only: card_Suc_Diff1)
qed

lemma acquire_succeeds_iff:
  assumes "inv s"
  shows "(\<exists>p s'. acquire s x = Some (p, s')) \<longleftrightarrow> card (dom (deref s)) < card (slots s)"
proof -
  have "(\<exists>p s'. acquire s x = Some (p, s')) \<longleftrightarrow> dom (deref s) \<noteq> slots s"
    using acquire_None [OF assms, of x] by (cases "acquire s x") auto
  also have "\<dots> \<longleftrightarrow> card (dom (deref s)) < card (slots s)"
    using live_in_slots [of s] slots_finite [of s]
    by (metis less_irrefl order_le_less psubset_card_mono)
  finally show ?thesis .
qed

lemma acquire_after_release:
  assumes "inv s" and "deref s p = Some y"
  shows "\<exists>q s'. acquire (release s p) x = Some (q, s')"
proof -
  have "card (dom (deref (release s p))) < card (dom (deref s))"
    using release_card [OF assms] by simp
  also have "\<dots> \<le> card (slots (release s p))"
    using release_live [OF assms] live_in_slots [of s] slots_finite [of s] by (simp add: card_mono)
  finally show ?thesis
    using acquire_succeeds_iff [of "release s p" x] release_live [OF assms] by simp
qed

end

interpretation pl: object_store pool_acquire pool_release pool_store pool_deref
  "\<lambda>p. {..<pool_capacity p}" pool_inv
proof (unfold_locales, goal_cases)
  case (1 s)
  show ?case by simp
next
  case (2 s)
  show ?case by (auto dest: pool_deref_bound)
next
  case (3 s x)
  have live: "dom (pool_deref s) \<subseteq> {..<pool_capacity s}"
    by (auto dest: pool_deref_bound)
  from 3 have "pool_acquire s x = None \<longleftrightarrow> (\<forall>i < pool_capacity s. pool_deref s i \<noteq> None)"
    using pool_acquire_spec [of s x] by (cases "pool_acquire s x") auto
  also have "\<dots> \<longleftrightarrow> {..<pool_capacity s} \<subseteq> dom (pool_deref s)"
    by (simp add: subset_iff domIff)
  also have "\<dots> \<longleftrightarrow> dom (pool_deref s) = {..<pool_capacity s}"
    using live by (metis order_antisym order_refl)
  finally show ?case .
next
  case (4 s x p s')
  then show ?case using pool_acquire_spec [of s x] by simp
next
  case (5 s p y)
  then show ?case using pool_release_spec [of s p y] by simp
next
  case (6 s p y x)
  then show ?case using pool_store_spec [of s p y x] by simp
qed

section \<open>Allocation\<close>

text \<open>
  Allocation is exact: \<^verbatim>\<open>acquire\<close> fails only when all slots are in use; otherwise it
  hands out a slot that no live object occupies, stores the new object there, and leaves
  every other live object as it was.
\<close>
lemma pool_acquire_exact:
  assumes "pool_inv p"
  shows "(pool_acquire p x = None \<longleftrightarrow> card (dom (pool_deref p)) = pool_capacity p) \<and>
    (\<forall>i p'. pool_acquire p x = Some (i, p') \<longrightarrow> pool_inv p' \<and> i < pool_capacity p \<and> pool_deref p i = None \<and>
       pool_deref p' = (pool_deref p)(i \<mapsto> x) \<and> pool_capacity p' = pool_capacity p)"
proof -
  have "card (dom (pool_deref p)) \<le> pool_capacity p"
    using card_mono [OF pl.slots_finite pl.live_in_slots] by simp
  moreover have "pool_acquire p x \<noteq> None \<longleftrightarrow> card (dom (pool_deref p)) < pool_capacity p"
    using pl.acquire_succeeds_iff [OF assms, of x] by auto
  ultimately have "pool_acquire p x = None \<longleftrightarrow> card (dom (pool_deref p)) = pool_capacity p"
    by linarith
  then show ?thesis
    using pool_acquire_spec [OF assms, of x] by auto
qed

lemma pool_demo: "pool_inv (pool_init 2 :: nat pool)"
  by (rule pool_inv_init) simp

text \<open>
  A slot is reusable at once: after \<^verbatim>\<open>release\<close> of a live object the pool can allocate
  again, it hands out that same slot (last in, first out), and the other live objects are
  untouched.
\<close>
lemma pool_release_reuse:
  assumes "pool_inv p" and "pool_deref p i = Some y"
  shows "\<exists>p'. pool_acquire (pool_release p i) x = Some (i, p') \<and> pool_inv p' \<and>
    pool_deref p' = (pool_deref p)(i \<mapsto> x)"
proof -
  obtain q p' where q: "pool_acquire (pool_release p i) x = Some (q, p')"
    using pl.acquire_after_release [OF assms] by blast
  moreover have "q = i"
    using q by (auto simp: pool_acquire_def pool_release_def split: if_splits)
  ultimately show ?thesis
    using pool_acquire_spec [of "pool_release p i" x] pool_release_spec [OF assms] by auto
qed

end
