(* ===== verification/Order_Book.thy ===== *)
theory Order_Book
  imports Object_Pool
begin

text \<open>
  The price-time priority book of \<^verbatim>\<open>include/order_book.hpp\<close>. A side is the
  \<^verbatim>\<open>std::map\<close> from prices to deques of pointers, as the list of its levels in
  iteration order (best price first); orders live in the object pool and are reached
  through pointers only. Every dereference of a pointer that is not live yields
  \<^const>\<open>None\<close> for the whole operation, so a theorem that an operation returns \<^const>\<open>Some\<close>
  includes that it touches live objects only.
\<close>

section \<open>The book\<close>

type_synonym levels = "(Price \<times> nat list) list"

record book =
  bids :: levels
  asks :: levels
  book_pool :: "Order pool"
  locate :: "(OrderId, Side \<times> Price) umap"

definition book_init :: "nat \<Rightarrow> book" where
  "book_init cap = \<lparr> bids = [], asks = [], book_pool = pool_init cap, locate = [] \<rparr>"

text \<open>The comparators \<^verbatim>\<open>std::greater\<close> (bids) and \<^verbatim>\<open>std::less\<close> (asks).\<close>

definition bid_before :: "Price \<Rightarrow> Price \<Rightarrow> bool" where
  "bid_before a b \<longleftrightarrow> a > b"

definition ask_before :: "Price \<Rightarrow> Price \<Rightarrow> bool" where
  "ask_before a b \<longleftrightarrow> a < b"

text \<open>\<^verbatim>\<open>book[price].push_back(order)\<close> on a map ordered by \<open>before\<close>.\<close>

fun level_push :: "(Price \<Rightarrow> Price \<Rightarrow> bool) \<Rightarrow> Price \<Rightarrow> nat \<Rightarrow> levels \<Rightarrow> levels" where
  "level_push before px p [] = [(px, [p])]"
| "level_push before px p ((q, dq) # lv) =
     (if before px q then (px, [p]) # (q, dq) # lv
      else if before q px then (q, dq) # level_push before px p lv
      else (q, dq @ [p]) # lv)"

section \<open>Matching\<close>

text \<open>The trade between the incoming order \<open>id\<close> and a resting order.\<close>

definition make_trade :: "OrderId \<Rightarrow> Side \<Rightarrow> Nanos \<Rightarrow> Price \<Rightarrow> Order \<Rightarrow> Qty \<Rightarrow> Trade" where
  "make_trade oid side ts px resting fill =
     \<lparr> tr_buy_order_id = (if side = Buy then oid else ord_id resting),
       tr_sell_order_id = (if side = Buy then ord_id resting else oid),
       tr_price = px, tr_qty = fill, tr_ts_ns = ts \<rparr>"

text \<open>The inner loop of \<^verbatim>\<open>match_against\<close>, on one price level.\<close>

function match_level ::
  "OrderId \<Rightarrow> Side \<Rightarrow> Price \<Rightarrow> Nanos \<Rightarrow> nat list \<Rightarrow> Order pool \<Rightarrow> (OrderId, Side \<times> Price) umap \<Rightarrow> Qty
     \<Rightarrow> Trade list \<Rightarrow> (nat list \<times> Order pool \<times> (OrderId, Side \<times> Price) umap \<times> Qty \<times> Trade list) option"
where
  "match_level oid side px ts dq pl loc qty trades =
     (if 0 < qty \<and> dq \<noteq> [] then
        (case pool_deref pl (hd dq) of
           None \<Rightarrow> None
         | Some resting \<Rightarrow>
             let fill = min qty (ord_qty resting);
                 trades' = trades @ [make_trade oid side ts px resting fill];
                 qty' = qty - fill;
                 resting' = resting\<lparr>ord_qty := ord_qty resting - fill\<rparr>;
                 pl' = pool_store pl (hd dq) resting'
             in if ord_qty resting' = 0
                then match_level oid side px ts (tl dq) (pool_release pl' (hd dq))
                       (AList.delete (ord_id resting) loc) qty' trades'
                else match_level oid side px ts dq pl' loc qty' trades')
      else Some (dq, pl, loc, qty, trades))"
  by pat_completeness auto
termination
proof (relation "measure (\<lambda>(oid, side, px, ts, dq, pl, loc, qty, trades). length dq + unat qty)", goal_cases)
  case 1
  show ?case by simp
next
  case (2 oid side px ts dq pl loc qty trades resting fill trades' qty' resting' pl')
  have "unat (qty - fill) \<le> unat qty"
    unfolding 2(3) by (simp add: unat_sub_min)
  moreover have "length (tl dq) < length dq"
    using 2(1) by simp
  ultimately show ?case
    by (simp add: 2(5) del: length_tl)
next
  case (3 oid side px ts dq pl loc qty trades resting fill trades' qty' resting' pl')
  then have "fill = qty"
    by (auto simp: min_def split: if_splits)
  with 3 show ?case
    by (simp add: word_less_nat_alt)
qed

declare match_level.simps [simp del]

lemma match_level_exit:
  "match_level oid side px ts dq pl loc qty trades = Some (dq', pl', loc', qty', trades') \<Longrightarrow>
     (dq' = [] \<or> qty' = 0) \<and> unat qty' \<le> unat qty"
proof (induction oid side px ts dq pl loc qty trades rule: match_level.induct)
  case (1 oid side px ts dq pl loc qty trades)
  show ?case
  proof (cases "0 < qty \<and> dq \<noteq> []")
    case False
    with "1.prems" show ?thesis
      by (subst (asm) match_level.simps) (auto simp: word_gt_0)
  next
    case True
    with "1.prems" obtain resting where r: "pool_deref pl (hd dq) = Some resting"
      by (subst (asm) match_level.simps) (auto split: option.splits)
    let ?q = "qty - min qty (ord_qty resting)"
    have "(dq' = [] \<or> qty' = 0) \<and> unat qty' \<le> unat ?q"
      using "1.prems" True r "1.IH" [OF True r refl refl refl refl refl]
      by (subst (asm) match_level.simps) (auto simp: Let_def split: if_splits)
    moreover have "unat ?q \<le> unat qty"
      by (simp add: unat_sub_min)
    ultimately show ?thesis by simp
  qed
qed

function match_against ::
  "(Price \<Rightarrow> Price \<Rightarrow> bool) \<Rightarrow> OrderId \<Rightarrow> Side \<Rightarrow> Price \<Rightarrow> Nanos \<Rightarrow> levels \<Rightarrow> Order pool
     \<Rightarrow> (OrderId, Side \<times> Price) umap \<Rightarrow> Qty \<Rightarrow> Trade list
     \<Rightarrow> (levels \<times> Order pool \<times> (OrderId, Side \<times> Price) umap \<times> Qty \<times> Trade list) option"
where
  "match_against crosses oid side price ts opposite pl loc qty trades =
     (if 0 < qty \<and> opposite \<noteq> [] then
        if \<not> crosses (fst (hd opposite)) price then Some (opposite, pl, loc, qty, trades)
        else
          (case match_level oid side (fst (hd opposite)) ts (snd (hd opposite)) pl loc qty trades of
             None \<Rightarrow> None
           | Some (dq', pl', loc', qty', trades') \<Rightarrow>
               match_against crosses oid side price ts
                 (if dq' = [] then tl opposite else (fst (hd opposite), dq') # tl opposite)
                 pl' loc' qty' trades')
      else Some (opposite, pl, loc, qty, trades))"
  by pat_completeness auto
termination
proof (relation "measure (\<lambda>(crosses, oid, side, price, ts, lv, pl, loc, qty, trades). length lv + unat qty)",
    goal_cases)
  case 1
  show ?case by simp
next
  case (2 crosses oid side price ts lv pl loc qty trades r dq' r2 pl' r3 loc' r4 qty' trades')
  then have "match_level oid side (fst (hd lv)) ts (snd (hd lv)) pl loc qty trades =
      Some (dq', pl', loc', qty', trades')"
    by simp
  then have "(dq' = [] \<or> qty' = 0) \<and> unat qty' \<le> unat qty"
    by (rule match_level_exit)
  moreover have "0 < unat qty" "lv \<noteq> []"
    using 2(1) by (simp_all add: word_gt_0_unat)
  then have "length lv = Suc (length (tl lv))"
    by simp
  ultimately show ?case
    using \<open>0 < unat qty\<close> by (auto simp del: length_tl)
qed

declare match_against.simps [simp del]

section \<open>Adding and cancelling\<close>

definition rest :: "(Price \<Rightarrow> Price \<Rightarrow> bool) \<Rightarrow> levels \<Rightarrow> Order pool \<Rightarrow> (OrderId, Side \<times> Price) umap
    \<Rightarrow> OrderId \<Rightarrow> Side \<Rightarrow> Price \<Rightarrow> Qty \<Rightarrow> Nanos
    \<Rightarrow> levels \<times> Order pool \<times> (OrderId, Side \<times> Price) umap" where
  "rest before lv pl loc oid side price qty ts =
     (case pool_acquire pl \<lparr>ord_id = oid, ord_side = side, ord_price = price, ord_qty = qty, ord_ts_ns = ts\<rparr> of
        None \<Rightarrow> (lv, pl, loc)
      | Some (p, pl') \<Rightarrow> (level_push before price p lv, pl', AList.update oid (side, price) loc))"

definition add_limit_order ::
  "book \<Rightarrow> OrderId \<Rightarrow> Side \<Rightarrow> Price \<Rightarrow> Qty \<Rightarrow> Nanos \<Rightarrow> Trade list \<Rightarrow> (book \<times> Trade list) option" where
  "add_limit_order b oid side price qty ts trades =
     (if side = Buy then
        (case match_against (\<lambda>book_px order_px. book_px \<le> order_px) oid side price ts
                (asks b) (book_pool b) (locate b) qty trades of
           None \<Rightarrow> None
         | Some (asks', pl, loc, qty', trades') \<Rightarrow>
             if 0 < qty' then
               (let (bids', pl', loc') = rest bid_before (bids b) pl loc oid side price qty' ts
                in Some (\<lparr>bids = bids', asks = asks', book_pool = pl', locate = loc'\<rparr>, trades'))
             else Some (\<lparr>bids = bids b, asks = asks', book_pool = pl, locate = loc\<rparr>, trades'))
      else
        (case match_against (\<lambda>book_px order_px. order_px \<le> book_px) oid side price ts
                (bids b) (book_pool b) (locate b) qty trades of
           None \<Rightarrow> None
         | Some (bids', pl, loc, qty', trades') \<Rightarrow>
             if 0 < qty' then
               (let (asks', pl', loc') = rest ask_before (asks b) pl loc oid side price qty' ts
                in Some (\<lparr>bids = bids', asks = asks', book_pool = pl', locate = loc'\<rparr>, trades'))
             else Some (\<lparr>bids = bids', asks = asks b, book_pool = pl, locate = loc\<rparr>, trades')))"

text \<open>
  The search of \<^verbatim>\<open>remove_from\<close> along one deque: the pointer found and the deque without
  it, \<^term>\<open>Some None\<close> when no order has the id.
\<close>

fun dq_remove :: "Order pool \<Rightarrow> OrderId \<Rightarrow> nat list \<Rightarrow> (nat \<times> nat list) option option" where
  "dq_remove pl oid [] = Some None"
| "dq_remove pl oid (p # ps) =
     (case pool_deref pl p of
        None \<Rightarrow> None
      | Some ord \<Rightarrow>
          if ord_id ord = oid then Some (Some (p, ps))
          else (case dq_remove pl oid ps of
                  None \<Rightarrow> None
                | Some None \<Rightarrow> Some None
                | Some (Some (q, qs)) \<Rightarrow> Some (Some (q, p # qs))))"

definition remove_from :: "levels \<Rightarrow> Order pool \<Rightarrow> Price \<Rightarrow> OrderId \<Rightarrow> (bool \<times> levels \<times> Order pool) option" where
  "remove_from lv pl price oid =
     (case map_of lv price of
        None \<Rightarrow> Some (False, lv, pl)
      | Some dq \<Rightarrow>
          (case dq_remove pl oid dq of
             None \<Rightarrow> None
           | Some None \<Rightarrow> Some (False, lv, pl)
           | Some (Some (p, dq')) \<Rightarrow>
               Some (True, if dq' = [] then AList.delete price lv else AList.update price dq' lv,
                     pool_release pl p)))"

definition cancel :: "book \<Rightarrow> OrderId \<Rightarrow> (bool \<times> book) option" where
  "cancel b oid =
     (case map_of (locate b) oid of
        None \<Rightarrow> Some (False, b)
      | Some (side, price) \<Rightarrow>
          (case (if side = Buy then remove_from (bids b) (book_pool b) price oid
                 else remove_from (asks b) (book_pool b) price oid) of
             None \<Rightarrow> None
           | Some (removed, lv, pl) \<Rightarrow>
               let b' = (if side = Buy then b\<lparr>bids := lv, book_pool := pl\<rparr>
                         else b\<lparr>asks := lv, book_pool := pl\<rparr>)
               in Some (removed, if removed then b'\<lparr>locate := AList.delete oid (locate b)\<rparr> else b')))"

section \<open>Queries\<close>

text \<open>The sum of the open quantities of a deque, in the 32 bits of \<^verbatim>\<open>Qty\<close>.\<close>

fun sum_qty :: "Order pool \<Rightarrow> nat list \<Rightarrow> Qty \<Rightarrow> Qty option" where
  "sum_qty pl [] q = Some q"
| "sum_qty pl (p # ps) q =
     (case pool_deref pl p of None \<Rightarrow> None | Some ord \<Rightarrow> sum_qty pl ps (q + ord_qty ord))"

definition best_of :: "levels \<Rightarrow> Order pool \<Rightarrow> (Price \<times> Qty) option option" where
  "best_of lv pl =
     (case lv of
        [] \<Rightarrow> Some None
      | (px, dq) # _ \<Rightarrow> map_option (\<lambda>q. Some (px, q)) (sum_qty pl dq 0))"

definition best_bid :: "book \<Rightarrow> (Price \<times> Qty) option option" where
  "best_bid b = best_of (bids b) (book_pool b)"

definition best_ask :: "book \<Rightarrow> (Price \<times> Qty) option option" where
  "best_ask b = best_of (asks b) (book_pool b)"

definition bid_levels :: "book \<Rightarrow> nat" where
  "bid_levels b = length (bids b)"

definition ask_levels :: "book \<Rightarrow> nat" where
  "ask_levels b = length (asks b)"

definition resting_orders :: "book \<Rightarrow> nat" where
  "resting_orders b = length (locate b)"

text \<open>The rows \<^verbatim>\<open>print_top\<close> writes for one side: price and total quantity of the first levels.\<close>

fun print_side :: "Order pool \<Rightarrow> nat \<Rightarrow> levels \<Rightarrow> (Price \<times> Qty) list option" where
  "print_side pl 0 lv = Some []"
| "print_side pl (Suc depth) [] = Some []"
| "print_side pl (Suc depth) ((px, dq) # lv) =
     (case sum_qty pl dq 0 of
        None \<Rightarrow> None
      | Some q \<Rightarrow> map_option ((#) (px, q)) (print_side pl depth lv))"

definition print_top :: "book \<Rightarrow> nat \<Rightarrow> ((Price \<times> Qty) list \<times> (Price \<times> Qty) list) option" where
  "print_top b depth =
     (case print_side (book_pool b) depth (asks b) of
        None \<Rightarrow> None
      | Some as \<Rightarrow> map_option (Pair as) (print_side (book_pool b) depth (bids b)))"

end
