(* ===== verification/Book_Spec.thy ===== *)
theory Book_Spec
  imports Order_Book
begin

text \<open>
  The abstract specification of the order book: each side is the list of its resting
  orders in priority order (best price first, oldest first within a price), with no
  levels, pointers or index. Matching walks that list, a remainder is inserted behind
  every order that is not worse. The theory proves what this specification promises:
  conservation of quantity, execution at the resting price within the limit, price-time
  priority, and that the book is never crossed.
\<close>

section \<open>The specification\<close>

text \<open>
  \<open>fill_list cr q rs\<close> trades up to \<open>q\<close> against the resting orders \<open>rs\<close> in turn while the
  price is acceptable: the orders left, the quantity left, and who was filled by how much.
\<close>

fun fill_list :: "(Price \<Rightarrow> bool) \<Rightarrow> Qty \<Rightarrow> Order list \<Rightarrow> Order list \<times> Qty \<times> (Order \<times> Qty) list" where
  "fill_list cr q [] = ([], q, [])"
| "fill_list cr q (r # rs) =
     (if q = 0 \<or> \<not> cr (ord_price r) then (r # rs, q, [])
      else let f = min q (ord_qty r)
           in if ord_qty r = f
              then (let (rs', q', fs) = fill_list cr (q - f) rs in (rs', q', (r, f) # fs))
              else (r\<lparr>ord_qty := ord_qty r - f\<rparr> # rs, q - f, [(r, f)]))"

definition prio_insert :: "(Price \<Rightarrow> Price \<Rightarrow> bool) \<Rightarrow> Order \<Rightarrow> Order list \<Rightarrow> Order list" where
  "prio_insert before r rs =
     takeWhile (\<lambda>s. \<not> before (ord_price r) (ord_price s)) rs @
     r # dropWhile (\<lambda>s. \<not> before (ord_price r) (ord_price s)) rs"

record abook =
  a_bids :: "Order list"
  a_asks :: "Order list"
  a_cap :: nat

definition fill_trades :: "OrderId \<Rightarrow> Side \<Rightarrow> Nanos \<Rightarrow> (Order \<times> Qty) list \<Rightarrow> Trade list" where
  "fill_trades oid side ts fs = map (\<lambda>(r, f). make_trade oid side ts (ord_price r) r f) fs"

definition spec_add ::
  "abook \<Rightarrow> OrderId \<Rightarrow> Side \<Rightarrow> Price \<Rightarrow> Qty \<Rightarrow> Nanos \<Rightarrow> abook \<times> Trade list" where
  "spec_add a oid side price qty ts =
     (if side = Buy then
        (let (asks', q', fs) = fill_list (\<lambda>px. px \<le> price) qty (a_asks a);
             r = \<lparr>ord_id = oid, ord_side = side, ord_price = price, ord_qty = q', ord_ts_ns = ts\<rparr>
         in (a\<lparr>a_asks := asks',
               a_bids := (if q' \<noteq> 0 \<and> length (a_bids a) + length asks' < a_cap a
                          then prio_insert bid_before r (a_bids a) else a_bids a)\<rparr>,
             fill_trades oid side ts fs))
      else
        (let (bids', q', fs) = fill_list (\<lambda>px. price \<le> px) qty (a_bids a);
             r = \<lparr>ord_id = oid, ord_side = side, ord_price = price, ord_qty = q', ord_ts_ns = ts\<rparr>
         in (a\<lparr>a_bids := bids',
               a_asks := (if q' \<noteq> 0 \<and> length bids' + length (a_asks a) < a_cap a
                          then prio_insert ask_before r (a_asks a) else a_asks a)\<rparr>,
             fill_trades oid side ts fs)))"

definition a_orders :: "abook \<Rightarrow> Order list" where
  "a_orders a = a_bids a @ a_asks a"

definition spec_cancel :: "abook \<Rightarrow> OrderId \<Rightarrow> bool \<times> abook" where
  "spec_cancel a oid =
     (oid \<in> ord_id ` set (a_orders a),
      a\<lparr>a_bids := filter (\<lambda>r. ord_id r \<noteq> oid) (a_bids a),
        a_asks := filter (\<lambda>r. ord_id r \<noteq> oid) (a_asks a)\<rparr>)"

section \<open>Well-formed books\<close>

definition prio_sorted :: "(Price \<Rightarrow> Price \<Rightarrow> bool) \<Rightarrow> Order list \<Rightarrow> bool" where
  "prio_sorted before rs \<longleftrightarrow> sorted_wrt (\<lambda>r s. \<not> before (ord_price s) (ord_price r)) rs"

definition abook_inv :: "abook \<Rightarrow> bool" where
  "abook_inv a \<longleftrightarrow>
     prio_sorted bid_before (a_bids a) \<and> prio_sorted ask_before (a_asks a) \<and>
     (\<forall>r \<in> set (a_bids a). ord_side r = Buy) \<and> (\<forall>r \<in> set (a_asks a). ord_side r \<noteq> Buy) \<and>
     (\<forall>r \<in> set (a_orders a). ord_qty r \<noteq> 0) \<and>
     distinct (map ord_id (a_orders a)) \<and>
     (\<forall>b \<in> set (a_bids a). \<forall>s \<in> set (a_asks a). ord_price b < ord_price s) \<and>
     length (a_orders a) \<le> a_cap a"

section \<open>Laws of the matching walk\<close>

lemmas fill_list_induct = fill_list.induct [case_names Nil Cons]

text \<open>Adding up quantities as natural numbers.\<close>

definition total_qty :: "Order list \<Rightarrow> nat" where
  "total_qty rs = sum_list (map (\<lambda>r. unat (ord_qty r)) rs)"

definition total_fill :: "(Order \<times> Qty) list \<Rightarrow> nat" where
  "total_fill fs = sum_list (map (\<lambda>(r, f). unat f) fs)"

lemma total_simps [simp]:
  "total_qty [] = 0" "total_qty (r # rs) = unat (ord_qty r) + total_qty rs"
  "total_qty (rs @ rs') = total_qty rs + total_qty rs'"
  "total_fill [] = 0" "total_fill ((r, f) # fs) = unat f + total_fill fs"
  by (simp_all add: total_qty_def total_fill_def)

lemma fill_list_conserves:
  "fill_list cr q rs = (rs', q', fs) \<Longrightarrow>
     unat q = unat q' + total_fill fs \<and> total_qty rs = total_qty rs' + total_fill fs"
proof (induction cr q rs arbitrary: rs' q' fs rule: fill_list_induct)
  case (Nil cr q)
  then show ?case by simp
next
  case (Cons cr q r rs)
  show ?case
  proof (cases "q = 0 \<or> \<not> cr (ord_price r)")
    case True
    with Cons.prems show ?thesis by simp
  next
    case False
    let ?f = "min q (ord_qty r)"
    have q: "unat (q - ?f) = unat q - min (unat q) (unat (ord_qty r))"
      by (rule unat_sub_min)
    show ?thesis
    proof (cases "ord_qty r = ?f")
      case full: True
      obtain rs1 q1 fs1 where rec: "fill_list cr (q - ?f) rs = (rs1, q1, fs1)"
        by (metis prod_cases3)
      with Cons.IH [OF False refl full rec] Cons.prems False full q show ?thesis
        by (auto simp: Let_def unat_min_word min_def word_le_nat_alt split: if_splits)
    next
      case part: False
      then have "ord_qty r - ?f = ord_qty r - q" "?f = q" "q \<le> ord_qty r"
        by (auto simp: min_def split: if_splits)
      with Cons.prems False part q show ?thesis
        by (auto simp: Let_def unat_sub word_le_nat_alt)
    qed
  qed
qed

text \<open>
  The shape of a walk: a prefix of the queue is filled completely; then either the walk
  stops between two orders, or it ends inside one order with the incoming quantity used up.
\<close>

lemma fill_list_shape:
  "fill_list cr q rs = (rs', q', fs) \<Longrightarrow>
     (\<exists>gone. rs = gone @ rs' \<and> fs = map (\<lambda>r. (r, ord_qty r)) gone \<and>
        (\<forall>r \<in> set gone. cr (ord_price r)) \<and>
        (q' = 0 \<or> rs' = [] \<or> \<not> cr (ord_price (hd rs')))) \<or>
     (\<exists>gone r f tl. rs = gone @ r # tl \<and> rs' = r\<lparr>ord_qty := ord_qty r - f\<rparr> # tl \<and>
        fs = map (\<lambda>r. (r, ord_qty r)) gone @ [(r, f)] \<and> q' = 0 \<and> 0 < f \<and> f < ord_qty r \<and>
        (\<forall>r \<in> set (gone @ [r]). cr (ord_price r)))"
proof (induction cr q rs arbitrary: rs' q' fs rule: fill_list_induct)
  case (Nil cr q)
  then show ?case by simp
next
  case (Cons cr q r rs)
  show ?case
  proof (cases "q = 0 \<or> \<not> cr (ord_price r)")
    case True
    with Cons.prems have "r # rs = [] @ rs'" "fs = []" "q' = 0 \<or> \<not> cr (ord_price (hd rs'))"
      by auto
    then show ?thesis by (intro disjI1 exI [of _ "[]"]) auto
  next
    case False
    let ?f = "min q (ord_qty r)"
    show ?thesis
    proof (cases "ord_qty r = ?f")
      case full: True
      obtain rs1 q1 fs1 where rec: "fill_list cr (q - ?f) rs = (rs1, q1, fs1)"
        by (metis prod_cases3)
      with Cons.prems False full have res: "rs' = rs1" "q' = q1" "fs = (r, ord_qty r) # fs1"
        by (auto simp: Let_def)
      from Cons.IH [OF False refl full rec] show ?thesis
      proof (elim disjE exE)
        fix gone
        assume "rs = gone @ rs1 \<and> fs1 = map (\<lambda>r. (r, ord_qty r)) gone \<and>
          (\<forall>r \<in> set gone. cr (ord_price r)) \<and> (q1 = 0 \<or> rs1 = [] \<or> \<not> cr (ord_price (hd rs1)))"
        with res False show ?thesis
          by (intro disjI1 exI [of _ "r # gone"]) auto
      next
        fix gone r1 f tl
        assume "rs = gone @ r1 # tl \<and> rs1 = r1\<lparr>ord_qty := ord_qty r1 - f\<rparr> # tl \<and>
          fs1 = map (\<lambda>r. (r, ord_qty r)) gone @ [(r1, f)] \<and> q1 = 0 \<and> 0 < f \<and> f < ord_qty r1 \<and>
          (\<forall>r \<in> set (gone @ [r1]). cr (ord_price r))"
        with res False show ?thesis
          by (intro disjI2 exI [of _ "r # gone"] exI [of _ r1] exI [of _ f] exI [of _ tl]) auto
      qed
    next
      case part: False
      then have f: "?f = q" and lt: "q < ord_qty r"
        by (auto simp: min_def split: if_splits)
      have "0 < q"
        using False by (simp add: word_gt_0)
      with Cons.prems False part f lt show ?thesis
        by (intro disjI2 exI [of _ "[]"] exI [of _ r] exI [of _ q] exI [of _ rs]) (auto simp: Let_def)
    qed
  qed
qed

lemma fill_list_cases [consumes 1, case_names whole partial]:
  assumes "fill_list cr q rs = (rs', q', fs)"
  obtains (whole) gone where "rs = gone @ rs'" and "fs = map (\<lambda>r. (r, ord_qty r)) gone"
      and "\<forall>r \<in> set gone. cr (ord_price r)" and "q' = 0 \<or> rs' = [] \<or> \<not> cr (ord_price (hd rs'))"
    | (partial) gone r f tl where "rs = gone @ r # tl" and "rs' = r\<lparr>ord_qty := ord_qty r - f\<rparr> # tl"
      and "fs = map (\<lambda>r. (r, ord_qty r)) gone @ [(r, f)]" and "q' = 0" and "0 < f" and "f < ord_qty r"
      and "\<forall>r \<in> set (gone @ [r]). cr (ord_price r)"
  using fill_list_shape [OF assms] by blast

lemma fill_list_prefix:
  assumes "fill_list cr q rs = (rs', q', fs)"
  shows "map fst fs = take (length fs) rs"
  using assms by (cases rule: fill_list_cases) (auto simp: comp_def)

lemma fill_list_crosses:
  assumes "fill_list cr q rs = (rs', q', fs)" and "(r, f) \<in> set fs"
  shows "cr (ord_price r) \<and> r \<in> set rs \<and> f \<le> ord_qty r"
  using assms by (cases rule: fill_list_cases) auto

lemma fill_list_positive:
  assumes "fill_list cr q rs = (rs', q', fs)" and "\<forall>r \<in> set rs. ord_qty r \<noteq> 0"
  shows "\<forall>(r, f) \<in> set fs. f \<noteq> 0"
  using assms by (cases rule: fill_list_cases) auto

lemma fill_list_left:
  assumes "fill_list cr q rs = (rs', q', fs)" and "q' \<noteq> 0"
  shows "rs' = [] \<or> \<not> cr (ord_price (hd rs'))"
  using assms by (cases rule: fill_list_cases) auto

text \<open>What is left of a well-formed side is well-formed.\<close>

definition order_key :: "Order \<Rightarrow> OrderId \<times> Side \<times> Price" where
  "order_key r = (ord_id r, ord_side r, ord_price r)"

lemma fill_list_keys:
  assumes "fill_list cr q rs = (rs', q', fs)"
  shows "map order_key rs' = drop (length rs - length rs') (map order_key rs) \<and> length rs' \<le> length rs"
  using assms by (cases rule: fill_list_cases) (auto simp: order_key_def)

lemma fill_list_nonzero:
  assumes "fill_list cr q rs = (rs', q', fs)" and "\<forall>r \<in> set rs. ord_qty r \<noteq> 0"
  shows "\<forall>r \<in> set rs'. ord_qty r \<noteq> 0"
  using assms by (cases rule: fill_list_cases) auto

lemma fill_list_append:
  assumes "\<forall>r \<in> set rs1. cr (ord_price r)" and "fill_list (\<lambda>_. True) q rs1 = (rs1', q1, fs1)"
  shows "fill_list cr q (rs1 @ rs2) =
    (if rs1' = [] then (let (rs2', q2, fs2) = fill_list cr q1 rs2 in (rs2', q2, fs1 @ fs2))
     else (rs1' @ rs2, q1, fs1))"
  using assms
proof (induction rs1 arbitrary: q rs1' q1 fs1)
  case Nil
  then show ?case by (auto split: prod.splits)
next
  case (Cons r rs1)
  show ?case
  proof (cases "q \<noteq> 0 \<and> ord_qty r = min q (ord_qty r)")
    case True
    obtain rs q' fs where rec: "fill_list (\<lambda>_. True) (q - min q (ord_qty r)) rs1 = (rs, q', fs)"
      by (metis prod_cases3)
    with Cons.IH [OF _ rec] Cons.prems True show ?thesis
      by (auto simp: Let_def split: prod.splits)
  next
    case False
    with Cons.prems show ?thesis by (auto simp: Let_def split: if_splits)
  qed
qed

section \<open>Priority order of a side\<close>

text \<open>
  The book relies on its comparators being strict total orders; insertion and level
  lookup are correct for every such comparator.
\<close>

locale price_order =
  fixes before :: "Price \<Rightarrow> Price \<Rightarrow> bool"
  assumes irrefl: "\<not> before x x"
    and trans: "before x y \<Longrightarrow> before y z \<Longrightarrow> before x z"
    and total: "before x y \<or> x = y \<or> before y x"
begin

lemma asym: "before x y \<Longrightarrow> \<not> before y x"
  using irrefl trans by blast

lemma not_before_trans: "\<not> before y x \<Longrightarrow> \<not> before z y \<Longrightarrow> \<not> before z x"
  using total trans irrefl by metis

lemma before_not_before: "before x y \<Longrightarrow> \<not> before z y \<Longrightarrow> before x z"
  using total trans by metis

lemma prio_sorted_insert:
  assumes "prio_sorted before rs"
  shows "prio_sorted before (prio_insert before r rs)"
proof -
  let ?p = "\<lambda>s. \<not> before (ord_price r) (ord_price s)"
  define A where "A = takeWhile ?p rs"
  define B where "B = dropWhile ?p rs"
  have AB: "A @ B = rs" and ins: "prio_insert before r rs = A @ r # B"
    by (simp_all add: A_def B_def prio_insert_def)
  have sorted: "prio_sorted before A" "prio_sorted before B"
    and cross: "\<forall>x \<in> set A. \<forall>y \<in> set B. \<not> before (ord_price y) (ord_price x)"
    using assms by (auto simp: prio_sorted_def sorted_wrt_append simp flip: AB)
  have a: "\<forall>x \<in> set A. \<not> before (ord_price r) (ord_price x)"
    by (auto simp: A_def dest: set_takeWhileD)
  have b: "\<forall>y \<in> set B. \<not> before (ord_price y) (ord_price r)"
  proof (cases B)
    case Nil
    then show ?thesis by simp
  next
    case (Cons y ys)
    then have y: "before (ord_price r) (ord_price y)"
      using hd_dropWhile [of ?p rs] by (simp add: B_def)
    have "\<not> before (ord_price z) (ord_price y)" if "z \<in> set ys" for z
      using sorted(2) Cons that by (simp add: prio_sorted_def)
    then have "\<not> before (ord_price z) (ord_price r)" if "z \<in> set ys" for z
      using asym [OF before_not_before [OF y]] that by blast
    with asym [OF y] Cons show ?thesis by simp
  qed
  show ?thesis
    unfolding ins using sorted cross a b by (simp add: prio_sorted_def sorted_wrt_append)
qed

end

lemma set_prio_insert [simp]: "set (prio_insert before r rs) = insert r (set rs)"
  by (metis (no_types) Un_insert_right list.simps(15) prio_insert_def set_append takeWhile_dropWhile_id)

lemma length_prio_insert [simp]: "length (prio_insert before r rs) = Suc (length rs)"
  by (metis add_Suc_right length_Cons length_append prio_insert_def takeWhile_dropWhile_id)

lemma distinct_prio_insert:
  "distinct (map g (prio_insert before r rs)) \<longleftrightarrow> distinct (map g rs) \<and> g r \<notin> g ` set rs"
proof -
  let ?p = "\<lambda>s. \<not> before (ord_price r) (ord_price s)"
  have "distinct (map g rs) \<longleftrightarrow> distinct (map g (takeWhile ?p rs) @ map g (dropWhile ?p rs))"
    and "g ` set rs = g ` set (takeWhile ?p rs) \<union> g ` set (dropWhile ?p rs)"
    by (metis map_append takeWhile_dropWhile_id, metis image_Un set_append takeWhile_dropWhile_id)
  then show ?thesis
    by (auto simp: prio_insert_def)
qed

interpretation bid: price_order bid_before
  by unfold_locales (auto simp: bid_before_def)

interpretation ask: price_order ask_before
  by unfold_locales (auto simp: ask_before_def)

lemma prio_sorted_keys:
  "prio_sorted before rs \<longleftrightarrow> sorted_wrt (\<lambda>x y. \<not> before (snd (snd y)) (snd (snd x))) (map order_key rs)"
  by (simp add: prio_sorted_def sorted_wrt_map order_key_def)

lemma fill_list_sorted:
  assumes "fill_list cr q rs = (rs', q', fs)" and "prio_sorted before rs"
  shows "prio_sorted before rs'"
  using fill_list_keys [OF assms(1)] assms(2) by (simp add: prio_sorted_keys sorted_wrt_drop)

lemma fill_list_key_subset:
  assumes "fill_list cr q rs = (rs', q', fs)"
  shows "order_key ` set rs' \<subseteq> order_key ` set rs"
  using fill_list_keys [OF assms] by (metis set_drop_subset set_map)

lemma fill_list_old:
  assumes "fill_list cr q rs = (rs', q', fs)" and "r \<in> set rs'"
  obtains s where "s \<in> set rs" and "ord_id r = ord_id s" and "ord_side r = ord_side s"
    and "ord_price r = ord_price s"
  using fill_list_key_subset [OF assms(1)] assms(2) by (force simp: order_key_def)

lemma fill_list_ids:
  assumes "fill_list cr q rs = (rs', q', fs)"
  shows "ord_id ` set rs' \<subseteq> ord_id ` set rs"
  using fill_list_old [OF assms] by (metis image_subset_iff rev_image_eqI)

lemma ord_id_key: "map ord_id rs = map fst (map order_key rs)"
  by (simp add: order_key_def)

lemma fill_list_distinct:
  assumes "fill_list cr q rs = (rs', q', fs)" and "distinct (map ord_id (xs @ rs @ ys))"
  shows "distinct (map ord_id (xs @ rs' @ ys))"
proof -
  have "map ord_id rs' = drop (length rs - length rs') (map ord_id rs)"
    using fill_list_keys [OF assms(1)] by (simp add: ord_id_key drop_map)
  then show ?thesis
    using distinct_drop_middle [of "map ord_id xs" "map ord_id rs" "map ord_id ys"] assms(2)
    by (simp only: map_append)
qed

lemma fill_list_left_all:
  assumes "fill_list cr q rs = (rs', q', fs)" and "q' \<noteq> 0" and "prio_sorted before rs"
    and "\<And>x y. \<not> cr x \<Longrightarrow> \<not> before y x \<Longrightarrow> \<not> cr y"
  shows "\<forall>r \<in> set rs'. \<not> cr (ord_price r)"
proof (cases rs')
  case Nil
  then show ?thesis by simp
next
  case (Cons r tl)
  with fill_list_left [OF assms(1,2)] have "\<not> cr (ord_price r)"
    by simp
  moreover have "\<forall>s \<in> set tl. \<not> before (ord_price s) (ord_price r)"
    using fill_list_sorted [OF assms(1,3)] Cons by (simp add: prio_sorted_def)
  ultimately show ?thesis
    using Cons assms(4) by auto
qed

section \<open>The specification keeps books well-formed\<close>

lemma abook_inv_fill_asks:
  assumes "abook_inv a" and "fill_list cr q (a_asks a) = (asks', q', fs)"
  shows "abook_inv (a\<lparr>a_asks := asks'\<rparr>)"
proof -
  have "\<forall>r \<in> set asks'. ord_side r \<noteq> Buy \<and> (\<forall>b \<in> set (a_bids a). ord_price b < ord_price r)"
    using assms(1) by (auto simp: abook_inv_def elim!: fill_list_old [OF assms(2)])
  moreover have "\<forall>r \<in> set asks'. ord_qty r \<noteq> 0"
    using fill_list_nonzero [OF assms(2)] assms(1) by (simp add: abook_inv_def a_orders_def)
  moreover have "distinct (map ord_id (a_bids a @ asks'))"
    using fill_list_distinct [OF assms(2), of "a_bids a" "[]"] assms(1)
    by (simp add: abook_inv_def a_orders_def)
  moreover have "prio_sorted ask_before asks'"
    using fill_list_sorted [OF assms(2)] assms(1) by (simp add: abook_inv_def)
  moreover have "length asks' \<le> length (a_asks a)"
    using fill_list_keys [OF assms(2)] by simp
  ultimately show ?thesis
    using assms(1) by (simp add: abook_inv_def a_orders_def ball_Un)
qed

lemma abook_inv_fill_bids:
  assumes "abook_inv a" and "fill_list cr q (a_bids a) = (bids', q', fs)"
  shows "abook_inv (a\<lparr>a_bids := bids'\<rparr>)"
proof -
  have "\<forall>r \<in> set bids'. ord_side r = Buy \<and> (\<forall>s \<in> set (a_asks a). ord_price r < ord_price s)"
    using assms(1) by (auto simp: abook_inv_def elim!: fill_list_old [OF assms(2)])
  moreover have "\<forall>r \<in> set bids'. ord_qty r \<noteq> 0"
    using fill_list_nonzero [OF assms(2)] assms(1) by (simp add: abook_inv_def a_orders_def)
  moreover have "distinct (map ord_id (bids' @ a_asks a))"
    using fill_list_distinct [OF assms(2), of "[]" "a_asks a"] assms(1)
    by (simp add: abook_inv_def a_orders_def)
  moreover have "prio_sorted bid_before bids'"
    using fill_list_sorted [OF assms(2)] assms(1) by (simp add: abook_inv_def)
  moreover have "length bids' \<le> length (a_bids a)"
    using fill_list_keys [OF assms(2)] by simp
  ultimately show ?thesis
    using assms(1) by (simp add: abook_inv_def a_orders_def ball_Un)
qed

lemma abook_inv_rest_bid:
  assumes "abook_inv a" and "ord_id r \<notin> ord_id ` set (a_orders a)" and "ord_side r = Buy"
    and "ord_qty r \<noteq> 0" and "\<forall>s \<in> set (a_asks a). ord_price r < ord_price s"
    and "length (a_orders a) < a_cap a"
  shows "abook_inv (a\<lparr>a_bids := prio_insert bid_before r (a_bids a)\<rparr>)"
  using assms bid.prio_sorted_insert [of "a_bids a" r]
  by (auto simp: abook_inv_def a_orders_def distinct_prio_insert)

lemma abook_inv_rest_ask:
  assumes "abook_inv a" and "ord_id r \<notin> ord_id ` set (a_orders a)" and "ord_side r \<noteq> Buy"
    and "ord_qty r \<noteq> 0" and "\<forall>b \<in> set (a_bids a). ord_price b < ord_price r"
    and "length (a_orders a) < a_cap a"
  shows "abook_inv (a\<lparr>a_asks := prio_insert ask_before r (a_asks a)\<rparr>)"
  using assms ask.prio_sorted_insert [of "a_asks a" r]
  by (auto simp: abook_inv_def a_orders_def distinct_prio_insert)

lemma spec_add_inv:
  assumes inv: "abook_inv a" and fresh: "oid \<notin> ord_id ` set (a_orders a)"
  shows "abook_inv (fst (spec_add a oid side price qty ts))"
proof (cases "side = Buy")
  case True
  obtain asks' q' fs where fl: "fill_list (\<lambda>px. px \<le> price) qty (a_asks a) = (asks', q', fs)"
    by (metis prod_cases3)
  have inv': "abook_inv (a\<lparr>a_asks := asks'\<rparr>)"
    using inv fl by (rule abook_inv_fill_asks)
  have "ord_id ` set asks' \<subseteq> ord_id ` set (a_asks a)"
    using fl by (rule fill_list_ids)
  moreover have "\<forall>s \<in> set asks'. price < ord_price s" if "q' \<noteq> 0"
    using fill_list_left_all [OF fl that, of ask_before] inv
    by (force simp: abook_inv_def ask_before_def)
  ultimately show ?thesis
    using True fl fresh inv' abook_inv_rest_bid [OF inv',
        of "\<lparr>ord_id = oid, ord_side = Buy, ord_price = price, ord_qty = q', ord_ts_ns = ts\<rparr>"]
    by (auto simp: spec_add_def a_orders_def)
next
  case False
  obtain bids' q' fs where fl: "fill_list (\<lambda>px. price \<le> px) qty (a_bids a) = (bids', q', fs)"
    by (metis prod_cases3)
  have inv': "abook_inv (a\<lparr>a_bids := bids'\<rparr>)"
    using inv fl by (rule abook_inv_fill_bids)
  have "ord_id ` set bids' \<subseteq> ord_id ` set (a_bids a)"
    using fl by (rule fill_list_ids)
  moreover have "\<forall>b \<in> set bids'. ord_price b < price" if "q' \<noteq> 0"
    using fill_list_left_all [OF fl that, of bid_before] inv
    by (force simp: abook_inv_def bid_before_def)
  ultimately show ?thesis
    using False fl fresh inv' abook_inv_rest_ask [OF inv',
        of "\<lparr>ord_id = oid, ord_side = side, ord_price = price, ord_qty = q', ord_ts_ns = ts\<rparr>"]
    by (auto simp: spec_add_def a_orders_def)
qed

lemma a_orders_cancel:
  "a_orders (snd (spec_cancel a oid)) = filter (\<lambda>r. ord_id r \<noteq> oid) (a_orders a)"
  by (simp add: spec_cancel_def a_orders_def)

lemma spec_cancel_inv:
  assumes "abook_inv a"
  shows "abook_inv (snd (spec_cancel a oid))"
proof -
  have "length (a_orders (snd (spec_cancel a oid))) \<le> a_cap a"
    using assms by (auto simp: a_orders_cancel abook_inv_def intro: le_trans [OF length_filter_le])
  moreover have "distinct (map ord_id (a_orders (snd (spec_cancel a oid))))"
    using assms by (simp add: a_orders_cancel abook_inv_def distinct_map_filter)
  moreover have "\<forall>r \<in> set (a_orders (snd (spec_cancel a oid))). ord_qty r \<noteq> 0"
    using assms by (simp add: a_orders_cancel abook_inv_def)
  ultimately show ?thesis
    using assms by (simp add: abook_inv_def prio_sorted_def sorted_wrt_filter spec_cancel_def)
qed

lemma a_cap_spec [simp]:
  "a_cap (fst (spec_add a oid side price qty ts)) = a_cap a"
  "a_cap (snd (spec_cancel a oid)) = a_cap a"
  by (simp_all add: spec_add_def spec_cancel_def split: prod.splits)

end
