(* ===== verification/Book_Refinement.thy ===== *)
theory Book_Refinement
  imports Book_Spec
begin

text \<open>
  The book of \<^verbatim>\<open>include/order_book.hpp\<close> (theory \<open>Order_Book\<close>) implements the abstract
  book of \<open>Book_Spec\<close>. The invariant says that every pointer of a level is live and holds
  an order of that level's price, that no two pointers are equal and none is lost, that
  levels are sorted and never empty, and that \<^verbatim>\<open>locate_\<close> indexes exactly the resting
  orders. Under it, no operation touches a dead object.
\<close>

section \<open>From pointers to orders\<close>

definition lv_ptrs :: "levels \<Rightarrow> nat list" where
  "lv_ptrs lv = concat (map snd lv)"

lemma lv_ptrs_simps [simp]:
  "lv_ptrs [] = []" "lv_ptrs ((px, dq) # lv) = dq @ lv_ptrs lv" "lv_ptrs (lv @ lv') = lv_ptrs lv @ lv_ptrs lv'"
  by (simp_all add: lv_ptrs_def)

text \<open>\<open>holds st ps rs\<close>: the pointers \<open>ps\<close> are live and point to the orders \<open>rs\<close>.\<close>

definition holds :: "(nat \<Rightarrow> Order option) \<Rightarrow> nat list \<Rightarrow> Order list \<Rightarrow> bool" where
  "holds st ps rs \<longleftrightarrow> map st ps = map Some rs"

lemma holds_simps [simp]:
  "holds st [] rs \<longleftrightarrow> rs = []" "holds st ps [] \<longleftrightarrow> ps = []"
  "holds st (p # ps) (r # rs) \<longleftrightarrow> st p = Some r \<and> holds st ps rs"
  by (auto simp: holds_def)

lemma holds_Cons:
  "holds st (p # ps) rs \<longleftrightarrow> (\<exists>r rs'. rs = r # rs' \<and> st p = Some r \<and> holds st ps rs')"
  by (auto simp: holds_def Cons_eq_map_conv)

lemma holds_length: "holds st ps rs \<Longrightarrow> length ps = length rs"
  unfolding holds_def by (metis length_map)

lemma holds_append:
  "length ps = length rs \<Longrightarrow> holds st (ps @ ps') (rs @ rs') \<longleftrightarrow> holds st ps rs \<and> holds st ps' rs'"
  by (simp add: holds_def)

lemma holds_split:
  assumes "holds st (ps @ ps') rs"
  obtains rs1 rs2 where "rs = rs1 @ rs2" and "holds st ps rs1" and "holds st ps' rs2"
  using assms by (auto simp: holds_def append_eq_map_conv map_eq_append_conv)

lemma holds_cong: "holds st ps rs \<Longrightarrow> (\<And>p. p \<in> set ps \<Longrightarrow> st' p = st p) \<Longrightarrow> holds st' ps rs"
  by (simp add: holds_def cong: map_cong)

lemma holds_live: "holds st ps rs \<Longrightarrow> p \<in> set ps \<Longrightarrow> \<exists>r \<in> set rs. st p = Some r"
  by (metis holds_def imageE image_eqI list.set_map)

definition levels_ok :: "(Price \<Rightarrow> Price \<Rightarrow> bool) \<Rightarrow> (nat \<Rightarrow> Order option) \<Rightarrow> levels \<Rightarrow> bool" where
  "levels_ok before st lv \<longleftrightarrow> sorted_wrt before (map fst lv) \<and>
     (\<forall>(px, dq) \<in> set lv. dq \<noteq> [] \<and> (\<forall>p \<in> set dq. \<exists>r. st p = Some r \<and> ord_price r = px))"

lemma levels_ok_Cons:
  "levels_ok before st ((px, dq) # lv) \<longleftrightarrow> (\<forall>(q, _) \<in> set lv. before px q) \<and> dq \<noteq> [] \<and>
     (\<forall>p \<in> set dq. \<exists>r. st p = Some r \<and> ord_price r = px) \<and> levels_ok before st lv"
  by (auto simp: levels_ok_def)

lemma levels_ok_Nil [simp]: "levels_ok before st []"
  by (simp add: levels_ok_def)

lemma levels_ok_cong:
  assumes "levels_ok before st lv" and "\<And>p. p \<in> set (lv_ptrs lv) \<Longrightarrow> st' p = st p"
  shows "levels_ok before st' lv"
  using assms by (fastforce simp: levels_ok_def lv_ptrs_def)

section \<open>The matching loops\<close>

text \<open>The index after erasing the ids of the orders that are gone.\<close>

definition erase_ids :: "Order list \<Rightarrow> (OrderId, 'v) umap \<Rightarrow> (OrderId, 'v) umap" where
  "erase_ids rs loc = fold (\<lambda>r. AList.delete (ord_id r)) rs loc"

lemma erase_ids_simps [simp]:
  "erase_ids [] loc = loc" "erase_ids (r # rs) loc = erase_ids rs (AList.delete (ord_id r) loc)"
  "erase_ids (rs @ rs') loc = erase_ids rs' (erase_ids rs loc)"
  by (simp_all add: erase_ids_def)

lemma map_of_erase_ids:
  "map_of (erase_ids rs loc) k = (if k \<in> ord_id ` set rs then None else map_of loc k)"
  by (induction rs arbitrary: loc) (auto simp: umap_simps)

lemma umap_ok_erase_ids: "umap_ok loc \<Longrightarrow> umap_ok (erase_ids rs loc)"
  by (induction rs arbitrary: loc) auto

lemma match_level_done:
  "q = 0 \<or> dq = [] \<Longrightarrow> match_level oid side px ts dq pl loc q trs = Some (dq, pl, loc, q, trs)"
  by (subst match_level.simps) auto

text \<open>The first order of a level is filled completely and leaves, or takes all that is left of the incoming order.\<close>

lemma match_level_full:
  assumes "pool_inv pl" and "pool_deref pl p = Some r" and "q \<noteq> 0" and "ord_qty r = min q (ord_qty r)"
  obtains pl' where "match_level oid side px ts (p # ps) pl loc q trs =
      match_level oid side px ts ps pl' (AList.delete (ord_id r) loc) (q - min q (ord_qty r))
        (trs @ [make_trade oid side ts px r (min q (ord_qty r))])"
    and "pool_inv pl'" and "pool_capacity pl' = pool_capacity pl" and "pool_deref pl' = (pool_deref pl)(p := None)"
proof -
  let ?r = "r\<lparr>ord_qty := ord_qty r - min q (ord_qty r)\<rparr>"
  let ?pl = "pool_store pl p ?r"
  have st: "pool_inv ?pl" "pool_capacity ?pl = pool_capacity pl" "pool_deref ?pl = (pool_deref pl)(p \<mapsto> ?r)"
    using pool_store_spec [OF assms(1,2)] by auto
  have "pool_inv (pool_release ?pl p)" "pool_capacity (pool_release ?pl p) = pool_capacity pl"
    "pool_deref (pool_release ?pl p) = (pool_deref pl)(p := None)"
    using pool_release_spec [OF st(1), of p ?r] st by auto
  moreover have "match_level oid side px ts (p # ps) pl loc q trs =
      match_level oid side px ts ps (pool_release ?pl p) (AList.delete (ord_id r) loc) (q - min q (ord_qty r))
        (trs @ [make_trade oid side ts px r (min q (ord_qty r))])"
    using assms(2-4) by (subst match_level.simps) (simp add: word_gt_0 Let_def)
  ultimately show thesis using that by blast
qed

lemma match_level_part:
  assumes "pool_inv pl" and "pool_deref pl p = Some r" and "q \<noteq> 0" and "ord_qty r \<noteq> min q (ord_qty r)"
  obtains pl' where "match_level oid side px ts (p # ps) pl loc q trs =
      Some (p # ps, pl', loc, 0, trs @ [make_trade oid side ts px r (min q (ord_qty r))])"
    and "pool_inv pl'" and "pool_capacity pl' = pool_capacity pl"
    and "pool_deref pl' = (pool_deref pl)(p \<mapsto> r\<lparr>ord_qty := ord_qty r - min q (ord_qty r)\<rparr>)"
proof -
  let ?f = "min q (ord_qty r)" and ?t = "make_trade oid side ts px r (min q (ord_qty r))"
  let ?pl = "pool_store pl p (r\<lparr>ord_qty := ord_qty r - ?f\<rparr>)"
  have zero: "ord_qty r - ?f = 0 \<longleftrightarrow> ord_qty r = ?f"
    by simp
  have "match_level oid side px ts (p # ps) pl loc q trs = match_level oid side px ts (p # ps) ?pl loc (q - ?f) (trs @ [?t])"
    using assms(2-4) by (subst match_level.simps) (simp add: word_gt_0 zero Let_def)
  also have "q - ?f = 0"
    using assms(4) by (simp add: min_def split: if_splits)
  finally have "match_level oid side px ts (p # ps) pl loc q trs = Some (p # ps, ?pl, loc, 0, trs @ [?t])"
    by (simp add: match_level_done)
  then show thesis
    using pool_store_spec [OF assms(1,2)] by (intro that [of ?pl]) auto
qed

text \<open>The level after the loop: the first \<open>n\<close> objects are gone, the others hold \<open>rs'\<close>, nothing else changed.\<close>

definition level_post :: "Order pool \<Rightarrow> nat list \<Rightarrow> nat \<Rightarrow> Order list \<Rightarrow> Order pool \<Rightarrow> bool" where
  "level_post pl dq n rs' pl' \<longleftrightarrow> pool_inv pl' \<and> pool_capacity pl' = pool_capacity pl \<and> holds (pool_deref pl') (drop n dq) rs' \<and>
     (\<forall>p. p \<notin> set dq \<longrightarrow> pool_deref pl' p = pool_deref pl p) \<and> (\<forall>p \<in> set (take n dq). pool_deref pl' p = None)"

lemma match_level_spec:
  assumes "pool_inv pl" and "holds (pool_deref pl) dq rs" and "distinct dq"
    and "\<forall>r \<in> set rs. ord_price r = px" and "fill_list (\<lambda>_. True) q rs = (rs', q', fs)"
  shows "\<exists>pl'. match_level oid side px ts dq pl loc q trs =
      Some (drop (length rs - length rs') dq, pl', erase_ids (take (length rs - length rs') rs) loc, q', trs @ fill_trades oid side ts fs) \<and>
    level_post pl dq (length rs - length rs') rs' pl'"
  using assms
proof (induction rs arbitrary: dq pl loc q trs fs)
  case Nil
  then show ?case by (simp add: match_level_done fill_trades_def level_post_def)
next
  case (Cons r rs)
  from Cons.prems(2) obtain p ps where dq: "dq = p # ps" and r: "pool_deref pl p = Some r"
    and ps: "holds (pool_deref pl) ps rs"
    by (cases dq) auto
  let ?f = "min q (ord_qty r)"
  consider "q = 0" | "q \<noteq> 0" "ord_qty r = ?f" | "q \<noteq> 0" "ord_qty r \<noteq> ?f"
    by blast
  then show ?case
  proof cases
    case 1
    with Cons.prems show ?thesis by (simp add: match_level_done fill_trades_def level_post_def)
  next
    case 2
    obtain fs1 where rec: "fill_list (\<lambda>_. True) (q - ?f) rs = (rs', q', fs1)" and fs: "fs = (r, ?f) # fs1"
      using Cons.prems(5) 2 by (auto simp: Let_def split: prod.splits)
    from match_level_full [OF Cons.prems(1) r 2] obtain pl1 where
      1: "match_level oid side px ts dq pl loc q trs =
          match_level oid side px ts ps pl1 (AList.delete (ord_id r) loc) (q - ?f) (trs @ [make_trade oid side ts px r ?f])"
        "pool_inv pl1" "pool_capacity pl1 = pool_capacity pl" "pool_deref pl1 = (pool_deref pl)(p := None)"
      unfolding dq by metis
    have "holds (pool_deref pl1) ps rs"
      using ps Cons.prems(3) by (auto simp: 1(4) dq intro: holds_cong)
    from Cons.IH [OF 1(2) this _ _ rec, of "AList.delete (ord_id r) loc" "trs @ [make_trade oid side ts px r ?f]"] Cons.prems(3,4) obtain pl' where
      "match_level oid side px ts ps pl1 (AList.delete (ord_id r) loc) (q - ?f) (trs @ [make_trade oid side ts px r ?f]) =
        Some (drop (length rs - length rs') ps, pl', erase_ids (take (length rs - length rs') rs) (AList.delete (ord_id r) loc), q',
          (trs @ [make_trade oid side ts px r ?f]) @ fill_trades oid side ts fs1)"
      "level_post pl1 ps (length rs - length rs') rs' pl'"
      by (auto simp: dq)
    moreover have "length rs' \<le> length rs" "ord_price r = px"
      using fill_list_keys [OF rec] Cons.prems(4) by simp_all
    ultimately show ?thesis
      using Cons.prems(3) 1 by (intro exI [of _ pl']) (auto simp: fs dq Suc_diff_le fill_trades_def level_post_def)
  next
    case 3
    then have res: "rs' = r\<lparr>ord_qty := ord_qty r - ?f\<rparr> # rs" "q' = 0" "fs = [(r, ?f)]"
      using Cons.prems(5) by (auto simp: Let_def min_def split: if_splits)
    from match_level_part [OF Cons.prems(1) r 3] obtain pl' where
      1: "match_level oid side px ts dq pl loc q trs = Some (dq, pl', loc, 0, trs @ [make_trade oid side ts px r ?f])"
        "pool_inv pl'" "pool_capacity pl' = pool_capacity pl" "pool_deref pl' = (pool_deref pl)(p \<mapsto> r\<lparr>ord_qty := ord_qty r - ?f\<rparr>)"
      unfolding dq by metis
    have "holds (pool_deref pl') ps rs"
      using ps Cons.prems(3) by (auto simp: 1(4) dq intro: holds_cong)
    with 1 res Cons.prems(4) show ?thesis
      by (simp add: dq fill_trades_def level_post_def)
  qed
qed

lemma match_against_done:
  "q = 0 \<or> lv = [] \<Longrightarrow> match_against crosses oid side price ts lv pl loc q trs = Some (lv, pl, loc, q, trs)"
  by (subst match_against.simps) auto

lemma fill_list_stop:
  "q = 0 \<or> rs = [] \<or> \<not> cr (ord_price (hd rs)) \<Longrightarrow> fill_list cr q rs = (rs, q, [])"
  by (cases rs) auto

lemma fill_list_True_left:
  "fill_list (\<lambda>_. True) q rs = (rs', q', fs) \<Longrightarrow> rs' \<noteq> [] \<Longrightarrow> q' = 0"
  using fill_list_left by blast

lemma levels_ok_prices:
  assumes "levels_ok before st ((px, dq) # lv)" and "holds st dq rs"
  shows "\<forall>r \<in> set rs. ord_price r = px"
proof
  fix r
  assume "r \<in> set rs"
  then obtain p where "p \<in> set dq" "st p = Some r"
    using assms(2) unfolding holds_def by (metis imageE image_eqI list.set_map)
  then show "ord_price r = px"
    using assms(1) by (force simp: levels_ok_Cons)
qed

lemma levels_ok_front:
  assumes "levels_ok before st ((px, dq) # lv)" and "dq' \<noteq> []" and "holds st' dq' rs'"
    and "\<forall>r \<in> set rs'. ord_price r = px" and "\<And>p. p \<in> set (lv_ptrs lv) \<Longrightarrow> st' p = st p"
  shows "levels_ok before st' ((px, dq') # lv)"
proof -
  have "levels_ok before st lv"
    using assms(1) by (simp add: levels_ok_Cons)
  then have "levels_ok before st' lv"
    using assms(5) by (rule levels_ok_cong)
  moreover have "\<forall>p \<in> set dq'. \<exists>r. st' p = Some r \<and> ord_price r = px"
    using holds_live [OF assms(3)] assms(4) by blast
  ultimately show ?thesis
    using assms(1,2) by (simp add: levels_ok_Cons)
qed

definition match_post ::
  "(Price \<Rightarrow> Price \<Rightarrow> bool) \<Rightarrow> levels \<Rightarrow> Order pool \<Rightarrow> nat \<Rightarrow> Order list \<Rightarrow> levels \<Rightarrow> Order pool \<Rightarrow> bool" where
  "match_post before lv pl n rs' lv' pl' \<longleftrightarrow>
     pool_inv pl' \<and> pool_capacity pl' = pool_capacity pl \<and>
     levels_ok before (pool_deref pl') lv' \<and> lv_ptrs lv' = drop n (lv_ptrs lv) \<and>
     holds (pool_deref pl') (lv_ptrs lv') rs' \<and>
     (\<forall>p. p \<notin> set (lv_ptrs lv) \<longrightarrow> pool_deref pl' p = pool_deref pl p) \<and>
     (\<forall>p \<in> set (take n (lv_ptrs lv)). pool_deref pl' p = None)"

text \<open>A level that was emptied, or only shortened, followed by what matching made of the levels behind it.\<close>

lemma match_post_emptied:
  assumes lvl: "level_post pl dq (length dq) [] pl1" and post: "match_post before lv pl1 n rs' lv' pl'"
    and "set dq \<inter> set (lv_ptrs lv) = {}"
  shows "match_post before ((px, dq) # lv) pl (length dq + n) rs' lv' pl'"
  using assms by (auto simp: match_post_def level_post_def)

lemma match_post_shortened:
  assumes lvl: "level_post pl dq n rs1 pl1" and ok: "levels_ok before (pool_deref pl) ((px, dq) # lv)"
    and rest: "holds (pool_deref pl) (lv_ptrs lv) rs2" and dist: "set dq \<inter> set (lv_ptrs lv) = {}"
    and px: "\<forall>r \<in> set rs1. ord_price r = px" and "rs1 \<noteq> []" and "n \<le> length dq"
  shows "match_post before ((px, dq) # lv) pl n (rs1 @ rs2) ((px, drop n dq) # lv) pl1"
proof -
  have frame: "pool_deref pl1 p = pool_deref pl p" if "p \<in> set (lv_ptrs lv)" for p
    using lvl dist that by (auto simp: level_post_def)
  have h: "holds (pool_deref pl1) (drop n dq) rs1"
    using lvl by (simp add: level_post_def)
  then have "drop n dq \<noteq> []"
    using assms(6) by auto
  then have "levels_ok before (pool_deref pl1) ((px, drop n dq) # lv)"
    using levels_ok_front [OF ok _ h px frame] by blast
  moreover have "holds (pool_deref pl1) (drop n dq @ lv_ptrs lv) (rs1 @ rs2)"
    using h holds_length [OF h] holds_cong [OF rest frame] by (simp only: holds_append)
  ultimately show ?thesis
    using lvl assms(7) by (simp add: match_post_def level_post_def)
qed

lemma match_against_spec:
  assumes "pool_inv pl" and "levels_ok before (pool_deref pl) lv" and "distinct (lv_ptrs lv)"
    and "holds (pool_deref pl) (lv_ptrs lv) rs"
    and "fill_list (\<lambda>px. crosses px price) q rs = (rs', q', fs)"
  shows "\<exists>lv' pl'. match_against crosses oid side price ts lv pl loc q trs =
      Some (lv', pl', erase_ids (take (length rs - length rs') rs) loc, q', trs @ fill_trades oid side ts fs) \<and>
    match_post before lv pl (length rs - length rs') rs' lv' pl'"
  using assms
proof (induction lv arbitrary: pl loc q trs rs fs)
  case Nil
  then show ?case by (simp add: match_against_done match_post_def fill_trades_def)
next
  case (Cons l lv)
  obtain px dq where l: "l = (px, dq)" by (cases l)
  from Cons.prems(4) obtain rs1 rs2 where rs: "rs = rs1 @ rs2"
    and h1: "holds (pool_deref pl) dq rs1" and h2: "holds (pool_deref pl) (lv_ptrs lv) rs2"
    by (auto simp: l elim: holds_split)
  have px: "\<forall>r \<in> set rs1. ord_price r = px"
    using Cons.prems(2) h1 unfolding l by (rule levels_ok_prices)
  have dist: "distinct dq" "distinct (lv_ptrs lv)" "set dq \<inter> set (lv_ptrs lv) = {}"
    using Cons.prems(3) by (auto simp: l)
  show ?case
  proof (cases "q = 0 \<or> \<not> crosses px price")
    case True
    have "rs1 \<noteq> []"
      using Cons.prems(2) h1 by (auto simp: l levels_ok_Cons)
    then have "fill_list (\<lambda>px. crosses px price) q rs = (rs, q, [])"
      using True px by (intro fill_list_stop) (auto simp: rs)
    moreover have "match_against crosses oid side price ts (l # lv) pl loc q trs = Some (l # lv, pl, loc, q, trs)"
      using True by (subst match_against.simps) (auto simp: l)
    ultimately show ?thesis
      using Cons.prems by (simp add: match_post_def fill_trades_def)
  next
    case False
    obtain rs1' q1 fs1 where f1: "fill_list (\<lambda>_. True) q rs1 = (rs1', q1, fs1)"
      by (metis prod_cases3)
    let ?n = "length rs1 - length rs1'"
    from match_level_spec [OF Cons.prems(1) h1 dist(1) px f1, of oid side ts loc trs] obtain pl1 where
      m1: "match_level oid side px ts dq pl loc q trs =
        Some (drop ?n dq, pl1, erase_ids (take ?n rs1) loc, q1, trs @ fill_trades oid side ts fs1)" "level_post pl dq ?n rs1' pl1"
      by blast
    have step: "match_against crosses oid side price ts (l # lv) pl loc q trs =
        match_against crosses oid side price ts (if drop ?n dq = [] then lv else (px, drop ?n dq) # lv) pl1
          (erase_ids (take ?n rs1) loc) q1 (trs @ fill_trades oid side ts fs1)"
      using False m1(1) by (subst match_against.simps) (simp add: l word_gt_0)
    have len: "length dq = length rs1" and dq': "drop ?n dq = [] \<longleftrightarrow> rs1' = []"
      using holds_length [OF h1] m1(2) by (auto simp: level_post_def)
    have cr: "\<forall>r \<in> set rs1. crosses (ord_price r) price"
      using px False by simp
    note app = fill_list_append [OF cr f1, of rs2]
    show ?thesis
    proof (cases "rs1' = []")
      case True
      then obtain fs2 where fs: "fs = fs1 @ fs2" and f2: "fill_list (\<lambda>px. crosses px price) q1 rs2 = (rs', q', fs2)"
        using app Cons.prems(5) by (auto simp: rs split: prod.splits)
      have frame: "pool_deref pl1 p = pool_deref pl p" if "p \<in> set (lv_ptrs lv)" for p
        using m1(2) dist(3) that by (auto simp: level_post_def)
      have "pool_inv pl1" "levels_ok before (pool_deref pl1) lv" "holds (pool_deref pl1) (lv_ptrs lv) rs2"
        using m1(2) levels_ok_cong [OF _ frame] holds_cong [OF h2 frame] Cons.prems(2) by (simp_all add: l levels_ok_Cons level_post_def)
      from Cons.IH [OF this(1,2) dist(2) this(3) f2, of "erase_ids rs1 loc" "trs @ fill_trades oid side ts fs1"] obtain lv' pl' where
        m2: "match_against crosses oid side price ts lv pl1 (erase_ids rs1 loc) q1 (trs @ fill_trades oid side ts fs1) =
          Some (lv', pl', erase_ids (take (length rs2 - length rs') rs2) (erase_ids rs1 loc), q',
            (trs @ fill_trades oid side ts fs1) @ fill_trades oid side ts fs2)"
          "match_post before lv pl1 (length rs2 - length rs') rs' lv' pl'"
        by blast
      have n: "length rs - length rs' = length rs1 + (length rs2 - length rs')"
        using fill_list_keys [OF f2] by (simp add: rs)
      then have taken: "take (length rs - length rs') rs = rs1 @ take (length rs2 - length rs') rs2"
        by (simp only: n) (simp add: rs)
      have "match_post before (l # lv) pl (length rs - length rs') rs' lv' pl'"
        using match_post_emptied [OF _ m2(2) dist(3)] m1(2) True len by (simp add: l n)
      with step m2(1) show ?thesis
        using True dq' len by (simp add: taken fs fill_trades_def)
    next
      case left: False
      then have res: "q1 = 0" "rs' = rs1' @ rs2" "q' = 0" "fs = fs1"
        using fill_list_True_left [OF f1] app Cons.prems(5) by (auto simp: rs)
      have n: "length rs - length rs' = ?n"
        using fill_list_keys [OF f1] by (simp add: rs res)
      have "\<forall>r \<in> set rs1'. ord_price r = px"
        using px fill_list_old [OF f1] by metis
      then have "match_post before (l # lv) pl ?n rs' ((px, drop ?n dq) # lv) pl1"
        using match_post_shortened [OF m1(2) Cons.prems(2) [unfolded l] h2 dist(3) _ left] len by (simp add: l res)
      with step left dq' show ?thesis
        by (simp add: n res rs match_against_done)
    qed
  qed
qed

section \<open>Resting an order\<close>

lemma prio_insert_Nil [simp]: "prio_insert before r [] = [r]"
  by (simp add: prio_insert_def)

lemma prio_insert_append:
  "\<forall>s \<in> set rs1. \<not> before (ord_price r) (ord_price s) \<Longrightarrow>
     prio_insert before r (rs1 @ rs2) = rs1 @ prio_insert before r rs2"
  by (simp add: prio_insert_def)

lemma prio_insert_front:
  "rs \<noteq> [] \<Longrightarrow> before (ord_price r) (ord_price (hd rs)) \<Longrightarrow> prio_insert before r rs = r # rs"
  by (cases rs) (simp_all add: prio_insert_def)

lemma set_level_push: "set (lv_ptrs (level_push before px p lv)) = insert p (set (lv_ptrs lv))"
  by (induction before px p lv rule: level_push.induct) auto

lemma distinct_level_push:
  "distinct (lv_ptrs (level_push before px p lv)) \<longleftrightarrow> p \<notin> set (lv_ptrs lv) \<and> distinct (lv_ptrs lv)"
  by (induction before px p lv rule: level_push.induct) (auto simp: set_level_push)

lemma fst_level_push: "fst ` set (level_push before px p lv) \<subseteq> insert px (fst ` set lv)"
  by (induction before px p lv rule: level_push.induct) auto

context price_order
begin

lemma level_push_ok:
  assumes "levels_ok before st lv" and "st p = Some r" and "ord_price r = px"
  shows "levels_ok before st (level_push before px p lv)"
  using assms(1)
proof (induction lv)
  case Nil
  then show ?case using assms(2,3) by (simp add: levels_ok_Cons)
next
  case (Cons l lv)
  obtain q dq where l: "l = (q, dq)" by (cases l)
  from Cons.prems have all: "\<And>q'. q' \<in> fst ` set lv \<Longrightarrow> before q q'"
    and rest: "levels_ok before st lv"
    by (auto simp: l levels_ok_Cons)
  consider "before px q" | "before q px" | "px = q"
    using total by blast
  then show ?case
  proof cases
    case 1
    then have "\<And>q'. q' \<in> fst ` set lv \<Longrightarrow> before px q'"
      using all trans by blast
    with 1 Cons.prems assms(2,3) show ?thesis
      by (force simp: l levels_ok_Cons)
  next
    case 2
    have "before q q'" if "q' \<in> fst ` set (level_push before px p lv)" for q'
      using fst_level_push [of before px p lv] that all 2 by blast
    with 2 asym [OF 2] Cons.IH [OF rest] Cons.prems show ?thesis
      by (force simp: l levels_ok_Cons)
  next
    case 3
    with irrefl [of q] Cons.prems assms(2,3) show ?thesis
      by (auto simp: l levels_ok_Cons)
  qed
qed

lemma level_push_holds:
  assumes "levels_ok before st lv" and "holds st (lv_ptrs lv) rs" and "st p = Some r" and "ord_price r = px"
  shows "holds st (lv_ptrs (level_push before px p lv)) (prio_insert before r rs)"
  using assms(1,2)
proof (induction lv arbitrary: rs)
  case Nil
  then show ?case using assms(3) by simp
next
  case (Cons l lv)
  obtain q dq where l: "l = (q, dq)" by (cases l)
  from Cons.prems(2) obtain rs1 rs2 where rs: "rs = rs1 @ rs2"
    and h1: "holds st dq rs1" and h2: "holds st (lv_ptrs lv) rs2"
    by (auto simp: l elim: holds_split)
  have q: "\<forall>s \<in> set rs1. ord_price s = q"
    using Cons.prems(1) h1 unfolding l by (rule levels_ok_prices)
  have ne: "rs1 \<noteq> []"
    using Cons.prems(1) h1 by (auto simp: l levels_ok_Cons)
  have rest: "levels_ok before st lv" and all: "\<And>q'. q' \<in> fst ` set lv \<Longrightarrow> before q q'"
    using Cons.prems(1) by (auto simp: l levels_ok_Cons)
  consider "before px q" | "before q px" | "px = q"
    using total by blast
  then show ?case
  proof cases
    case 1
    then have "prio_insert before r rs = r # rs"
      using ne q assms(4) by (intro prio_insert_front) (simp_all add: rs)
    with 1 Cons.prems(2) assms(3) show ?thesis by (simp add: l)
  next
    case 2
    then have "prio_insert before r rs = rs1 @ prio_insert before r rs2"
      unfolding rs using q assms(4) asym by (intro prio_insert_append) simp
    with 2 asym [OF 2] h1 Cons.IH [OF rest h2] holds_length [OF h1] show ?thesis
      by (simp add: l holds_append)
  next
    case 3
    have "prio_insert before r rs = rs1 @ prio_insert before r rs2"
      unfolding rs using q assms(4) 3 irrefl by (intro prio_insert_append) simp
    moreover have "prio_insert before r rs2 = r # rs2"
    proof (cases rs2)
      case Nil
      then show ?thesis by simp
    next
      case (Cons s rs2')
      then obtain q' dq' lv' where lv: "lv = (q', dq') # lv'"
        using h2 by (cases lv) auto
      have "dq' \<noteq> []"
        using rest by (simp add: lv levels_ok_Cons)
      then obtain p' where "p' \<in> set dq'" "st p' = Some s"
        using h2 Cons by (cases dq') (auto simp: lv)
      then have "ord_price s = q'"
        using rest by (force simp: lv levels_ok_Cons)
      moreover have "before q q'"
        using all by (simp add: lv)
      ultimately show ?thesis
        using Cons 3 assms(4) by (intro prio_insert_front) simp_all
    qed
    ultimately show ?thesis
      using 3 irrefl [of q] h1 h2 assms(3) holds_length [OF h1]
      by (simp add: l holds_append)
  qed
qed

end

section \<open>Both sides over one pool\<close>

definition index_ok :: "(OrderId, Side \<times> Price) umap \<Rightarrow> Order list \<Rightarrow> bool" where
  "index_ok loc rs \<longleftrightarrow> umap_ok loc \<and>
     (\<forall>k v. map_of loc k = Some v \<longleftrightarrow> (k, v) \<in> order_key ` set rs)"

text \<open>
  One side, \<open>lv1\<close> holding \<open>rs1\<close>, and the other, \<open>lv2\<close> holding \<open>rs2\<close>, share the pool: every
  live object is in exactly one deque, once.
\<close>

definition sides_ok ::
  "Order pool \<Rightarrow> (OrderId, Side \<times> Price) umap \<Rightarrow> (Price \<Rightarrow> Price \<Rightarrow> bool) \<Rightarrow> levels \<Rightarrow> Order list
     \<Rightarrow> (Price \<Rightarrow> Price \<Rightarrow> bool) \<Rightarrow> levels \<Rightarrow> Order list \<Rightarrow> bool" where
  "sides_ok pl loc bef1 lv1 rs1 bef2 lv2 rs2 \<longleftrightarrow>
     pool_inv pl \<and> levels_ok bef1 (pool_deref pl) lv1 \<and> levels_ok bef2 (pool_deref pl) lv2 \<and>
     holds (pool_deref pl) (lv_ptrs lv1) rs1 \<and> holds (pool_deref pl) (lv_ptrs lv2) rs2 \<and>
     distinct (lv_ptrs lv1) \<and> distinct (lv_ptrs lv2) \<and> set (lv_ptrs lv1) \<inter> set (lv_ptrs lv2) = {} \<and>
     dom (pool_deref pl) = set (lv_ptrs lv1) \<union> set (lv_ptrs lv2) \<and> index_ok loc (rs1 @ rs2)"

lemma sides_ok_swap:
  "sides_ok pl loc bef1 lv1 rs1 bef2 lv2 rs2 \<longleftrightarrow> sides_ok pl loc bef2 lv2 rs2 bef1 lv1 rs1"
  by (simp add: sides_ok_def index_ok_def Un_commute Int_commute image_Un) blast

lemma sides_ok_card:
  assumes "sides_ok pl loc bef1 lv1 rs1 bef2 lv2 rs2"
  shows "card (dom (pool_deref pl)) = length rs1 + length rs2"
  using assms by (auto simp: sides_ok_def card_Un_disjoint distinct_card dest!: holds_length)

lemma index_ok_erase:
  assumes "index_ok loc (rs @ os)" and "distinct (map ord_id (rs @ os))"
    and "order_key ` set rs' = order_key ` set (drop n rs)"
  shows "index_ok (erase_ids (take n rs) loc) (rs' @ os)"
proof -
  have rs: "rs = take n rs @ drop n rs"
    by simp
  have "distinct (map ord_id (take n rs @ drop n rs @ os))"
    using assms(2) by (metis append.assoc rs)
  then have disj: "ord_id ` set (take n rs) \<inter> ord_id ` set (drop n rs @ os) = {}"
    by (simp add: image_Un Int_Un_distrib)
  have keys: "order_key ` set (rs @ os) =
      order_key ` set (take n rs) \<union> order_key ` set (drop n rs @ os)"
    by (metis append.assoc image_Un rs set_append)
  have fst_key: "k \<in> ord_id ` set xs" if "(k, v) \<in> order_key ` set xs" for k v xs
    using that by (force simp: order_key_def)
  have key: "\<exists>v. (k, v) \<in> order_key ` set xs" if "k \<in> ord_id ` set xs" for k xs
    using that by (force simp: order_key_def)
  have "map_of (erase_ids (take n rs) loc) k = Some v \<longleftrightarrow> (k, v) \<in> order_key ` set (drop n rs @ os)" for k v
  proof (cases "k \<in> ord_id ` set (take n rs)")
    case True
    with disj fst_key [of k v "drop n rs @ os"] show ?thesis
      by (auto simp: map_of_erase_ids)
  next
    case False
    have "map_of loc k = Some v \<longleftrightarrow> (k, v) \<in> order_key ` set (rs @ os)"
      using assms(1) unfolding index_ok_def by blast
    with False fst_key [of k v "take n rs"] show ?thesis
      unfolding keys by (auto simp only: map_of_erase_ids if_False Un_iff)
  qed
  moreover have "order_key ` set (drop n rs @ os) = order_key ` set (rs' @ os)"
    by (simp add: image_Un assms(3))
  ultimately show ?thesis
    using assms(1) by (simp add: index_ok_def umap_ok_erase_ids)
qed

lemma index_ok_insert:
  assumes "index_ok loc rs" and "ord_id r \<notin> ord_id ` set rs" and "set rs' = insert r (set rs)"
  shows "index_ok (AList.update (ord_id r) (ord_side r, ord_price r) loc) rs'"
  using assms by (force simp: index_ok_def umap_simps order_key_def)

lemma index_ok_remove:
  assumes "index_ok loc rs"
  shows "index_ok (AList.delete oid loc) (filter (\<lambda>r. ord_id r \<noteq> oid) rs)"
  using assms by (auto simp: index_ok_def umap_simps order_key_def image_iff)

lemma sides_ok_match:
  assumes ok: "sides_ok pl loc bef1 lv1 rs1 bef2 lv2 rs2" and dist: "distinct (map ord_id (rs1 @ rs2))"
    and fl: "fill_list (\<lambda>px. crosses px price) q rs1 = (rs', q', fs)"
  shows "\<exists>lv' pl' loc'. match_against crosses oid side price ts lv1 pl loc q trs =
      Some (lv', pl', loc', q', trs @ fill_trades oid side ts fs) \<and>
    sides_ok pl' loc' bef1 lv' rs' bef2 lv2 rs2 \<and> pool_capacity pl' = pool_capacity pl"
proof -
  let ?n = "length rs1 - length rs'"
  let ?loc = "erase_ids (take ?n rs1) loc"
  have "pool_inv pl" "levels_ok bef1 (pool_deref pl) lv1" "distinct (lv_ptrs lv1)"
      "holds (pool_deref pl) (lv_ptrs lv1) rs1"
    using ok by (simp_all add: sides_ok_def)
  from match_against_spec [where crosses = crosses and price = price, OF this fl] obtain lv' pl' where
    m: "match_against crosses oid side price ts lv1 pl loc q trs =
      Some (lv', pl', ?loc, q', trs @ fill_trades oid side ts fs)"
    and post: "match_post bef1 lv1 pl ?n rs' lv' pl'"
    by blast
  have split: "set (lv_ptrs lv1) = set (take ?n (lv_ptrs lv1)) \<union> set (lv_ptrs lv')"
    using post unfolding match_post_def by (metis append_take_drop_id set_append)
  have live: "pool_deref pl' p \<noteq> None" if "p \<in> set (lv_ptrs lv')" for p
    using post holds_live that unfolding match_post_def by blast
  have dead: "p \<in> set (lv_ptrs lv')" if "p \<in> set (lv_ptrs lv1)" "pool_deref pl' p \<noteq> None" for p
  proof -
    have "\<forall>p \<in> set (take ?n (lv_ptrs lv1)). pool_deref pl' p = None"
      using post by (simp add: match_post_def)
    with that(2) have "p \<notin> set (take ?n (lv_ptrs lv1))"
      by metis
    then show ?thesis
      using that(1) split by (metis Un_iff)
  qed
  have dom: "dom (pool_deref pl') = set (lv_ptrs lv') \<union> set (lv_ptrs lv2)"
  proof (rule set_eqI)
    fix p
    show "p \<in> dom (pool_deref pl') \<longleftrightarrow> p \<in> set (lv_ptrs lv') \<union> set (lv_ptrs lv2)"
    proof (cases "p \<in> set (lv_ptrs lv1)")
      case True
      then have "p \<notin> set (lv_ptrs lv2)"
        using ok by (auto simp: sides_ok_def)
      with live [of p] dead [of p] True show ?thesis by blast
    next
      case False
      then have "pool_deref pl' p = pool_deref pl p" "p \<notin> set (lv_ptrs lv')"
        using post split by (auto simp: match_post_def)
      moreover have "p \<in> dom (pool_deref pl) \<longleftrightarrow> p \<in> set (lv_ptrs lv2)"
        using ok False by (simp add: sides_ok_def)
      ultimately show ?thesis by (simp add: domIff)
    qed
  qed
  have frame: "pool_deref pl' p = pool_deref pl p" if "p \<in> set (lv_ptrs lv2)" for p
    using ok post that unfolding match_post_def sides_ok_def by blast
  have "order_key ` set rs' = order_key ` set (drop ?n rs1)"
    using fill_list_keys [OF fl] by (metis drop_map set_map)
  then have idx: "index_ok ?loc (rs' @ rs2)"
    using ok dist by (intro index_ok_erase) (auto simp: sides_ok_def)
  have "levels_ok bef2 (pool_deref pl') lv2" "holds (pool_deref pl') (lv_ptrs lv2) rs2"
    using ok levels_ok_cong [OF _ frame] holds_cong [OF _ frame] by (simp_all add: sides_ok_def)
  moreover have "distinct (lv_ptrs lv')"
    using ok post by (simp add: sides_ok_def match_post_def)
  moreover have "set (lv_ptrs lv') \<inter> set (lv_ptrs lv2) = {}"
    using ok split by (auto simp: sides_ok_def)
  moreover have "pool_inv pl'" "levels_ok bef1 (pool_deref pl') lv'" "holds (pool_deref pl') (lv_ptrs lv') rs'"
    using post by (auto simp: match_post_def)
  moreover have "distinct (lv_ptrs lv2)"
    using ok by (simp add: sides_ok_def)
  ultimately have "sides_ok pl' ?loc bef1 lv' rs' bef2 lv2 rs2"
    using dom idx by (simp add: sides_ok_def)
  with m post show ?thesis by (auto simp: match_post_def)
qed

context price_order
begin

lemma sides_ok_rest:
  fixes side :: Side and price :: Price and q :: Qty and ts :: Nanos
  assumes ok: "sides_ok pl loc before lv rs bef2 lv2 rs2" and fresh: "oid \<notin> ord_id ` set (rs @ rs2)"
  defines "r \<equiv> \<lparr>ord_id = oid, ord_side = side, ord_price = price, ord_qty = q, ord_ts_ns = ts\<rparr>"
  defines "room \<equiv> length rs + length rs2 < pool_capacity pl"
  shows "\<exists>lv' pl' loc'. rest before lv pl loc oid side price q ts = (lv', pl', loc') \<and>
    sides_ok pl' loc' before lv' (if room then prio_insert before r rs else rs) bef2 lv2 rs2 \<and>
    pool_capacity pl' = pool_capacity pl"
proof (cases "pool_acquire pl r")
  case None
  have "\<not> room"
    using pl.acquire_succeeds_iff [of pl r] ok None
    by (simp add: sides_ok_card [OF ok] sides_ok_def room_def)
  with None ok show ?thesis by (simp add: rest_def r_def)
next
  case (Some pp)
  obtain p pl' where acq: "pool_acquire pl r = Some (p, pl')"
    using Some by (cases pp) auto
  have inv: "pool_inv pl"
    using ok by (simp add: sides_ok_def)
  have room: room
    using pl.acquire_succeeds_iff [OF inv, of r] acq by (simp add: sides_ok_card [OF ok] room_def)
  have new: "pool_inv pl'" "pool_capacity pl' = pool_capacity pl" "pool_deref pl p = None"
      "pool_deref pl' = (pool_deref pl)(p \<mapsto> r)"
    using pool_acquire_spec [OF inv, of r] acq by auto
  have notin: "p \<notin> set (lv_ptrs lv)" "p \<notin> set (lv_ptrs lv2)"
    using ok new(3) by (auto simp: sides_ok_def)
  have same: "pool_deref pl' k = pool_deref pl k" if "k \<in> set (lv_ptrs lv) \<or> k \<in> set (lv_ptrs lv2)" for k
    using notin that by (auto simp: new(4))
  have lv: "levels_ok before (pool_deref pl') lv" "holds (pool_deref pl') (lv_ptrs lv) rs"
      "levels_ok bef2 (pool_deref pl') lv2" "holds (pool_deref pl') (lv_ptrs lv2) rs2"
    using ok same levels_ok_cong [where st' = "pool_deref pl'"] holds_cong [where st' = "pool_deref pl'"]
    by (auto simp: sides_ok_def)
  have dom: "dom (pool_deref pl') = insert p (dom (pool_deref pl))"
    by (simp add: new(4))
  have p: "pool_deref pl' p = Some r" "ord_price r = price" and r: "ord_id r = oid" "ord_side r = side"
    by (simp_all add: new r_def)
  have "rest before lv pl loc oid side price q ts =
      (level_push before price p lv, pl', AList.update oid (side, price) loc)"
    using acq by (simp add: rest_def r_def)
  moreover have "sides_ok pl' (AList.update oid (side, price) loc) before (level_push before price p lv)
      (prio_insert before r rs) bef2 lv2 rs2"
    using ok lv(3,4) new(1) notin level_push_ok [OF lv(1) p] level_push_holds [OF lv(1,2) p]
      index_ok_insert [of loc "rs @ rs2" r "prio_insert before r rs @ rs2"] fresh dom
    by (simp add: sides_ok_def set_level_push distinct_level_push r p(2))
  ultimately show ?thesis using room new(2) by auto
qed

end

end
