(* ===== verification/Book_Correct.thy ===== *)
theory Book_Correct
  imports Book_Refinement
begin

text \<open>
  The operations of \<^verbatim>\<open>OrderBook\<close> against the abstract book: \<^const>\<open>add_limit_order\<close> refines
  \<^const>\<open>spec_add\<close>, \<^const>\<open>cancel\<close> refines \<^const>\<open>spec_cancel\<close>, the queries report what the
  abstract book holds, and the interface \<open>limit_book\<close> states what a client of the book
  (the matching engine, the market maker) may rely on.
\<close>

section \<open>Removing an order\<close>

lemma holds_appendI: "holds st ps rs \<Longrightarrow> holds st ps' rs' \<Longrightarrow> holds st (ps @ ps') (rs @ rs')"
  by (simp add: holds_def)

lemma dq_remove_spec:
  assumes "holds (pool_deref pl) dq rs" and "r \<in> set rs" and "ord_id r = oid" and "distinct (map ord_id rs)"
  shows "\<exists>p ps qs. dq = ps @ p # qs \<and> pool_deref pl p = Some r \<and>
    dq_remove pl oid dq = Some (Some (p, ps @ qs)) \<and>
    holds (pool_deref pl) (ps @ qs) (filter (\<lambda>r. ord_id r \<noteq> oid) rs)"
  using assms
proof (induction dq arbitrary: rs)
  case Nil
  then show ?case by simp
next
  case (Cons k dq)
  from Cons.prems(1) obtain s rs' where rs: "rs = s # rs'" and s: "pool_deref pl k = Some s"
    and h: "holds (pool_deref pl) dq rs'"
    by (auto simp: holds_Cons)
  show ?case
  proof (cases "ord_id s = oid")
    case True
    then have "filter (\<lambda>r. ord_id r \<noteq> oid) rs' = rs'"
      using Cons.prems(4) by (intro filter_True) (auto simp: rs image_iff)
    moreover have "r = s"
      using True Cons.prems(2-4) by (auto simp: rs image_iff)
    ultimately show ?thesis
      using True s h by (intro exI [of _ k] exI [of _ "[]"] exI [of _ dq]) (simp add: rs)
  next
    case False
    with Cons.prems obtain p ps qs where "dq = ps @ p # qs" "pool_deref pl p = Some r"
      "dq_remove pl oid dq = Some (Some (p, ps @ qs))"
      "holds (pool_deref pl) (ps @ qs) (filter (\<lambda>r. ord_id r \<noteq> oid) rs')"
      using Cons.IH [OF h] by (force simp: rs)
    with False s show ?thesis
      by (intro exI [of _ p] exI [of _ "k # ps"] exI [of _ qs]) (simp add: rs)
  qed
qed

lemma alist_at:
  assumes "k \<notin> fst ` set l1" and "k \<notin> fst ` set l2"
  shows "map_of (l1 @ (k, v) # l2) k = Some v"
    and "AList.update k v' (l1 @ (k, v) # l2) = l1 @ (k, v') # l2"
    and "AList.delete k (l1 @ (k, v) # l2) = l1 @ l2"
proof -
  show "map_of (l1 @ (k, v) # l2) k = Some v"
    using assms(1) by (simp add: map_of_eq_None_iff map_add_Some_iff)
  show "AList.update k v' (l1 @ (k, v) # l2) = l1 @ (k, v') # l2"
    using assms(1) by (induction l1) auto
  have "AList.delete k l1 = l1" "AList.delete k l2 = l2"
    using assms by (force simp: AList.delete_eq filter_id_conv)+
  then show "AList.delete k (l1 @ (k, v) # l2) = l1 @ l2"
    by (simp add: AList.delete_eq)
qed

context price_order
begin

lemma levels_ok_at:
  assumes "levels_ok before st (l1 @ (px, dq) # l2)"
  shows "px \<notin> fst ` set l1" and "px \<notin> fst ` set l2"
  using assms irrefl by (force simp: levels_ok_def sorted_wrt_append)+

lemma level_of_order:
  assumes "levels_ok before st lv" and "holds st (lv_ptrs lv) rs" and "r \<in> set rs"
  obtains l1 dq l2 rs1 rs2 rs3 where "lv = l1 @ (ord_price r, dq) # l2" and "rs = rs1 @ rs2 @ rs3"
    and "holds st (lv_ptrs l1) rs1" and "holds st dq rs2" and "holds st (lv_ptrs l2) rs3" and "r \<in> set rs2"
proof -
  obtain p where p: "p \<in> set (lv_ptrs lv)" "st p = Some r"
    using assms(2,3) unfolding holds_def by (metis imageE image_eqI list.set_map)
  then obtain px dq where l: "(px, dq) \<in> set lv" "p \<in> set dq"
    by (auto simp: lv_ptrs_def)
  then have px: "px = ord_price r"
    using assms(1) p(2) by (force simp: levels_ok_def)
  from l(1) obtain l1 l2 where lv: "lv = l1 @ (px, dq) # l2"
    by (auto dest: split_list)
  from assms(2) obtain rs1 rs' where 1: "rs = rs1 @ rs'" "holds st (lv_ptrs l1) rs1"
      and h: "holds st (dq @ lv_ptrs l2) rs'"
    by (auto simp: lv elim: holds_split)
  from h obtain rs2 rs3 where 2: "rs' = rs2 @ rs3" "holds st dq rs2" "holds st (lv_ptrs l2) rs3"
    by (rule holds_split)
  moreover have "r \<in> set rs2"
    using holds_live [OF 2(2) l(2)] p(2) by auto
  ultimately show thesis
    using that 1 lv px by blast
qed

lemma levels_ok_shrink:
  assumes "levels_ok before st (l1 @ (px, dq) # l2)" and "set dq' \<subseteq> set dq"
  shows "levels_ok before st (if dq' = [] then l1 @ l2 else l1 @ (px, dq') # l2)"
  using assms by (auto simp: levels_ok_def sorted_wrt_append)

lemma filter_other_ids:
  assumes "distinct (map ord_id (rs1 @ rs2 @ rs3))" and "r \<in> set rs2" and "ord_id r = oid"
  shows "filter (\<lambda>r. ord_id r \<noteq> oid) rs1 = rs1" and "filter (\<lambda>r. ord_id r \<noteq> oid) rs3 = rs3"
  using assms by (auto simp: filter_id_conv)

lemma remove_from_spec:
  assumes ok: "levels_ok before (pool_deref pl) lv" and h: "holds (pool_deref pl) (lv_ptrs lv) rs"
    and r: "r \<in> set rs" "ord_id r = oid" and dist: "distinct (map ord_id rs)"
  shows "\<exists>lv' p ps qs. remove_from lv pl (ord_price r) oid = Some (True, lv', pool_release pl p) \<and>
    pool_deref pl p = Some r \<and> levels_ok before (pool_deref pl) lv' \<and>
    lv_ptrs lv = ps @ p # qs \<and> lv_ptrs lv' = ps @ qs \<and>
    holds (pool_deref pl) (lv_ptrs lv') (filter (\<lambda>r. ord_id r \<noteq> oid) rs)"
proof -
  obtain l1 dq l2 rs1 rs2 rs3 where lv: "lv = l1 @ (ord_price r, dq) # l2" and rs: "rs = rs1 @ rs2 @ rs3"
    and h123: "holds (pool_deref pl) (lv_ptrs l1) rs1" "holds (pool_deref pl) dq rs2"
      "holds (pool_deref pl) (lv_ptrs l2) rs3" and r2: "r \<in> set rs2"
    using level_of_order [OF ok h r(1)] .
  have "distinct (map ord_id rs2)"
    using dist by (simp add: rs)
  from dq_remove_spec [OF h123(2) r2 r(2) this] obtain p ps qs where
    dq: "dq = ps @ p # qs" and p: "pool_deref pl p = Some r"
    and rm: "dq_remove pl oid dq = Some (Some (p, ps @ qs))"
    and h2: "holds (pool_deref pl) (ps @ qs) (filter (\<lambda>r. ord_id r \<noteq> oid) rs2)"
    by blast
  let ?lv = "if ps @ qs = [] then l1 @ l2 else l1 @ (ord_price r, ps @ qs) # l2"
  have ptrs: "lv_ptrs ?lv = lv_ptrs l1 @ (ps @ qs) @ lv_ptrs l2"
    by simp
  have "remove_from lv pl (ord_price r) oid = Some (True, ?lv, pool_release pl p)"
    using alist_at [OF levels_ok_at [OF ok [unfolded lv]]] rm by (simp add: remove_from_def lv)
  moreover have "levels_ok before (pool_deref pl) ?lv"
    using ok unfolding lv by (rule levels_ok_shrink) (auto simp: dq)
  moreover have "holds (pool_deref pl) (lv_ptrs ?lv) (filter (\<lambda>r. ord_id r \<noteq> oid) rs)"
    unfolding ptrs using h123 h2 filter_other_ids [OF dist [unfolded rs] r2 r(2)]
    by (simp only: rs filter_append) (intro holds_appendI)
  moreover have "lv_ptrs lv = (lv_ptrs l1 @ ps) @ p # (qs @ lv_ptrs l2)" "lv_ptrs ?lv = (lv_ptrs l1 @ ps) @ (qs @ lv_ptrs l2)"
    by (simp_all add: lv dq)
  ultimately show ?thesis
    using p by blast
qed

lemma sides_ok_remove:
  assumes ok: "sides_ok pl loc before lv rs bef2 lv2 rs2" and r: "r \<in> set rs" "ord_id r = oid"
    and dist: "distinct (map ord_id (rs @ rs2))"
  shows "\<exists>lv' pl'. remove_from lv pl (ord_price r) oid = Some (True, lv', pl') \<and>
    sides_ok pl' (AList.delete oid loc) before lv' (filter (\<lambda>r. ord_id r \<noteq> oid) rs)
      bef2 lv2 (filter (\<lambda>r. ord_id r \<noteq> oid) rs2) \<and> pool_capacity pl' = pool_capacity pl"
proof -
  have inv: "pool_inv pl" and lv: "levels_ok before (pool_deref pl) lv" "holds (pool_deref pl) (lv_ptrs lv) rs"
    using ok by (simp_all add: sides_ok_def)
  have "distinct (map ord_id rs)"
    using dist by simp
  from remove_from_spec [OF lv r this] obtain lv' p ps qs where
    rm: "remove_from lv pl (ord_price r) oid = Some (True, lv', pool_release pl p)"
    and p: "pool_deref pl p = Some r" and lv': "levels_ok before (pool_deref pl) lv'"
      "holds (pool_deref pl) (lv_ptrs lv') (filter (\<lambda>r. ord_id r \<noteq> oid) rs)"
    and ptrs: "lv_ptrs lv = ps @ p # qs" "lv_ptrs lv' = ps @ qs"
    by blast
  have rs2: "filter (\<lambda>r. ord_id r \<noteq> oid) rs2 = rs2"
    using filter_other_ids(2) [of "[]" rs rs2 r oid] dist r by simp
  let ?pl = "pool_release pl p"
  have rel: "pool_inv ?pl" "pool_capacity ?pl = pool_capacity pl" "pool_deref ?pl = (pool_deref pl)(p := None)"
    using pool_release_spec [OF inv p] by simp_all
  have sep: "distinct (ps @ p # qs)" "(set (ps @ p # qs)) \<inter> set (lv_ptrs lv2) = {}"
      "distinct (lv_ptrs lv2)" "dom (pool_deref pl) = set (ps @ p # qs) \<union> set (lv_ptrs lv2)"
    using ok by (simp_all add: sides_ok_def ptrs)
  then have notin: "p \<notin> set (lv_ptrs lv')" "p \<notin> set (lv_ptrs lv2)"
    by (simp_all add: ptrs)
  have same: "pool_deref ?pl k = pool_deref pl k" if "k \<in> set (lv_ptrs lv') \<or> k \<in> set (lv_ptrs lv2)" for k
    using notin that by (auto simp: rel(3))
  have lvs: "levels_ok before (pool_deref ?pl) lv'" "levels_ok bef2 (pool_deref ?pl) lv2"
      "holds (pool_deref ?pl) (lv_ptrs lv') (filter (\<lambda>r. ord_id r \<noteq> oid) rs)"
      "holds (pool_deref ?pl) (lv_ptrs lv2) rs2"
    using ok lv' same levels_ok_cong [where st' = "pool_deref ?pl"] holds_cong [where st' = "pool_deref ?pl"]
    by (auto simp: sides_ok_def)
  have "dom (pool_deref ?pl) = set (lv_ptrs lv') \<union> set (lv_ptrs lv2)"
    using sep notin by (auto simp: rel(3) ptrs)
  moreover have "index_ok (AList.delete oid loc) (filter (\<lambda>r. ord_id r \<noteq> oid) rs @ rs2)"
    using index_ok_remove [of loc "rs @ rs2" oid] ok rs2 by (simp add: sides_ok_def)
  ultimately have "sides_ok ?pl (AList.delete oid loc) before lv' (filter (\<lambda>r. ord_id r \<noteq> oid) rs) bef2 lv2 rs2"
    using lvs rel(1) sep by (auto simp: sides_ok_def ptrs)
  with rm rel(2) rs2 show ?thesis by auto
qed

end

section \<open>The book refines its specification\<close>

definition book_rel :: "book \<Rightarrow> abook \<Rightarrow> bool" where
  "book_rel b a \<longleftrightarrow>
     sides_ok (book_pool b) (locate b) bid_before (bids b) (a_bids a) ask_before (asks b) (a_asks a) \<and>
     pool_capacity (book_pool b) = a_cap a \<and> abook_inv a"

definition side_orders :: "Order pool \<Rightarrow> levels \<Rightarrow> Order list" where
  "side_orders pl lv = map (\<lambda>p. the (pool_deref pl p)) (lv_ptrs lv)"

definition abs_book :: "book \<Rightarrow> abook" where
  "abs_book b = \<lparr>a_bids = side_orders (book_pool b) (bids b), a_asks = side_orders (book_pool b) (asks b),
     a_cap = pool_capacity (book_pool b)\<rparr>"

definition book_inv :: "book \<Rightarrow> bool" where
  "book_inv b \<longleftrightarrow> book_rel b (abs_book b)"

lemma holds_side_orders: "holds (pool_deref pl) (lv_ptrs lv) rs \<Longrightarrow> side_orders pl lv = rs"
  unfolding holds_def side_orders_def
  by (metis (no_types, lifting) comp_apply list.map_comp map_idI map_map option.sel map_eq_conv)

lemma book_rel_abs: "book_rel b a \<Longrightarrow> abs_book b = a"
  by (simp add: book_rel_def sides_ok_def abs_book_def holds_side_orders)

lemma book_inv_iff: "book_inv b \<longleftrightarrow> (\<exists>a. book_rel b a)"
  using book_rel_abs by (auto simp: book_inv_def)

lemma book_rel_init:
  assumes "cap \<le> 2 ^ 31"
  shows "book_rel (book_init cap) \<lparr>a_bids = [], a_asks = [], a_cap = cap\<rparr>"
proof -
  have "pool_deref (pool_init cap :: Order pool) = (\<lambda>_. None)"
    by (auto simp: pool_deref_def pool_init_def fun_eq_iff)
  moreover have "pool_capacity (pool_init cap :: Order pool) = cap"
    by (simp add: pool_capacity_def pool_init_def)
  ultimately show ?thesis
    using pool_inv_init [OF assms]
    by (simp add: book_rel_def book_init_def sides_ok_def abook_inv_def prio_sorted_def a_orders_def
        index_ok_def)
qed

lemma book_rel_add:
  assumes rel: "book_rel b a" and fresh: "oid \<notin> ord_id ` set (a_orders a)"
  shows "\<exists>b'. add_limit_order b oid side price qty ts trs =
      Some (b', trs @ snd (spec_add a oid side price qty ts)) \<and>
    book_rel b' (fst (spec_add a oid side price qty ts))"
proof -
  let ?r = "\<lambda>q. \<lparr>ord_id = oid, ord_side = side, ord_price = price, ord_qty = q, ord_ts_ns = ts\<rparr>"
  have inv: "abook_inv (fst (spec_add a oid side price qty ts))"
    using rel fresh by (intro spec_add_inv) (simp_all add: book_rel_def)
  have sides: "sides_ok (book_pool b) (locate b) bid_before (bids b) (a_bids a) ask_before (asks b) (a_asks a)"
    and cap: "pool_capacity (book_pool b) = a_cap a"
    and dist: "distinct (map ord_id (a_bids a @ a_asks a))" "distinct (map ord_id (a_asks a @ a_bids a))"
    using rel by (auto simp: book_rel_def abook_inv_def a_orders_def Int_commute)
  show ?thesis
  proof (cases "side = Buy")
    case True
    obtain asks' q' fs where fl: "fill_list (\<lambda>px. px \<le> price) qty (a_asks a) = (asks', q', fs)"
      by (metis prod_cases3)
    from sides_ok_match [where crosses = "(\<le>)", OF sides [THEN sides_ok_swap [THEN iffD1]] dist(2) fl,
        of oid side ts trs]
    obtain lv pl loc where m: "match_against (\<le>) oid side price ts (asks b) (book_pool b) (locate b) qty trs =
        Some (lv, pl, loc, q', trs @ fill_trades oid side ts fs)"
      and ok: "sides_ok pl loc bid_before (bids b) (a_bids a) ask_before lv asks'"
      and cap': "pool_capacity pl = a_cap a"
      using cap by (auto simp: sides_ok_swap [of _ _ ask_before])
    have "oid \<notin> ord_id ` set (a_bids a @ asks')"
      using fresh fill_list_ids [OF fl] by (auto simp: a_orders_def)
    from bid.sides_ok_rest [OF ok this, of side price q' ts] obtain lv' pl' loc' where
      r: "rest bid_before (bids b) pl loc oid side price q' ts = (lv', pl', loc')"
      and ok': "sides_ok pl' loc' bid_before lv'
        (if length (a_bids a) + length asks' < a_cap a then prio_insert bid_before (?r q') (a_bids a) else a_bids a)
        ask_before lv asks'"
      and cap'': "pool_capacity pl' = a_cap a"
      using cap' by auto
    show ?thesis
      using m ok cap' r ok' cap'' fl inv True
      by (cases "q' = 0") (auto simp: add_limit_order_def spec_add_def book_rel_def word_gt_0)
  next
    case False
    obtain bids' q' fs where fl: "fill_list (\<lambda>px. price \<le> px) qty (a_bids a) = (bids', q', fs)"
      by (metis prod_cases3)
    from sides_ok_match [where crosses = "\<lambda>x y. y \<le> x", OF sides dist(1) fl, of oid side ts trs]
    obtain lv pl loc where m: "match_against (\<lambda>x y. y \<le> x) oid side price ts (bids b) (book_pool b) (locate b) qty trs =
        Some (lv, pl, loc, q', trs @ fill_trades oid side ts fs)"
      and ok: "sides_ok pl loc ask_before (asks b) (a_asks a) bid_before lv bids'"
      and cap': "pool_capacity pl = a_cap a"
      using cap by (auto simp: sides_ok_swap [of _ _ bid_before])
    have "oid \<notin> ord_id ` set (a_asks a @ bids')"
      using fresh fill_list_ids [OF fl] by (auto simp: a_orders_def)
    from ask.sides_ok_rest [OF ok this, of side price q' ts] obtain lv' pl' loc' where
      r: "rest ask_before (asks b) pl loc oid side price q' ts = (lv', pl', loc')"
      and ok': "sides_ok pl' loc' ask_before lv'
        (if length (a_asks a) + length bids' < a_cap a then prio_insert ask_before (?r q') (a_asks a) else a_asks a)
        bid_before lv bids'"
      and cap'': "pool_capacity pl' = a_cap a"
      using cap' by auto
    show ?thesis
      using m ok cap' r ok' cap'' fl inv False
      by (cases "q' = 0")
        (auto simp: add_limit_order_def spec_add_def book_rel_def word_gt_0 add.commute
          sides_ok_swap [of _ _ ask_before])
  qed
qed

lemma book_rel_locate:
  assumes "book_rel b a" and "r \<in> set (a_orders a)"
  shows "map_of (locate b) (ord_id r) = Some (ord_side r, ord_price r)"
  using assms by (auto simp: book_rel_def sides_ok_def index_ok_def a_orders_def order_key_def image_iff)

lemma book_rel_locate_None:
  assumes "book_rel b a"
  shows "map_of (locate b) oid = None \<longleftrightarrow> oid \<notin> ord_id ` set (a_orders a)"
proof -
  have "map_of (locate b) oid \<noteq> None \<longleftrightarrow> (\<exists>v. (oid, v) \<in> order_key ` set (a_orders a))"
    using assms unfolding book_rel_def sides_ok_def index_ok_def a_orders_def by blast
  also have "\<dots> \<longleftrightarrow> oid \<in> ord_id ` set (a_orders a)"
    by (force simp: order_key_def)
  finally show ?thesis by blast
qed

lemma book_rel_cancel:
  assumes rel: "book_rel b a"
  shows "\<exists>b'. cancel b oid = Some (fst (spec_cancel a oid), b') \<and> book_rel b' (snd (spec_cancel a oid))"
proof (cases "oid \<in> ord_id ` set (a_orders a)")
  case False
  then have "filter (\<lambda>r. ord_id r \<noteq> oid) (a_bids a) = a_bids a" "filter (\<lambda>r. ord_id r \<noteq> oid) (a_asks a) = a_asks a"
    by (auto simp: a_orders_def filter_id_conv)
  then have "snd (spec_cancel a oid) = a"
    by (simp add: spec_cancel_def)
  with False rel show ?thesis
    using book_rel_locate_None [OF rel, of oid] by (simp add: cancel_def spec_cancel_def)
next
  case True
  then obtain r where r: "r \<in> set (a_orders a)" "ord_id r = oid"
    by auto
  have loc: "map_of (locate b) oid = Some (ord_side r, ord_price r)"
    using book_rel_locate [OF rel r(1)] r(2) by simp
  have inv: "abook_inv (snd (spec_cancel a oid))"
    using rel by (intro spec_cancel_inv) (simp add: book_rel_def)
  have sides: "sides_ok (book_pool b) (locate b) bid_before (bids b) (a_bids a) ask_before (asks b) (a_asks a)"
    and dist: "distinct (map ord_id (a_bids a @ a_asks a))" "distinct (map ord_id (a_asks a @ a_bids a))"
    and cap: "pool_capacity (book_pool b) = a_cap a"
    using rel by (auto simp: book_rel_def abook_inv_def a_orders_def Int_commute)
  show ?thesis
  proof (cases "ord_side r = Buy")
    case buy: True
    then have "r \<in> set (a_bids a)"
      using rel r by (auto simp: book_rel_def abook_inv_def a_orders_def)
    from bid.sides_ok_remove [OF sides this r(2) dist(1)] loc buy cap inv show ?thesis
      by (auto simp: cancel_def spec_cancel_def book_rel_def True)
  next
    case sell: False
    then have "r \<in> set (a_asks a)"
      using rel r by (auto simp: book_rel_def abook_inv_def a_orders_def)
    from ask.sides_ok_remove [OF sides [THEN sides_ok_swap [THEN iffD1]] this r(2) dist(2)] loc sell cap inv
    show ?thesis
      by (auto simp: cancel_def spec_cancel_def book_rel_def True sides_ok_swap [of _ _ ask_before])
  qed
qed

section \<open>Queries\<close>

text \<open>
  The rows a reader of one side expects: each price once, in priority order, with the
  quantity that rests there (added up in the 32 bits of \<^verbatim>\<open>Qty\<close>).
\<close>

definition qty_at :: "Order list \<Rightarrow> Price \<Rightarrow> Qty" where
  "qty_at rs px = sum_list (map ord_qty (filter (\<lambda>r. ord_price r = px) rs))"

definition level_rows :: "Order list \<Rightarrow> (Price \<times> Qty) list" where
  "level_rows rs = map (\<lambda>px. (px, qty_at rs px)) (remdups (map ord_price rs))"

lemma sum_qty_spec:
  "holds (pool_deref pl) dq rs \<Longrightarrow> sum_qty pl dq q = Some (q + sum_list (map ord_qty rs))"
  by (induction dq arbitrary: q rs) (auto simp: holds_Cons ac_simps)

lemma remdups_block:
  assumes "\<forall>x \<in> set xs. x = a" and "xs \<noteq> []" and "a \<notin> set ys"
  shows "remdups (xs @ ys) = a # remdups ys"
  using assms
proof (induction xs)
  case Nil
  then show ?case by simp
next
  case (Cons x xs)
  then show ?case by (cases xs) auto
qed

lemma level_rows_block:
  assumes "\<forall>r \<in> set rs1. ord_price r = px" and "rs1 \<noteq> []" and "px \<notin> ord_price ` set rs2"
  shows "level_rows (rs1 @ rs2) = (px, sum_list (map ord_qty rs1)) # level_rows rs2"
proof -
  have "remdups (map ord_price (rs1 @ rs2)) = px # remdups (map ord_price rs2)"
    using assms remdups_block [of "map ord_price rs1" px "map ord_price rs2"] by simp
  moreover have "filter (\<lambda>r. ord_price r = px) rs2 = []"
    using assms(3) by (auto simp: filter_empty_conv)
  then have "qty_at (rs1 @ rs2) px = sum_list (map ord_qty rs1)"
    using assms(1) by (simp add: qty_at_def)
  moreover have "qty_at (rs1 @ rs2) q = qty_at rs2 q" if "q \<in> ord_price ` set rs2" for q
  proof -
    have "filter (\<lambda>r. ord_price r = q) rs1 = []"
      using assms(1,3) that by (auto simp: filter_empty_conv)
    then show ?thesis by (simp add: qty_at_def)
  qed
  ultimately show ?thesis
    by (simp add: level_rows_def)
qed

lemma level_rows_simps [simp]: "level_rows [] = []" "level_rows rs = [] \<longleftrightarrow> rs = []"
  by (simp_all add: level_rows_def)

lemma ord_price_holds:
  assumes "levels_ok before st lv" and "holds st (lv_ptrs lv) rs"
  shows "ord_price ` set rs \<subseteq> fst ` set lv"
proof
  fix px
  assume "px \<in> ord_price ` set rs"
  then obtain p r where "p \<in> set (lv_ptrs lv)" "st p = Some r" "ord_price r = px"
    using assms(2) unfolding holds_def by (metis imageE image_eqI list.set_map)
  with assms(1) show "px \<in> fst ` set lv"
    by (force simp: levels_ok_def lv_ptrs_def)
qed

context price_order
begin

lemma level_view:
  assumes "levels_ok before (pool_deref pl) ((px, dq) # lv)" and "holds (pool_deref pl) (dq @ lv_ptrs lv) rs"
  obtains rs2 where "holds (pool_deref pl) (lv_ptrs lv) rs2"
    and "level_rows rs = (px, the (sum_qty pl dq 0)) # level_rows rs2" and "sum_qty pl dq 0 \<noteq> None"
proof -
  obtain rs1 rs2 where rs: "rs = rs1 @ rs2" "holds (pool_deref pl) dq rs1" "holds (pool_deref pl) (lv_ptrs lv) rs2"
    using assms(2) by (rule holds_split)
  have "rs1 \<noteq> []"
    using assms(1) rs(2) by (auto simp: levels_ok_Cons)
  moreover have "px \<notin> fst ` set lv"
    using assms(1) irrefl by (force simp: levels_ok_Cons)
  then have "px \<notin> ord_price ` set rs2"
    using ord_price_holds [of before "pool_deref pl" lv rs2] assms(1) rs(3) by (auto simp: levels_ok_Cons)
  ultimately show thesis
    using that [of rs2] rs sum_qty_spec [OF rs(2), of 0] level_rows_block [OF levels_ok_prices [OF assms(1) rs(2)]]
    by simp
qed

lemma print_side_spec:
  assumes "levels_ok before (pool_deref pl) lv" and "holds (pool_deref pl) (lv_ptrs lv) rs"
  shows "print_side pl depth lv = Some (take depth (level_rows rs)) \<and> length lv = length (level_rows rs)"
  using assms
proof (induction lv arbitrary: depth rs)
  case Nil
  then show ?case by (cases depth) simp_all
next
  case (Cons l lv)
  obtain px dq where l: "l = (px, dq)" by (cases l)
  from Cons.prems obtain rs2 where rs2: "holds (pool_deref pl) (lv_ptrs lv) rs2"
      "level_rows rs = (px, the (sum_qty pl dq 0)) # level_rows rs2" "sum_qty pl dq 0 \<noteq> None"
    unfolding l by (auto elim: level_view)
  have "levels_ok before (pool_deref pl) lv"
    using Cons.prems(1) by (simp add: l levels_ok_Cons)
  with Cons.IH [OF _ rs2(1)] rs2(2,3) show ?case
    by (cases depth) (auto simp: l split: option.splits)
qed

lemma best_of_spec:
  assumes "levels_ok before (pool_deref pl) lv" and "holds (pool_deref pl) (lv_ptrs lv) rs"
  shows "best_of lv pl = Some (case level_rows rs of [] \<Rightarrow> None | row # _ \<Rightarrow> Some row)"
proof (cases lv)
  case Nil
  with assms(2) show ?thesis by (simp add: best_of_def)
next
  case (Cons l lv')
  obtain px dq where l: "l = (px, dq)" by (cases l)
  with assms Cons show ?thesis
    by (auto simp: best_of_def elim!: level_view)
qed

end

lemma book_rel_queries:
  assumes "book_rel b a"
  shows "best_bid b = Some (case level_rows (a_bids a) of [] \<Rightarrow> None | row # _ \<Rightarrow> Some row)"
    and "best_ask b = Some (case level_rows (a_asks a) of [] \<Rightarrow> None | row # _ \<Rightarrow> Some row)"
    and "print_top b depth = Some (take depth (level_rows (a_asks a)), take depth (level_rows (a_bids a)))"
    and "bid_levels b = length (level_rows (a_bids a))" and "ask_levels b = length (level_rows (a_asks a))"
    and "resting_orders b = length (a_orders a)"
proof -
  have bid: "levels_ok bid_before (pool_deref (book_pool b)) (bids b)"
      "holds (pool_deref (book_pool b)) (lv_ptrs (bids b)) (a_bids a)"
    and ask: "levels_ok ask_before (pool_deref (book_pool b)) (asks b)"
      "holds (pool_deref (book_pool b)) (lv_ptrs (asks b)) (a_asks a)"
    using assms by (simp_all add: book_rel_def sides_ok_def)
  show "best_bid b = Some (case level_rows (a_bids a) of [] \<Rightarrow> None | row # _ \<Rightarrow> Some row)"
    using bid.best_of_spec [OF bid] by (simp add: best_bid_def)
  show "best_ask b = Some (case level_rows (a_asks a) of [] \<Rightarrow> None | row # _ \<Rightarrow> Some row)"
    using ask.best_of_spec [OF ask] by (simp add: best_ask_def)
  show "print_top b depth = Some (take depth (level_rows (a_asks a)), take depth (level_rows (a_bids a)))"
    using ask.print_side_spec [OF ask] bid.print_side_spec [OF bid] by (simp add: print_top_def)
  show "bid_levels b = length (level_rows (a_bids a))" "ask_levels b = length (level_rows (a_asks a))"
    using ask.print_side_spec [OF ask] bid.print_side_spec [OF bid] by (simp_all add: bid_levels_def ask_levels_def)
  have "dom (map_of (locate b)) = ord_id ` set (a_orders a)"
    using book_rel_locate_None [OF assms] by (simp add: set_eq_iff domIff del: not_None_eq)
  moreover have "card (ord_id ` set (a_orders a)) = length (a_orders a)"
    using assms unfolding book_rel_def abook_inv_def by (metis distinct_card length_map set_map)
  ultimately show "resting_orders b = length (a_orders a)"
    using assms umap_size [of "locate b"] by (simp add: resting_orders_def book_rel_def sides_ok_def index_ok_def)
qed

end
