(* ===== verification/Book_Interface.thy ===== *)
theory Book_Interface
  imports Book_Correct
begin

text \<open>
  What a client of the order book relies on, as the interface \<open>limit_book\<close>, its
  consequences for whole sequences of operations, and the properties of \<^verbatim>\<open>OrderBook\<close>
  themselves.
\<close>

section \<open>Consequences of the specification\<close>

definition trade_total :: "Trade list \<Rightarrow> nat" where
  "trade_total trs = sum_list (map (\<lambda>t. unat (tr_qty t)) trs)"

lemma trade_total_simps [simp]:
  "trade_total [] = 0" "trade_total (t # trs) = unat (tr_qty t) + trade_total trs"
  "trade_total (trs @ trs') = trade_total trs + trade_total trs'"
  by (simp_all add: trade_total_def)

lemma trade_total_fills [simp]: "trade_total (fill_trades oid side ts fs) = total_fill fs"
  by (induction fs) (auto simp: fill_trades_def make_trade_def)

definition own_side :: "Side \<Rightarrow> abook \<Rightarrow> Order list" where
  "own_side side a = (if side = Buy then a_bids a else a_asks a)"

definition other_side :: "Side \<Rightarrow> abook \<Rightarrow> Order list" where
  "other_side side a = (if side = Buy then a_asks a else a_bids a)"

definition acceptable :: "Side \<Rightarrow> Price \<Rightarrow> Price \<Rightarrow> bool" where
  "acceptable side limit px = (if side = Buy then px \<le> limit else limit \<le> px)"

definition side_before :: "Side \<Rightarrow> Price \<Rightarrow> Price \<Rightarrow> bool" where
  "side_before side = (if side = Buy then bid_before else ask_before)"

lemma spec_add_fill:
  obtains rs' q' fs where
    "fill_list (acceptable side price) qty (other_side side a) = (rs', q', fs)"
    and "snd (spec_add a oid side price qty ts) = fill_trades oid side ts fs"
    and "other_side side (fst (spec_add a oid side price qty ts)) = rs'"
    and "own_side side (fst (spec_add a oid side price qty ts)) =
      (if q' \<noteq> 0 \<and> length (own_side side a) + length rs' < a_cap a
       then prio_insert (side_before side)
         \<lparr>ord_id = oid, ord_side = side, ord_price = price, ord_qty = q', ord_ts_ns = ts\<rparr> (own_side side a)
       else own_side side a)"
proof -
  obtain rs' q' fs where fl: "fill_list (acceptable side price) qty (other_side side a) = (rs', q', fs)"
    by (metis prod_cases3)
  have acc: "acceptable Buy price = (\<lambda>px. px \<le> price)"
    and acc': "side \<noteq> Buy \<Longrightarrow> acceptable side price = (\<lambda>px. price \<le> px)"
    by (simp_all add: acceptable_def fun_eq_iff)
  show thesis
  proof (cases "side = Buy")
    case True
    with fl have "fill_list (\<lambda>px. px \<le> price) qty (a_asks a) = (rs', q', fs)"
      by (simp add: acc other_side_def)
    with True show thesis
      by (intro that [OF fl]) (simp_all add: spec_add_def own_side_def other_side_def side_before_def)
  next
    case False
    with fl have "fill_list (\<lambda>px. price \<le> px) qty (a_bids a) = (rs', q', fs)"
      by (simp add: acc' other_side_def)
    with False show thesis
      by (intro that [OF fl]) (simp_all add: spec_add_def own_side_def other_side_def side_before_def add.commute)
  qed
qed

lemma total_qty_prio_insert [simp]:
  "total_qty (prio_insert before r rs) = unat (ord_qty r) + total_qty rs"
proof -
  let ?p = "\<lambda>s. \<not> before (ord_price r) (ord_price s)"
  have "total_qty rs = total_qty (takeWhile ?p rs) + total_qty (dropWhile ?p rs)"
    by (metis takeWhile_dropWhile_id total_simps(3))
  then show ?thesis by (simp add: prio_insert_def)
qed

lemma spec_add_conserves:
  fixes a oid side price qty ts
  defines "a' \<equiv> fst (spec_add a oid side price qty ts)" and "T \<equiv> trade_total (snd (spec_add a oid side price qty ts))"
  shows "T \<le> unat qty \<and> total_qty (other_side side a) = total_qty (other_side side a') + T \<and>
    (if length (own_side side a) + length (other_side side a') < a_cap a
     then total_qty (own_side side a') + T = total_qty (own_side side a) + unat qty
     else own_side side a' = own_side side a)"
proof -
  obtain rs' q' fs where fl: "fill_list (acceptable side price) qty (other_side side a) = (rs', q', fs)"
    and s: "snd (spec_add a oid side price qty ts) = fill_trades oid side ts fs"
      "other_side side (fst (spec_add a oid side price qty ts)) = rs'"
      "own_side side (fst (spec_add a oid side price qty ts)) =
      (if q' \<noteq> 0 \<and> length (own_side side a) + length rs' < a_cap a
       then prio_insert (side_before side)
         \<lparr>ord_id = oid, ord_side = side, ord_price = price, ord_qty = q', ord_ts_ns = ts\<rparr> (own_side side a)
       else own_side side a)"
    by (rule spec_add_fill)
  show ?thesis
    using fill_list_conserves [OF fl] unfolding a'_def T_def s by auto
qed

lemma fill_list_all_but_last:
  assumes "fill_list cr q rs = (rs', q', fs)" and "i < length fs"
  shows "fst (fs ! i) = rs ! i \<and> cr (ord_price (rs ! i)) \<and> i < length rs \<and>
    (Suc i < length fs \<longrightarrow> snd (fs ! i) = ord_qty (rs ! i))"
  using assms(1)
proof (cases rule: fill_list_cases)
  case (whole gone)
  with assms(2) show ?thesis by (simp add: nth_append)
next
  case (partial gone r f tl)
  with assms(2) show ?thesis by (cases "i < length gone") (auto simp: nth_append less_Suc_eq)
qed

text \<open>The resting leg of a trade.\<close>

definition resting_id :: "Side \<Rightarrow> Trade \<Rightarrow> OrderId" where
  "resting_id side t = (if side = Buy then tr_sell_order_id t else tr_buy_order_id t)"

definition incoming_id :: "Side \<Rightarrow> Trade \<Rightarrow> OrderId" where
  "incoming_id side t = (if side = Buy then tr_buy_order_id t else tr_sell_order_id t)"

lemma fill_trades_nth:
  "i < length fs \<Longrightarrow> fill_trades oid side ts fs ! i = make_trade oid side ts (ord_price (fst (fs ! i))) (fst (fs ! i)) (snd (fs ! i))"
  by (simp add: fill_trades_def split_beta)

lemma length_fill_trades [simp]: "length (fill_trades oid side ts fs) = length fs"
  by (simp add: fill_trades_def)

lemma spec_add_priority:
  assumes "i < length (snd (spec_add a oid side price qty ts))"
  defines "t \<equiv> snd (spec_add a oid side price qty ts) ! i" and "r \<equiv> other_side side a ! i"
  shows "i < length (other_side side a) \<and> resting_id side t = ord_id r \<and> incoming_id side t = oid \<and>
    tr_price t = ord_price r \<and> acceptable side price (ord_price r) \<and>
    (Suc i < length (snd (spec_add a oid side price qty ts)) \<longrightarrow> tr_qty t = ord_qty r)"
proof -
  obtain rs' q' fs where fl: "fill_list (acceptable side price) qty (other_side side a) = (rs', q', fs)"
    and s: "snd (spec_add a oid side price qty ts) = fill_trades oid side ts fs"
    by (rule spec_add_fill)
  show ?thesis
    using fill_list_all_but_last [OF fl, of i] assms(1) unfolding t_def r_def s
    by (auto simp: fill_trades_nth make_trade_def resting_id_def incoming_id_def)
qed

section \<open>What a client of the book relies on\<close>

definition a_ids :: "abook \<Rightarrow> OrderId set" where
  "a_ids a = ord_id ` set (a_orders a)"

lemma a_ids_sides: "a_ids a = ord_id ` set (own_side side a) \<union> ord_id ` set (other_side side a)"
  by (auto simp: a_ids_def a_orders_def own_side_def other_side_def)

lemma a_ids_add: "a_ids (fst (spec_add a oid side price qty ts)) \<subseteq> insert oid (a_ids a)"
proof -
  obtain rs' q' fs where "fill_list (acceptable side price) qty (other_side side a) = (rs', q', fs)"
    and s: "other_side side (fst (spec_add a oid side price qty ts)) = rs'"
      "own_side side (fst (spec_add a oid side price qty ts)) =
      (if q' \<noteq> 0 \<and> length (own_side side a) + length rs' < a_cap a
       then prio_insert (side_before side)
         \<lparr>ord_id = oid, ord_side = side, ord_price = price, ord_qty = q', ord_ts_ns = ts\<rparr> (own_side side a)
       else own_side side a)"
    by (rule spec_add_fill)
  then have "ord_id ` set rs' \<subseteq> ord_id ` set (other_side side a)"
    by (intro fill_list_ids)
  then show ?thesis
    unfolding a_ids_sides [of _ side] s by auto
qed

lemma a_ids_cancel: "a_ids (snd (spec_cancel a oid)) = a_ids a - {oid}"
  by (auto simp: a_ids_def a_orders_cancel)

datatype book_op = Op_add OrderId Side Price Qty Nanos | Op_cancel OrderId

fun spec_op :: "book_op \<Rightarrow> abook \<times> Trade list \<Rightarrow> abook \<times> Trade list" where
  "spec_op (Op_add oid side price qty ts) (a, trs) =
     (let (a', new) = spec_add a oid side price qty ts in (a', trs @ new))"
| "spec_op (Op_cancel oid) (a, trs) = (snd (spec_cancel a oid), trs)"

text \<open>Every order of the sequence has an id that was never used before.\<close>

fun ops_fresh :: "OrderId set \<Rightarrow> book_op list \<Rightarrow> bool" where
  "ops_fresh used [] \<longleftrightarrow> True"
| "ops_fresh used (Op_add oid side price qty ts # ops) \<longleftrightarrow> oid \<notin> used \<and> ops_fresh (insert oid used) ops"
| "ops_fresh used (Op_cancel oid # ops) \<longleftrightarrow> ops_fresh used ops"

fun client_op :: "('b \<Rightarrow> OrderId \<Rightarrow> Side \<Rightarrow> Price \<Rightarrow> Qty \<Rightarrow> Nanos \<Rightarrow> Trade list \<Rightarrow> ('b \<times> Trade list) option)
    \<Rightarrow> ('b \<Rightarrow> OrderId \<Rightarrow> (bool \<times> 'b) option) \<Rightarrow> book_op \<Rightarrow> 'b \<times> Trade list \<Rightarrow> ('b \<times> Trade list) option" where
  "client_op add cncl (Op_add oid side price qty ts) (b, trs) = add b oid side price qty ts trs"
| "client_op add cncl (Op_cancel oid) (b, trs) = map_option (\<lambda>(ok, b'). (b', trs)) (cncl b oid)"

lemma fst_level_rows: "fst ` set (level_rows rs) = ord_price ` set rs"
  by (simp add: level_rows_def image_image)

locale limit_book =
  fixes add :: "'b \<Rightarrow> OrderId \<Rightarrow> Side \<Rightarrow> Price \<Rightarrow> Qty \<Rightarrow> Nanos \<Rightarrow> Trade list \<Rightarrow> ('b \<times> Trade list) option"
    and cncl :: "'b \<Rightarrow> OrderId \<Rightarrow> (bool \<times> 'b) option"
    and top_bid :: "'b \<Rightarrow> (Price \<times> Qty) option option"
    and top_ask :: "'b \<Rightarrow> (Price \<times> Qty) option option"
    and abs :: "'b \<Rightarrow> abook"
    and inv :: "'b \<Rightarrow> bool"
  assumes inv_abs: "inv b \<Longrightarrow> abook_inv (abs b)"
    and add_law: "inv b \<Longrightarrow> oid \<notin> a_ids (abs b) \<Longrightarrow>
      \<exists>b'. add b oid side price qty ts trs = Some (b', trs @ snd (spec_add (abs b) oid side price qty ts)) \<and>
        inv b' \<and> abs b' = fst (spec_add (abs b) oid side price qty ts)"
    and cancel_law: "inv b \<Longrightarrow>
      \<exists>b'. cncl b oid = Some (fst (spec_cancel (abs b) oid), b') \<and> inv b' \<and> abs b' = snd (spec_cancel (abs b) oid)"
    and top_bid_law: "inv b \<Longrightarrow> top_bid b = Some (case level_rows (a_bids (abs b)) of [] \<Rightarrow> None | row # _ \<Rightarrow> Some row)"
    and top_ask_law: "inv b \<Longrightarrow> top_ask b = Some (case level_rows (a_asks (abs b)) of [] \<Rightarrow> None | row # _ \<Rightarrow> Some row)"
begin

lemma run_refines:
  assumes "inv b" and "a_ids (abs b) \<subseteq> used" and "ops_fresh used ops"
  shows "\<exists>b' trs'. fold_opt (client_op add cncl) ops (b, trs) = Some (b', trs') \<and> inv b' \<and>
    (abs b', trs') = fold spec_op ops (abs b, trs)"
  using assms
proof (induction ops arbitrary: b trs used)
  case Nil
  then show ?case by simp
next
  case (Cons op ops)
  show ?case
  proof (cases op)
    case (Op_add oid side price qty ts)
    with Cons.prems have "oid \<notin> a_ids (abs b)" and fr: "ops_fresh (insert oid used) ops"
      by auto
    from add_law [OF Cons.prems(1) this(1), of side price qty ts trs] obtain b1 where
      b1: "add b oid side price qty ts trs = Some (b1, trs @ snd (spec_add (abs b) oid side price qty ts))"
        "inv b1" "abs b1 = fst (spec_add (abs b) oid side price qty ts)"
      by blast
    have "a_ids (abs b1) \<subseteq> insert oid used"
      using a_ids_add [of "abs b" oid side price qty ts] Cons.prems(2) b1(3) by auto
    from Cons.IH [OF b1(2) this fr] b1 show ?thesis
      by (simp add: Op_add split_beta)
  next
    case (Op_cancel oid)
    from cancel_law [OF Cons.prems(1), of oid] obtain b1 where
      b1: "cncl b oid = Some (fst (spec_cancel (abs b) oid), b1)" "inv b1" "abs b1 = snd (spec_cancel (abs b) oid)"
      by blast
    have "a_ids (abs b1) \<subseteq> used"
      using a_ids_cancel [of "abs b" oid] Cons.prems(2) b1(3) by auto
    from Cons.IH [OF b1(2) this] Cons.prems(3) b1 show ?thesis
      by (simp add: Op_cancel)
  qed
qed

lemma top_uncrossed:
  assumes "inv b" and "top_bid b = Some (Some (bp, bq))" and "top_ask b = Some (Some (ap, aq))"
  shows "bp < ap"
proof -
  have mem: "px \<in> ord_price ` set rs" if "level_rows rs = (px, q) # rows" for px q rs rows
    using fst_level_rows [of rs] that by (metis fst_conv image_eqI list.set_intros(1))
  have "bp \<in> ord_price ` set (a_bids (abs b))"
    using assms(2) mem unfolding top_bid_law [OF assms(1)] by (auto split: list.splits)
  moreover have "ap \<in> ord_price ` set (a_asks (abs b))"
    using assms(3) mem unfolding top_ask_law [OF assms(1)] by (auto split: list.splits)
  ultimately show ?thesis
    using inv_abs [OF assms(1)] by (auto simp: abook_inv_def)
qed

end

interpretation lb: limit_book add_limit_order cancel best_bid best_ask abs_book book_inv
proof (unfold_locales, goal_cases)
  case (1 b)
  then show ?case by (simp add: book_inv_def book_rel_def)
next
  case (2 b oid side price qty ts trs)
  then have "book_rel b (abs_book b)" "oid \<notin> ord_id ` set (a_orders (abs_book b))"
    by (simp_all add: book_inv_def a_ids_def)
  from book_rel_add [OF this, of side price qty ts trs] show ?case
    using book_rel_abs book_inv_iff by blast
next
  case (3 b oid)
  then have "book_rel b (abs_book b)"
    by (simp add: book_inv_def)
  from book_rel_cancel [OF this, of oid] show ?case
    using book_rel_abs book_inv_iff by blast
next
  case (4 b)
  then show ?case by (simp add: book_inv_def book_rel_queries)
next
  case (5 b)
  then show ?case by (simp add: book_inv_def book_rel_queries)
qed

end
