(* ===== verification/Book_Properties.thy ===== *)
theory Book_Properties
  imports Book_Interface
begin

text \<open>
  The properties of \<^verbatim>\<open>OrderBook\<close>: refinement of the priority-queue specification,
  memory safety of every sequence of operations, conservation of quantity, price-time
  priority, an uncrossed book and exact queries.
\<close>

lemma book_inv_init:
  assumes "cap \<le> 2 ^ 31"
  shows "book_inv (book_init cap)" and "abs_book (book_init cap) = \<lparr>a_bids = [], a_asks = [], a_cap = cap\<rparr>"
  using book_rel_init [OF assms] book_rel_abs by (auto simp: book_inv_iff)

lemma a_ids_init [simp]: "a_ids \<lparr>a_bids = [], a_asks = [], a_cap = cap\<rparr> = {}"
  by (simp add: a_ids_def a_orders_def)

text \<open>A book with two offers and one bid, on which the theorems are exercised.\<close>

definition demo_ops :: "book_op list" where
  "demo_ops = [Op_add 1 Sell 101 5 10, Op_add 2 Sell 102 7 11, Op_add 3 Buy 99 4 12]"

definition demo_book :: book where
  "demo_book = fst (the (fold_opt (client_op add_limit_order cancel) demo_ops (book_init 4, [])))"

lemma demo_book:
  "book_inv demo_book"
  "abs_book demo_book = \<lparr>
     a_bids = [\<lparr>ord_id = 3, ord_side = Buy, ord_price = 99, ord_qty = 4, ord_ts_ns = 12\<rparr>],
     a_asks = [\<lparr>ord_id = 1, ord_side = Sell, ord_price = 101, ord_qty = 5, ord_ts_ns = 10\<rparr>,
               \<lparr>ord_id = 2, ord_side = Sell, ord_price = 102, ord_qty = 7, ord_ts_ns = 11\<rparr>],
     a_cap = 4\<rparr>"
proof -
  have init: "book_inv (book_init 4)" "abs_book (book_init 4) = \<lparr>a_bids = [], a_asks = [], a_cap = 4\<rparr>"
    by (rule book_inv_init; simp)+
  have "ops_fresh {} demo_ops"
    by (simp add: demo_ops_def)
  then obtain b' trs' where run: "fold_opt (client_op add_limit_order cancel) demo_ops (book_init 4, []) = Some (b', trs')"
    and b': "book_inv b'" "(abs_book b', trs') = fold spec_op demo_ops (abs_book (book_init 4), [])"
    using lb.run_refines [OF init(1), of "{}" demo_ops "[]"] init(2) by auto
  have "fold spec_op demo_ops (\<lparr>a_bids = [], a_asks = [], a_cap = 4\<rparr>, []) = (\<lparr>
     a_bids = [\<lparr>ord_id = 3, ord_side = Buy, ord_price = 99, ord_qty = 4, ord_ts_ns = 12\<rparr>],
     a_asks = [\<lparr>ord_id = 1, ord_side = Sell, ord_price = 101, ord_qty = 5, ord_ts_ns = 10\<rparr>,
               \<lparr>ord_id = 2, ord_side = Sell, ord_price = 102, ord_qty = 7, ord_ts_ns = 11\<rparr>],
     a_cap = 4\<rparr>, [])"
    by code_simp
  with run b' init(2) show "book_inv demo_book"
    "abs_book demo_book = \<lparr>
     a_bids = [\<lparr>ord_id = 3, ord_side = Buy, ord_price = 99, ord_qty = 4, ord_ts_ns = 12\<rparr>],
     a_asks = [\<lparr>ord_id = 1, ord_side = Sell, ord_price = 101, ord_qty = 5, ord_ts_ns = 10\<rparr>,
               \<lparr>ord_id = 2, ord_side = Sell, ord_price = 102, ord_qty = 7, ord_ts_ns = 11\<rparr>],
     a_cap = 4\<rparr>"
    by (simp_all add: demo_book_def)
qed

section \<open>Refinement\<close>

text \<open>
  (C1) Adding a limit order with a fresh id is exactly the abstract operation: the order
  trades against the opposite side in priority order at the resting prices, the
  remainder is queued behind its price level (or dropped when the pool is full), the
  trades are appended, no dead object is touched and the invariant is kept.
\<close>
theorem add_limit_order_refines:
  assumes "book_inv b" and "oid \<notin> a_ids (abs_book b)"
  shows "\<exists>b'. add_limit_order b oid side price qty ts trs =
      Some (b', trs @ snd (spec_add (abs_book b) oid side price qty ts)) \<and>
    book_inv b' \<and> abs_book b' = fst (spec_add (abs_book b) oid side price qty ts)"
  using assms by (rule lb.add_law)

theorem add_limit_order_refines_witness:
  "\<exists>b'. add_limit_order demo_book 4 Buy 102 8 20 [] =
     Some (b', [\<lparr>tr_buy_order_id = 4, tr_sell_order_id = 1, tr_price = 101, tr_qty = 5, tr_ts_ns = 20\<rparr>,
                \<lparr>tr_buy_order_id = 4, tr_sell_order_id = 2, tr_price = 102, tr_qty = 3, tr_ts_ns = 20\<rparr>]) \<and>
     book_inv b'"
proof -
  have "4 \<notin> a_ids (abs_book demo_book)"
    by (simp add: demo_book a_ids_def a_orders_def)
  moreover have "snd (spec_add (abs_book demo_book) 4 Buy 102 8 20) =
      [\<lparr>tr_buy_order_id = 4, tr_sell_order_id = 1, tr_price = 101, tr_qty = 5, tr_ts_ns = 20\<rparr>,
       \<lparr>tr_buy_order_id = 4, tr_sell_order_id = 2, tr_price = 102, tr_qty = 3, tr_ts_ns = 20\<rparr>]"
    unfolding demo_book by code_simp
  ultimately show ?thesis
    using add_limit_order_refines [OF demo_book(1), of 4 Buy 102 8 20 "[]"] by auto
qed

text \<open>
  (C2) Cancelling is exactly the abstract operation: it reports whether the id rests in
  the book, removes that order and no other, and keeps every other order's priority.
\<close>
theorem cancel_refines:
  assumes "book_inv b"
  shows "\<exists>b'. cancel b oid = Some (oid \<in> a_ids (abs_book b), b') \<and> book_inv b' \<and>
    a_bids (abs_book b') = filter (\<lambda>r. ord_id r \<noteq> oid) (a_bids (abs_book b)) \<and>
    a_asks (abs_book b') = filter (\<lambda>r. ord_id r \<noteq> oid) (a_asks (abs_book b))"
  using lb.cancel_law [OF assms, of oid] by (auto simp: spec_cancel_def a_ids_def)

theorem cancel_refines_witness:
  "\<exists>b'. cancel demo_book 1 = Some (True, b') \<and> book_inv b' \<and> map ord_id (a_asks (abs_book b')) = [2]"
  using cancel_refines [OF demo_book(1), of 1] by (auto simp: demo_book a_ids_def a_orders_def)

text \<open>
  Every sequence of adds and cancels that never reuses an order id runs to its end
  from an empty book without touching a dead object, whatever the pool capacity; the
  result and the trades are those of the abstract book.
\<close>
lemma book_run_safe:
  assumes "cap \<le> 2 ^ 31" and "ops_fresh {} ops"
  shows "\<exists>b trs. fold_opt (client_op add_limit_order cancel) ops (book_init cap, []) = Some (b, trs) \<and>
    book_inv b \<and> (abs_book b, trs) = fold spec_op ops (\<lparr>a_bids = [], a_asks = [], a_cap = cap\<rparr>, [])"
  using lb.run_refines [OF book_inv_init(1) [OF assms(1)], of "{}" ops "[]"] book_inv_init(2) [OF assms(1)] assms(2)
  by simp

text \<open>
  (C13) The book is never crossed: after any such sequence, when both sides have a best
  price the best bid is below the best ask.
\<close>
theorem book_never_crossed:
  assumes "cap \<le> 2 ^ 31" and "ops_fresh {} ops"
    and "fold_opt (client_op add_limit_order cancel) ops (book_init cap, []) = Some (b, trs)"
    and "best_bid b = Some (Some (bp, bq))" and "best_ask b = Some (Some (ap, aq))"
  shows "bp < ap"
proof -
  have "book_inv b"
    using lb.run_refines [OF book_inv_init(1) [OF assms(1)], of "{}" ops "[]"] book_inv_init(2) [OF assms(1)] assms(2,3)
    by auto
  then show ?thesis
    using assms(4,5) by (rule lb.top_uncrossed)
qed

theorem book_never_crossed_witness:
  "best_bid demo_book = Some (Some (99, 4)) \<and> best_ask demo_book = Some (Some (101, 5)) \<and> (99 :: Price) < 101"
proof -
  have "fold_opt (client_op add_limit_order cancel) demo_ops (book_init 4, []) =
      Some (demo_book, snd (the (fold_opt (client_op add_limit_order cancel) demo_ops (book_init 4, []))))"
    unfolding demo_book_def by code_simp
  moreover have "best_bid demo_book = Some (Some (99, 4))" "best_ask demo_book = Some (Some (101, 5))"
    by code_simp+
  ultimately show ?thesis
    using book_never_crossed [of 4 demo_ops demo_book] by (simp add: demo_ops_def)
qed

section \<open>Matching\<close>

lemma add_result:
  assumes "book_inv b" and "oid \<notin> a_ids (abs_book b)" and "add_limit_order b oid side price qty ts [] = Some (b', trs)"
  shows "trs = snd (spec_add (abs_book b) oid side price qty ts)"
    and "abs_book b' = fst (spec_add (abs_book b) oid side price qty ts)"
  using lb.add_law [OF assms(1,2), of side price qty ts "[]"] assms(3) by auto

text \<open>
  (C12) Quantity is conserved: what trades leaves the opposite side, and the incoming
  quantity is split into what traded and what joins its own side; only a full pool
  makes the remainder disappear, leaving the own side unchanged.
\<close>
theorem add_conserves_quantity:
  assumes "book_inv b" and "oid \<notin> a_ids (abs_book b)" and "add_limit_order b oid side price qty ts [] = Some (b', trs)"
  defines "own \<equiv> own_side side (abs_book b)" and "own' \<equiv> own_side side (abs_book b')"
    and "opp \<equiv> other_side side (abs_book b)" and "opp' \<equiv> other_side side (abs_book b')"
  shows "trade_total trs \<le> unat qty \<and> total_qty opp = total_qty opp' + trade_total trs \<and>
    (if length own + length opp' < pool_capacity (book_pool b)
     then total_qty own' + trade_total trs = total_qty own + unat qty
     else own' = own)"
proof -
  have "a_cap (abs_book b) = pool_capacity (book_pool b)"
    by (simp add: abs_book_def)
  then show ?thesis
    using spec_add_conserves [of "abs_book b" oid side price qty ts] add_result [OF assms(1-3)]
    unfolding own_def own'_def opp_def opp'_def by simp
qed

theorem add_conserves_quantity_witness:
  "\<exists>b' trs. add_limit_order demo_book 4 Buy 101 8 20 [] = Some (b', trs) \<and>
     12 = total_qty (a_asks (abs_book b')) + trade_total trs \<and>
     total_qty (a_bids (abs_book b')) + trade_total trs = 12 \<and> trade_total trs = 5"
proof -
  have fresh: "4 \<notin> a_ids (abs_book demo_book)"
    by (simp add: demo_book a_ids_def a_orders_def)
  obtain b' where run: "add_limit_order demo_book 4 Buy 101 8 20 [] = Some (b', snd (spec_add (abs_book demo_book) 4 Buy 101 8 20))"
    and b': "abs_book b' = fst (spec_add (abs_book demo_book) 4 Buy 101 8 20)"
    using lb.add_law [OF demo_book(1) fresh, of Buy 101 8 20 "[]"] by auto
  let ?trs = "snd (spec_add (abs_book demo_book) 4 Buy 101 8 20)"
  have cap: "pool_capacity (book_pool demo_book) = 4"
    using demo_book(2) by (simp add: abs_book_def)
  have trs: "trade_total ?trs = 5"
    unfolding demo_book by code_simp
  have "length (a_asks (abs_book b')) = 1"
    unfolding b' demo_book by code_simp
  then show ?thesis
    using add_conserves_quantity [OF demo_book(1) fresh run] run trs cap
    by (auto simp: own_side_def other_side_def demo_book total_qty_def)
qed

text \<open>
  (C11) Price-time priority: the i-th trade is with the i-th order of the opposite side's
  priority queue (best price first, oldest first), at that order's price, which is
  within the limit; every trade but the last fills its resting order completely.
\<close>
theorem add_price_time_priority:
  assumes "book_inv b" and "oid \<notin> a_ids (abs_book b)" and "add_limit_order b oid side price qty ts [] = Some (b', trs)"
    and "i < length trs"
  defines "opp \<equiv> other_side side (abs_book b)"
  shows "i < length opp \<and> resting_id side (trs ! i) = ord_id (opp ! i) \<and> incoming_id side (trs ! i) = oid \<and>
    tr_price (trs ! i) = ord_price (opp ! i) \<and> acceptable side price (ord_price (opp ! i)) \<and>
    (Suc i < length trs \<longrightarrow> tr_qty (trs ! i) = ord_qty (opp ! i)) \<and>
    (\<forall>j < i. \<not> side_before (if side = Buy then Sell else Buy) (ord_price (opp ! i)) (ord_price (opp ! j)))"
proof -
  have "prio_sorted (side_before (if side = Buy then Sell else Buy)) opp"
    using lb.inv_abs [OF assms(1)] by (simp add: opp_def abook_inv_def other_side_def side_before_def)
  moreover have "i < length opp"
    using spec_add_priority [of i "abs_book b" oid side price qty ts] add_result [OF assms(1-3)] assms(4)
    by (simp add: opp_def)
  ultimately have "\<forall>j < i. \<not> side_before (if side = Buy then Sell else Buy) (ord_price (opp ! i)) (ord_price (opp ! j))"
    unfolding prio_sorted_def by (auto dest: sorted_wrt_nth_less)
  then show ?thesis
    using spec_add_priority [of i "abs_book b" oid side price qty ts] add_result [OF assms(1-3)] assms(4)
    by (simp add: opp_def)
qed

theorem add_price_time_priority_witness:
  "\<exists>b' trs. add_limit_order demo_book 4 Buy 102 8 20 [] = Some (b', trs) \<and> length trs = 2 \<and>
     resting_id Buy (trs ! 0) = 1 \<and> tr_price (trs ! 0) = 101 \<and> tr_qty (trs ! 0) = 5"
proof -
  have fresh: "4 \<notin> a_ids (abs_book demo_book)"
    by (simp add: demo_book a_ids_def a_orders_def)
  obtain b' where run: "add_limit_order demo_book 4 Buy 102 8 20 [] = Some (b', snd (spec_add (abs_book demo_book) 4 Buy 102 8 20))"
    using lb.add_law [OF demo_book(1) fresh, of Buy 102 8 20 "[]"] by auto
  moreover have "length (snd (spec_add (abs_book demo_book) 4 Buy 102 8 20)) = 2"
    unfolding demo_book by code_simp
  ultimately show ?thesis
    using add_price_time_priority [OF demo_book(1) fresh run, of 0]
    by (auto simp: demo_book other_side_def)
qed

lemma spec_add_exhausts:
  assumes "abook_inv a" and "trade_total (snd (spec_add a oid side price qty ts)) < unat qty"
  shows "\<forall>r \<in> set (other_side side (fst (spec_add a oid side price qty ts))). \<not> acceptable side price (ord_price r)"
proof -
  obtain rs' q' fs where fl: "fill_list (acceptable side price) qty (other_side side a) = (rs', q', fs)"
    and s: "snd (spec_add a oid side price qty ts) = fill_trades oid side ts fs"
      "other_side side (fst (spec_add a oid side price qty ts)) = rs'"
    by (rule spec_add_fill)
  have "q' \<noteq> 0"
    using fill_list_conserves [OF fl] assms(2) unfolding s by auto
  moreover have "prio_sorted (if side = Buy then ask_before else bid_before) (other_side side a)"
    using assms(1) by (simp add: abook_inv_def other_side_def)
  ultimately show ?thesis
    unfolding s by (rule fill_list_left_all [OF fl]) (auto simp: acceptable_def ask_before_def bid_before_def split: if_splits)
qed

text \<open>
  Matching does not stop early: when the incoming order is not filled completely, no
  order is left on the opposite side at an acceptable price.
\<close>
lemma add_matches_completely:
  assumes "book_inv b" and "oid \<notin> a_ids (abs_book b)" and "add_limit_order b oid side price qty ts [] = Some (b', trs)"
    and "trade_total trs < unat qty"
  shows "\<forall>r \<in> set (other_side side (abs_book b')). \<not> acceptable side price (ord_price r)"
  using spec_add_exhausts [OF lb.inv_abs [OF assms(1)], of oid side price qty ts] add_result [OF assms(1-3)] assms(4)
  by simp

section \<open>Queries and round trips\<close>

text \<open>
  The queries report the abstract book: best prices with the quantity resting there
  modulo \<open>2\<^sup>3\<^sup>2\<close>, the number of levels and of orders, and the first \<open>depth\<close> rows of
  \<^verbatim>\<open>print_top\<close>, each price once and best first.
\<close>
lemma book_queries:
  assumes "book_inv b"
  shows "best_bid b = Some (case level_rows (a_bids (abs_book b)) of [] \<Rightarrow> None | row # _ \<Rightarrow> Some row) \<and>
    best_ask b = Some (case level_rows (a_asks (abs_book b)) of [] \<Rightarrow> None | row # _ \<Rightarrow> Some row) \<and>
    print_top b depth = Some (take depth (level_rows (a_asks (abs_book b))), take depth (level_rows (a_bids (abs_book b)))) \<and>
    bid_levels b = card (ord_price ` set (a_bids (abs_book b))) \<and>
    ask_levels b = card (ord_price ` set (a_asks (abs_book b))) \<and>
    resting_orders b = length (a_orders (abs_book b))"
proof -
  have rel: "book_rel b (abs_book b)"
    using assms by (simp add: book_inv_def)
  have "length (level_rows rs) = card (ord_price ` set rs)" for rs
    by (simp add: level_rows_def length_remdups_card_conv)
  then show ?thesis
    using book_rel_queries [OF rel] by simp
qed

lemma filter_prio_insert:
  "ord_id r = oid \<Longrightarrow> oid \<notin> ord_id ` set rs \<Longrightarrow> filter (\<lambda>r. ord_id r \<noteq> oid) (prio_insert before r rs) = rs"
proof -
  assume r: "ord_id r = oid" "oid \<notin> ord_id ` set rs"
  let ?p = "\<lambda>s. \<not> before (ord_price r) (ord_price s)"
  have "filter (\<lambda>r. ord_id r \<noteq> oid) (prio_insert before r rs) =
      filter (\<lambda>r. ord_id r \<noteq> oid) (takeWhile ?p rs @ dropWhile ?p rs)"
    by (simp add: prio_insert_def r(1) del: takeWhile_dropWhile_id)
  also have "\<dots> = rs"
    using r(2) by (auto simp: filter_id_conv)
  finally show ?thesis .
qed

lemma fill_list_untouched:
  assumes "fill_list cr q rs = (rs', q', [])"
  shows "rs' = rs \<and> q' = q"
proof -
  have "q' = q"
    using fill_list_conserves [OF assms] by (simp add: word_unat_eq_iff)
  with assms show ?thesis
    by (cases rule: fill_list_cases) auto
qed

text \<open>
  Round trip: an order that does not trade, followed by the cancel of its id, gives
  back the book that was there before, order for order; the cancel reports success
  exactly when the order could be stored.
\<close>
lemma add_cancel_round_trip:
  assumes "book_inv b" and "oid \<notin> a_ids (abs_book b)" and "add_limit_order b oid side price qty ts [] = Some (b', [])"
    and "qty \<noteq> 0"
  shows "\<exists>b''. cancel b' oid = Some (length (a_orders (abs_book b)) < pool_capacity (book_pool b), b'') \<and>
    book_inv b'' \<and> abs_book b'' = abs_book b"
proof -
  let ?a = "abs_book b" and ?s = "spec_add (abs_book b) oid side price qty ts"
  let ?r = "\<lparr>ord_id = oid, ord_side = side, ord_price = price, ord_qty = qty, ord_ts_ns = ts\<rparr>"
  have b': "book_inv b'" "abs_book b' = fst ?s" "snd ?s = []"
    using lb.add_law [OF assms(1,2), of side price qty ts "[]"] assms(3) by auto
  obtain rs' q' fs where fl: "fill_list (acceptable side price) qty (other_side side ?a) = (rs', q', fs)"
    and s: "snd ?s = fill_trades oid side ts fs" "other_side side (fst ?s) = rs'"
      "own_side side (fst ?s) = (if q' \<noteq> 0 \<and> length (own_side side ?a) + length rs' < a_cap ?a
       then prio_insert (side_before side) \<lparr>ord_id = oid, ord_side = side, ord_price = price, ord_qty = q', ord_ts_ns = ts\<rparr>
         (own_side side ?a) else own_side side ?a)"
    by (rule spec_add_fill)
  have "fs = []"
    using s(1) b'(3) by (simp add: fill_trades_def)
  then have eq: "rs' = other_side side ?a" "q' = qty"
    using fill_list_untouched fl by auto
  let ?room = "length (a_orders ?a) < a_cap ?a"
  have own: "own_side side (fst ?s) = (if ?room then prio_insert (side_before side) ?r (own_side side ?a) else own_side side ?a)"
    using s(3) assms(4) by (simp add: eq a_orders_def own_side_def other_side_def add.commute)
  have fresh: "oid \<notin> ord_id ` set (own_side side ?a)" "oid \<notin> ord_id ` set (other_side side ?a)"
    using assms(2) by (simp_all add: a_ids_sides [of _ side])
  have filt: "filter (\<lambda>r. ord_id r \<noteq> oid) (own_side side (fst ?s)) = own_side side ?a"
      "filter (\<lambda>r. ord_id r \<noteq> oid) (other_side side (fst ?s)) = other_side side ?a"
    using fresh filter_prio_insert [of ?r oid "own_side side ?a" "side_before side"]
    by (auto simp: own s(2) eq(1) filter_id_conv)
  then have "snd (spec_cancel (fst ?s) oid) = ?a"
    by (cases "side = Buy") (simp_all add: spec_cancel_def own_side_def other_side_def)
  moreover have "oid \<in> a_ids (fst ?s) \<longleftrightarrow> ?room"
    using fresh by (simp add: a_ids_sides [of _ side] own s(2) eq(1))
  then have "fst (spec_cancel (fst ?s) oid) \<longleftrightarrow> length (a_orders ?a) < pool_capacity (book_pool b)"
    by (simp add: spec_cancel_def a_ids_def abs_book_def)
  ultimately show ?thesis
    using lb.cancel_law [OF b'(1), of oid] by (simp add: b'(2))
qed

end
