(* ===== verification/Spsc_Ring.thy ===== *)
theory Spsc_Ring
  imports Hft_Types
begin

text \<open>
  The single-producer single-consumer ring of \<^verbatim>\<open>include/spsc_ring_buffer.hpp\<close>.
  The first part models \<^verbatim>\<open>push\<close>, \<^verbatim>\<open>pop\<close> and \<^verbatim>\<open>empty\<close> as operations on the buffer and
  its two indices and shows that they implement a bounded first-in-first-out queue
  (the interface \<open>bounded_fifo\<close>). The second part runs the two operations as two
  threads, one step per load or store, and shows that every interleaving delivers the
  pushed items in order and never lets both threads touch the same slot at once.
\<close>

section \<open>Powers of two and masks\<close>

definition pow2 :: "nat \<Rightarrow> bool" where
  "pow2 n \<longleftrightarrow> (\<exists>k. n = 2 ^ k)"

lemma pow2_pos: "pow2 n \<Longrightarrow> 0 < n"
  by (auto simp: pow2_def)

lemma pow2_mask: "pow2 c \<Longrightarrow> (i :: nat) AND (c - Suc 0) = i mod c"
  by (auto simp: pow2_def take_bit_eq_mod [symmetric] take_bit_eq_mask mask_eq_exp_minus_1)

section \<open>The ring as a sequential object\<close>

record 'a spsc =
  buffer :: "'a list"
  head_ix :: nat
  tail_ix :: nat

definition spsc_init :: "nat \<Rightarrow> 'a \<Rightarrow> 'a spsc" where
  "spsc_init cap d = \<lparr> buffer = replicate cap d, head_ix = 0, tail_ix = 0 \<rparr>"

definition spsc_mask :: "'a spsc \<Rightarrow> nat" where
  "spsc_mask q = length (buffer q) - 1"

definition spsc_push :: "'a spsc \<Rightarrow> 'a \<Rightarrow> 'a spsc option" where
  "spsc_push q x =
     (let nxt = (head_ix q + 1) AND spsc_mask q
      in if nxt = tail_ix q then None
         else Some (q\<lparr>buffer := (buffer q)[head_ix q := x], head_ix := nxt\<rparr>))"

definition spsc_pop :: "'a spsc \<Rightarrow> ('a \<times> 'a spsc) option" where
  "spsc_pop q =
     (if tail_ix q = head_ix q then None
      else Some (buffer q ! tail_ix q, q\<lparr>tail_ix := (tail_ix q + 1) AND spsc_mask q\<rparr>))"

definition spsc_empty :: "'a spsc \<Rightarrow> bool" where
  "spsc_empty q \<longleftrightarrow> head_ix q = tail_ix q"

text \<open>The queue a ring stands for: the slots from the tail up to the head, oldest first.\<close>

definition ring_count :: "nat \<Rightarrow> nat \<Rightarrow> nat \<Rightarrow> nat" where
  "ring_count c h t = (if t \<le> h then h - t else h + c - t)"

definition ring_slots :: "nat \<Rightarrow> nat \<Rightarrow> nat \<Rightarrow> nat list" where
  "ring_slots c h t = map (\<lambda>k. (t + k) mod c) [0..<ring_count c h t]"

definition spsc_list :: "'a spsc \<Rightarrow> 'a list" where
  "spsc_list q = map ((!) (buffer q)) (ring_slots (length (buffer q)) (head_ix q) (tail_ix q))"

definition spsc_inv :: "'a spsc \<Rightarrow> bool" where
  "spsc_inv q \<longleftrightarrow> pow2 (length (buffer q)) \<and>
     head_ix q < length (buffer q) \<and> tail_ix q < length (buffer q)"

lemma ring_next: "i < c \<Longrightarrow> Suc i mod c = (if Suc i = c then 0 else Suc i)"
  by simp

lemma ring_slots_full:
  assumes "h < c" and "t < c" and "(h + 1) mod c \<noteq> t"
  shows "ring_slots c ((h + 1) mod c) t = ring_slots c h t @ [h]"
proof -
  have "ring_count c ((h + 1) mod c) t = Suc (ring_count c h t)"
    using assms by (auto simp: ring_count_def ring_next split: if_splits)
  moreover have "(t + ring_count c h t) mod c = h"
    using assms by (auto simp: ring_count_def)
  ultimately show ?thesis by (simp add: ring_slots_def)
qed

lemma ring_slots_pop:
  assumes "h < c" and "t < c" and "h \<noteq> t"
  shows "ring_slots c h t = t # ring_slots c h ((t + 1) mod c)"
proof -
  have cnt: "ring_count c h t = Suc (ring_count c h ((t + 1) mod c))"
    using assms by (auto simp: ring_count_def ring_next split: if_splits)
  show ?thesis
    using assms by (simp add: ring_slots_def cnt upt_conv_Cons map_Suc_upt [symmetric] o_def
        mod_add_left_eq del: upt_Suc)
qed

lemma ring_slots_free:
  assumes "h < c" and "t < c"
  shows "h \<notin> set (ring_slots c h t)"
proof
  assume "h \<in> set (ring_slots c h t)"
  then obtain k where "k < ring_count c h t" and "(t + k) mod c = h"
    by (auto simp: ring_slots_def)
  with assms show False
    by (cases "t + k < c") (auto simp: ring_count_def mod_if split: if_splits)
qed

lemma ring_slots_bound: "0 < c \<Longrightarrow> i \<in> set (ring_slots c h t) \<Longrightarrow> i < c"
  by (auto simp: ring_slots_def)

lemma ring_slots_Nil: "h < c \<Longrightarrow> t < c \<Longrightarrow> ring_slots c h t = [] \<longleftrightarrow> h = t"
  by (auto simp: ring_slots_def ring_count_def)

lemma length_ring_slots: "length (ring_slots c h t) = ring_count c h t"
  by (simp add: ring_slots_def)

lemma ring_count_full:
  "h < c \<Longrightarrow> t < c \<Longrightarrow> (h + 1) mod c = t \<longleftrightarrow> ring_count c h t = c - 1"
  by (auto simp: ring_count_def ring_next split: if_splits)

lemma spsc_next:
  "spsc_inv q \<Longrightarrow> i AND spsc_mask q = i mod length (buffer q)"
  by (simp add: spsc_inv_def spsc_mask_def pow2_mask)

lemma map_nth_update_free:
  "i \<notin> set ks \<Longrightarrow> map ((!) (xs[i := x])) ks = map ((!) xs) ks"
  by (induction ks) auto

text \<open>The three writes of the ring, seen as changes of the queue it stands for.\<close>

lemma spsc_mask_update [simp]:
  "spsc_mask (q\<lparr>head_ix := n\<rparr>) = spsc_mask q"
  "spsc_mask (q\<lparr>tail_ix := n\<rparr>) = spsc_mask q"
  "spsc_mask (q\<lparr>buffer := (buffer q)[i := x]\<rparr>) = spsc_mask q"
  by (simp_all add: spsc_mask_def)

lemma spsc_inv_update:
  assumes "spsc_inv q"
  shows "spsc_inv (q\<lparr>head_ix := i AND spsc_mask q\<rparr>)"
    and "spsc_inv (q\<lparr>tail_ix := i AND spsc_mask q\<rparr>)"
    and "spsc_inv (q\<lparr>buffer := (buffer q)[i := x]\<rparr>)"
  using assms by (simp_all add: spsc_next) (auto simp: spsc_inv_def dest: pow2_pos)

lemma spsc_list_write:
  "spsc_inv q \<Longrightarrow> spsc_list (q\<lparr>buffer := (buffer q)[head_ix q := x]\<rparr>) = spsc_list q"
  by (simp add: spsc_list_def spsc_inv_def map_nth_update_free ring_slots_free)

lemma spsc_list_publish:
  assumes "spsc_inv q" and "(head_ix q + 1) AND spsc_mask q \<noteq> tail_ix q"
  shows "spsc_list (q\<lparr>head_ix := (head_ix q + 1) AND spsc_mask q\<rparr>) = spsc_list q @ [buffer q ! head_ix q]"
  using assms ring_slots_full [of "head_ix q" "length (buffer q)" "tail_ix q"]
  by (simp add: spsc_next) (simp add: spsc_list_def spsc_inv_def)

lemma spsc_list_consume:
  assumes "spsc_inv q" and "tail_ix q \<noteq> head_ix q"
  shows "spsc_list q = buffer q ! tail_ix q # spsc_list (q\<lparr>tail_ix := (tail_ix q + 1) AND spsc_mask q\<rparr>)"
  using assms ring_slots_pop [of "head_ix q" "length (buffer q)" "tail_ix q"]
  by (simp add: spsc_next) (simp add: spsc_list_def spsc_inv_def)

section \<open>The queue interface\<close>

text \<open>
  What the sequencer, the matching engine, the database writer and the gateway rely on:
  \<open>contents\<close> is the queue, oldest element first, and \<open>room\<close> the number of elements it
  can hold.
\<close>

locale bounded_fifo =
  fixes push :: "'q \<Rightarrow> 'a \<Rightarrow> 'q option"
    and pop :: "'q \<Rightarrow> ('a \<times> 'q) option"
    and contents :: "'q \<Rightarrow> 'a list"
    and room :: "'q \<Rightarrow> nat"
    and ok :: "'q \<Rightarrow> bool"
  assumes push_None: "ok q \<Longrightarrow> push q x = None \<longleftrightarrow> length (contents q) = room q"
    and push_Some: "ok q \<Longrightarrow> push q x = Some q' \<Longrightarrow>
      ok q' \<and> room q' = room q \<and> contents q' = contents q @ [x]"
    and pop_None: "ok q \<Longrightarrow> pop q = None \<longleftrightarrow> contents q = []"
    and pop_Some: "ok q \<Longrightarrow> pop q = Some (x, q') \<Longrightarrow>
      ok q' \<and> room q' = room q \<and> contents q = x # contents q'"
    and within_room: "ok q \<Longrightarrow> length (contents q) \<le> room q"
begin

lemma pop_Cons:
  assumes "ok q" and "contents q = x # xs"
  obtains q' where "pop q = Some (x, q')" and "ok q'" and "contents q' = xs" and "room q' = room q"
proof -
  have "pop q \<noteq> None"
    using assms pop_None [of q] by simp
  then obtain y q' where q': "pop q = Some (y, q')"
    by auto
  from pop_Some [OF assms(1) q'] assms(2) q' that show thesis
    by simp
qed

lemma push_room:
  assumes "ok q" and "length (contents q) < room q"
  obtains q' where "push q x = Some q'" and "ok q'" and "contents q' = contents q @ [x]"
    and "room q' = room q"
proof -
  have "push q x \<noteq> None"
    using assms push_None [of q x] by simp
  then obtain q' where q': "push q x = Some q'"
    by auto
  from push_Some [OF assms(1) q'] q' that show thesis
    by simp
qed

lemma push_pop_fifo:
  assumes "ok q" and "push q x = Some q'" and "pop q' = Some (y, q'')"
  shows "y # contents q'' = contents q @ [x]"
  using push_Some [OF assms(1,2)] pop_Some [OF _ assms(3)] by simp

end

interpretation sq: bounded_fifo spsc_push spsc_pop spsc_list "\<lambda>q. length (buffer q) - 1" spsc_inv
proof (unfold_locales, goal_cases)
  case (1 q x)
  then show ?case
    using ring_count_full [of "head_ix q" "length (buffer q)" "tail_ix q"]
    by (simp add: spsc_push_def spsc_next spsc_inv_def spsc_list_def length_ring_slots Let_def)
next
  case (2 q x q')
  let ?w = "q\<lparr>buffer := (buffer q)[head_ix q := x]\<rparr>"
  from 2(2) have n: "(head_ix q + 1) AND spsc_mask q \<noteq> tail_ix q"
    and q': "q' = ?w\<lparr>head_ix := (head_ix ?w + 1) AND spsc_mask ?w\<rparr>"
    by (auto simp: spsc_push_def Let_def split: if_splits)
  have w: "spsc_inv ?w"
    using 2(1) by (rule spsc_inv_update)
  have "spsc_list q' = spsc_list ?w @ [buffer ?w ! head_ix ?w]"
    unfolding q' using n w by (intro spsc_list_publish) simp_all
  moreover have "buffer ?w ! head_ix ?w = x"
    using 2(1) by (simp add: spsc_inv_def)
  ultimately show ?case
    using spsc_inv_update(1) [OF w] 2(1) by (simp add: q' spsc_list_write)
next
  case (3 q)
  then show ?case
    by (auto simp: spsc_pop_def spsc_list_def spsc_inv_def ring_slots_Nil)
next
  case (4 q x q')
  then have "tail_ix q \<noteq> head_ix q" and "x = buffer q ! tail_ix q"
    and q': "q' = q\<lparr>tail_ix := (tail_ix q + 1) AND spsc_mask q\<rparr>"
    by (auto simp: spsc_pop_def split: if_splits)
  then show ?case
    using spsc_list_consume [OF 4(1)] spsc_inv_update(2) [OF 4(1)] by simp
next
  case (5 q)
  then show ?case
    by (auto simp: spsc_list_def length_ring_slots ring_count_def spsc_inv_def)
qed

lemma spsc_init_inv: "pow2 cap \<Longrightarrow> spsc_inv (spsc_init cap d) \<and> spsc_list (spsc_init cap d) = []"
  by (simp add: spsc_inv_def spsc_init_def pow2_pos spsc_list_def ring_slots_def ring_count_def)

lemma spsc_empty_iff: "spsc_inv q \<Longrightarrow> spsc_empty q \<longleftrightarrow> spsc_list q = []"
  by (simp add: spsc_empty_def spsc_list_def spsc_inv_def ring_slots_Nil)

section \<open>Two threads on one ring\<close>

text \<open>
  The producer runs \<^verbatim>\<open>push\<close> and the consumer runs \<^verbatim>\<open>pop\<close>, one memory access per step, in
  any order. Each index has a single writer, and it is published with release and read
  with acquire ordering, so a thread sees the other's slots as of the index value it
  read; the model interleaves the accesses. The program counters hold the local
  variables that are live at that point, \<open>sent\<close> and \<open>received\<close> record the items of the
  completed \<^verbatim>\<open>push\<close> and \<^verbatim>\<open>pop\<close> calls.
\<close>

datatype 'a producer_pc =
    P_idle
  | P_loaded_head 'a nat          \<comment> \<open>item, head\<close>
  | P_not_full 'a nat nat         \<comment> \<open>item, head, next; the slot is about to be written\<close>
  | P_written 'a nat nat          \<comment> \<open>item, head, next; head is about to be stored\<close>

datatype 'a consumer_pc =
    C_idle
  | C_loaded_tail nat
  | C_not_empty nat               \<comment> \<open>tail; the slot is about to be read\<close>
  | C_read nat 'a                 \<comment> \<open>tail, out; tail is about to be stored\<close>

record 'a spsc_sys =
  ring :: "'a spsc"
  ppc :: "'a producer_pc"
  cpc :: "'a consumer_pc"
  sent :: "'a list"
  received :: "'a list"

inductive spsc_step :: "'a spsc_sys \<Rightarrow> 'a spsc_sys \<Rightarrow> bool" where
  push_load_head:
    "ppc s = P_idle \<Longrightarrow> spsc_step s (s\<lparr>ppc := P_loaded_head x (head_ix (ring s))\<rparr>)"
| push_full:
    "ppc s = P_loaded_head x h \<Longrightarrow> (h + 1) AND spsc_mask (ring s) = tail_ix (ring s) \<Longrightarrow>
     spsc_step s (s\<lparr>ppc := P_idle\<rparr>)"
| push_not_full:
    "ppc s = P_loaded_head x h \<Longrightarrow> (h + 1) AND spsc_mask (ring s) \<noteq> tail_ix (ring s) \<Longrightarrow>
     spsc_step s (s\<lparr>ppc := P_not_full x h ((h + 1) AND spsc_mask (ring s))\<rparr>)"
| push_write:
    "ppc s = P_not_full x h n \<Longrightarrow>
     spsc_step s (s\<lparr>ppc := P_written x h n, ring := (ring s)\<lparr>buffer := (buffer (ring s))[h := x]\<rparr>\<rparr>)"
| push_store_head:
    "ppc s = P_written x h n \<Longrightarrow>
     spsc_step s (s\<lparr>ppc := P_idle, ring := (ring s)\<lparr>head_ix := n\<rparr>, sent := sent s @ [x]\<rparr>)"
| pop_load_tail:
    "cpc s = C_idle \<Longrightarrow> spsc_step s (s\<lparr>cpc := C_loaded_tail (tail_ix (ring s))\<rparr>)"
| pop_is_empty:
    "cpc s = C_loaded_tail t \<Longrightarrow> t = head_ix (ring s) \<Longrightarrow> spsc_step s (s\<lparr>cpc := C_idle\<rparr>)"
| pop_not_empty:
    "cpc s = C_loaded_tail t \<Longrightarrow> t \<noteq> head_ix (ring s) \<Longrightarrow> spsc_step s (s\<lparr>cpc := C_not_empty t\<rparr>)"
| pop_read:
    "cpc s = C_not_empty t \<Longrightarrow> spsc_step s (s\<lparr>cpc := C_read t (buffer (ring s) ! t)\<rparr>)"
| pop_store_tail:
    "cpc s = C_read t x \<Longrightarrow>
     spsc_step s (s\<lparr>cpc := C_idle, ring := (ring s)\<lparr>tail_ix := (t + 1) AND spsc_mask (ring s)\<rparr>,
                    received := received s @ [x]\<rparr>)"

inductive spsc_reach :: "nat \<Rightarrow> 'a \<Rightarrow> 'a spsc_sys \<Rightarrow> bool" for cap d where
  reach_init: "spsc_reach cap d
     \<lparr>ring = spsc_init cap d, ppc = P_idle, cpc = C_idle, sent = [], received = []\<rparr>"
| reach_step: "spsc_reach cap d s \<Longrightarrow> spsc_step s s' \<Longrightarrow> spsc_reach cap d s'"

text \<open>
  The invariant: locals agree with the shared indices they were read from, a producer
  past its check still has a free slot, a consumer past its check still has a full one,
  and the received items followed by the ring's contents are the sent items.
\<close>

fun producer_ok :: "'a spsc \<Rightarrow> 'a producer_pc \<Rightarrow> bool" where
  "producer_ok q P_idle \<longleftrightarrow> True"
| "producer_ok q (P_loaded_head x h) \<longleftrightarrow> h = head_ix q"
| "producer_ok q (P_not_full x h n) \<longleftrightarrow>
     h = head_ix q \<and> n = (h + 1) AND spsc_mask q \<and> n \<noteq> tail_ix q"
| "producer_ok q (P_written x h n) \<longleftrightarrow>
     h = head_ix q \<and> n = (h + 1) AND spsc_mask q \<and> n \<noteq> tail_ix q \<and> buffer q ! h = x"

fun consumer_ok :: "'a spsc \<Rightarrow> 'a consumer_pc \<Rightarrow> bool" where
  "consumer_ok q C_idle \<longleftrightarrow> True"
| "consumer_ok q (C_loaded_tail t) \<longleftrightarrow> t = tail_ix q"
| "consumer_ok q (C_not_empty t) \<longleftrightarrow> t = tail_ix q \<and> t \<noteq> head_ix q"
| "consumer_ok q (C_read t x) \<longleftrightarrow> t = tail_ix q \<and> t \<noteq> head_ix q \<and> buffer q ! t = x"

definition spsc_sys_inv :: "'a spsc_sys \<Rightarrow> bool" where
  "spsc_sys_inv s \<longleftrightarrow> spsc_inv (ring s) \<and> producer_ok (ring s) (ppc s) \<and>
     consumer_ok (ring s) (cpc s) \<and> sent s = received s @ spsc_list (ring s)"

lemma spsc_succ_inj:
  assumes "spsc_inv q"
  shows "(head_ix q + 1) AND spsc_mask q = (tail_ix q + 1) AND spsc_mask q \<longleftrightarrow> head_ix q = tail_ix q"
  using assms by (simp add: spsc_next) (auto simp: spsc_inv_def ring_next split: if_splits)

lemma spsc_sys_inv_step:
  assumes "spsc_step s s'" and "spsc_sys_inv s"
  shows "spsc_sys_inv s'"
  using assms
proof (induction rule: spsc_step.induct)
  case (push_write s x h n)
  then show ?case
    by (cases "cpc s")
      (auto simp: spsc_sys_inv_def spsc_inv_update spsc_list_write, auto simp: spsc_inv_def)
next
  case (push_store_head s x h n)
  then show ?case
    using spsc_list_publish [of "ring s"]
    by (cases "cpc s") (auto simp: spsc_sys_inv_def spsc_inv_update)
next
  case (pop_store_tail s t x)
  then show ?case
    using spsc_list_consume [of "ring s"] spsc_succ_inj [of "ring s"]
    by (cases "ppc s") (auto simp: spsc_sys_inv_def spsc_inv_update)
qed (auto simp: spsc_sys_inv_def)

lemma spsc_reach_inv:
  assumes "spsc_reach cap d s" and "pow2 cap"
  shows "spsc_sys_inv s"
  using assms(1)
proof (induction rule: spsc_reach.induct)
  case reach_init
  show ?case
    using spsc_init_inv [OF assms(2), of d] by (simp add: spsc_sys_inv_def)
next
  case (reach_step s s')
  then show ?case by (blast intro: spsc_sys_inv_step)
qed

text \<open>
  (C14) Every interleaving of one \<^verbatim>\<open>push\<close> thread and one \<^verbatim>\<open>pop\<close> thread delivers first in
  first out: the items of the completed pushes are the items of the completed pops
  followed by what is in the ring, and the ring never holds more than capacity minus one.
\<close>
theorem spsc_threads_fifo:
  assumes "spsc_reach cap d s" and "pow2 cap"
  shows "sent s = received s @ spsc_list (ring s) \<and> length (spsc_list (ring s)) < cap"
proof -
  have "length (buffer (ring s)) = cap"
    using assms(1) by (induction rule: spsc_reach.induct) (auto simp: spsc_init_def elim!: spsc_step.cases)
  moreover have inv: "spsc_sys_inv s"
    using assms by (rule spsc_reach_inv)
  then have "length (spsc_list (ring s)) \<le> length (buffer (ring s)) - 1"
    by (intro sq.within_room) (simp add: spsc_sys_inv_def)
  ultimately show ?thesis
    using inv pow2_pos [OF assms(2)] by (auto simp: spsc_sys_inv_def)
qed

text \<open>
  The two threads never race on a slot: when the producer is about to write the slot
  \<open>h\<close> and the consumer about to read the slot \<open>t\<close>, these are different slots.
\<close>
lemma spsc_no_slot_race:
  assumes "spsc_reach cap d s" and "pow2 cap" and "ppc s = P_not_full x h n" and "cpc s = C_not_empty t"
  shows "h \<noteq> t \<and> h < length (buffer (ring s)) \<and> t < length (buffer (ring s))"
  using spsc_reach_inv [OF assms(1,2)] assms(3,4) by (auto simp: spsc_sys_inv_def spsc_inv_def)

text \<open>A run in which one item is pushed, then a second push and a pop overlap.\<close>

lemma demo_pushed:
  "spsc_reach 4 d \<lparr>ring = \<lparr>buffer = [x, d, d, d], head_ix = 1, tail_ix = 0\<rparr>, ppc = P_idle, cpc = C_idle,
     sent = [x], received = []\<rparr>"
proof -
  have 4: "replicate 4 d = [d, d, d, d]"
    by (simp add: eval_nat_numeral)
  note r = reach_step [where cap = 4 and d = d]
  have a: "spsc_reach 4 d \<lparr>ring = \<lparr>buffer = [d, d, d, d], head_ix = 0, tail_ix = 0\<rparr>, ppc = P_idle, cpc = C_idle, sent = [], received = []\<rparr>"
    using reach_init [of 4 d] by (simp add: spsc_init_def 4)
  have b: "spsc_reach 4 d \<lparr>ring = \<lparr>buffer = [d, d, d, d], head_ix = 0, tail_ix = 0\<rparr>, ppc = P_loaded_head x 0, cpc = C_idle, sent = [], received = []\<rparr>"
    using r [OF a push_load_head, of x] by simp
  have c: "spsc_reach 4 d \<lparr>ring = \<lparr>buffer = [d, d, d, d], head_ix = 0, tail_ix = 0\<rparr>, ppc = P_not_full x 0 1, cpc = C_idle, sent = [], received = []\<rparr>"
    using r [OF b push_not_full] by (simp add: spsc_mask_def)
  have e: "spsc_reach 4 d \<lparr>ring = \<lparr>buffer = [x, d, d, d], head_ix = 0, tail_ix = 0\<rparr>, ppc = P_written x 0 1, cpc = C_idle, sent = [], received = []\<rparr>"
    using r [OF c push_write] by simp
  show ?thesis
    using r [OF e push_store_head] by simp
qed

lemma demo_overlap:
  "spsc_reach 4 d \<lparr>ring = \<lparr>buffer = [x, d, d, d], head_ix = 1, tail_ix = 0\<rparr>, ppc = P_not_full y 1 2, cpc = C_not_empty 0,
     sent = [x], received = []\<rparr>"
proof -
  note r = reach_step [where cap = 4 and d = d]
  have m: "Suc (Suc 0) AND Suc (Suc (Suc 0)) = (2 :: nat)"
    by code_simp
  have b: "spsc_reach 4 d \<lparr>ring = \<lparr>buffer = [x, d, d, d], head_ix = 1, tail_ix = 0\<rparr>, ppc = P_loaded_head y 1, cpc = C_idle, sent = [x], received = []\<rparr>"
    using r [OF demo_pushed push_load_head, of x y] by simp
  have c: "spsc_reach 4 d \<lparr>ring = \<lparr>buffer = [x, d, d, d], head_ix = 1, tail_ix = 0\<rparr>, ppc = P_not_full y 1 2, cpc = C_idle, sent = [x], received = []\<rparr>"
    using r [OF b push_not_full] by (simp add: spsc_mask_def m)
  have e: "spsc_reach 4 d \<lparr>ring = \<lparr>buffer = [x, d, d, d], head_ix = 1, tail_ix = 0\<rparr>, ppc = P_not_full y 1 2, cpc = C_loaded_tail 0, sent = [x], received = []\<rparr>"
    using r [OF c pop_load_tail] by simp
  show ?thesis
    using r [OF e pop_not_empty] by simp
qed

lemma pow2_4 [simp]: "pow2 4"
  unfolding pow2_def by (rule exI [of _ 2]) simp

theorem spsc_threads_fifo_witness:
  "[True] = [] @ spsc_list \<lparr>buffer = [True, False, False, False], head_ix = 1, tail_ix = 0\<rparr>"
  using spsc_threads_fifo [OF demo_overlap [of False True False] pow2_4] by simp

end
