(* ===== verification/Broadcast_Ring.thy ===== *)
theory Broadcast_Ring
  imports Spsc_Ring
begin

text \<open>
  The one-writer many-reader ring of \<^verbatim>\<open>include/broadcast_ring.hpp\<close>. Cursors are 64-bit
  words that only grow; a slot index is a cursor masked by the capacity. Reading a
  cursor array entry beyond \<^verbatim>\<open>MaxConsumers\<close> is undefined in the source and is the outer
  \<^const>\<open>None\<close> here. The theory relates a ring to the list of everything ever published
  and shows that each registered reader reads exactly that list, in order, and that the
  writer never overwrites an item a reader still has to read.
\<close>

section \<open>The ring\<close>

record 'a bring =
  write_cursor :: u64
  cached_min :: u64
  consumer_count :: nat
  cursors :: "u64 list"
  slots :: "'a list"

definition bring_init :: "nat \<Rightarrow> nat \<Rightarrow> 'a \<Rightarrow> 'a bring" where
  "bring_init maxc cap d =
     \<lparr> write_cursor = 0, cached_min = 0, consumer_count = 0,
       cursors = replicate maxc 0, slots = replicate cap d \<rparr>"

definition register_consumer :: "'a bring \<Rightarrow> nat \<times> 'a bring" where
  "register_consumer b = (consumer_count b, b\<lparr>consumer_count := consumer_count b + 1\<rparr>)"

definition slot_index :: "'a bring \<Rightarrow> u64 \<Rightarrow> nat" where
  "slot_index b w = unat (w AND (of_nat (length (slots b)) - 1))"

definition scan_min_consumer_cursor :: "'a bring \<Rightarrow> u64 option" where
  "scan_min_consumer_cursor b =
     (let n = consumer_count b
      in if length (cursors b) < n then None
         else let mn = fold (\<lambda>c mn. if c < mn then c else mn) (take n (cursors b)) (- 1)
              in Some (if n = 0 then write_cursor b else mn))"

definition bring_put :: "'a bring \<Rightarrow> 'a \<Rightarrow> 'a bring" where
  "bring_put b x =
     b\<lparr>slots := (slots b)[slot_index b (write_cursor b) := x], write_cursor := write_cursor b + 1\<rparr>"

definition try_publish :: "'a bring \<Rightarrow> 'a \<Rightarrow> (bool \<times> 'a bring) option" where
  "try_publish b x =
     (let write = write_cursor b
      in if of_nat (length (slots b)) \<le> write - cached_min b
         then (case scan_min_consumer_cursor b of
                 None \<Rightarrow> None
               | Some fresh_min \<Rightarrow>
                   let b' = b\<lparr>cached_min := fresh_min\<rparr>
                   in if of_nat (length (slots b)) \<le> write - fresh_min then Some (False, b')
                      else Some (True, bring_put b' x))
         else Some (True, bring_put b x))"

definition try_consume :: "'a bring \<Rightarrow> nat \<Rightarrow> ('a \<times> 'a bring) option option" where
  "try_consume b cid =
     (if length (cursors b) \<le> cid then None
      else let read = cursors b ! cid
           in if write_cursor b \<le> read then Some None
              else Some (Some (slots b ! slot_index b read,
                               b\<lparr>cursors := (cursors b)[cid := read + 1]\<rparr>)))"

definition published_count :: "'a bring \<Rightarrow> u64" where
  "published_count b = write_cursor b"

section \<open>The published history\<close>

text \<open>
  \<open>bring_hist b hist\<close>: \<open>hist\<close> is everything published so far; every registered reader is
  at most one capacity behind, the cached minimum is a lower bound of the readers'
  cursors, and the last \<open>capacity\<close> items are in their slots.
\<close>

definition bring_hist :: "'a bring \<Rightarrow> 'a list \<Rightarrow> bool" where
  "bring_hist b hist \<longleftrightarrow>
     pow2 (length (slots b)) \<and> length (slots b) < 2 ^ 64 \<and> length hist < 2 ^ 64 \<and>
     consumer_count b \<le> length (cursors b) \<and>
     unat (write_cursor b) = length hist \<and>
     cached_min b \<le> write_cursor b \<and>
     length hist \<le> unat (cached_min b) + length (slots b) \<and>
     (\<forall>i < consumer_count b. cached_min b \<le> cursors b ! i \<and> cursors b ! i \<le> write_cursor b) \<and>
     (\<forall>i < length (cursors b). consumer_count b \<le> i \<longrightarrow> cursors b ! i = 0) \<and>
     (\<forall>k < length hist. length hist \<le> k + length (slots b) \<longrightarrow>
        slots b ! (k mod length (slots b)) = hist ! k)"

lemma slot_index_mod:
  assumes "pow2 (length (slots b))" and "length (slots b) < 2 ^ 64"
  shows "slot_index b w = unat w mod length (slots b)"
proof -
  from assms obtain k where k: "length (slots b) = 2 ^ k" and "(2::nat) ^ k < 2 ^ 64"
    by (auto simp: pow2_def)
  then have "k < 64"
    by (metis power_less_imp_less_exp one_less_numeral_iff semiring_norm(76))
  have "of_nat (length (slots b)) - 1 = (mask k :: u64)"
    using k by (simp add: mask_eq_exp_minus_1)
  then have "slot_index b w = unat (take_bit k w)"
    by (simp only: slot_index_def take_bit_eq_mask)
  also have "\<dots> = take_bit k (unat w)"
    by (simp only: unsigned_take_bit_eq)
  finally show ?thesis
    by (simp only: k take_bit_eq_mod)
qed

lemma scan_fold_le:
  fixes cs :: "'a::linorder list"
  shows "(\<forall>c \<in> set cs. fold (\<lambda>c m. if c < m then c else m) cs m \<le> c) \<and>
    fold (\<lambda>c m. if c < m then c else m) cs m \<le> m \<and>
    fold (\<lambda>c m. if c < m then c else m) cs m \<in> insert m (set cs)"
proof (induction cs arbitrary: m)
  case Nil
  then show ?case by simp
next
  case (Cons c cs)
  from Cons.IH [of "if c < m then c else m"] show ?case
    by (auto split: if_splits)
qed

text \<open>The number of items reader \<open>i\<close> has consumed.\<close>

definition reader_pos :: "'a bring \<Rightarrow> nat \<Rightarrow> nat" where
  "reader_pos b i = unat (cursors b ! i)"

lemma bring_hist_init:
  "pow2 cap \<Longrightarrow> cap < 2 ^ 64 \<Longrightarrow> bring_hist (bring_init maxc cap d) []"
  by (simp add: bring_hist_def bring_init_def)

lemma bring_hist_register:
  assumes "bring_hist b hist" and "consumer_count b < length (cursors b)" and "cached_min b = 0"
  shows "bring_hist (snd (register_consumer b)) hist"
  using assms by (auto simp: bring_hist_def register_consumer_def less_Suc_eq)

lemma reader_bounds:
  assumes "bring_hist b hist" and "i < consumer_count b"
  shows "reader_pos b i \<le> length hist" and "length hist \<le> reader_pos b i + length (slots b)"
  using assms by (auto simp: bring_hist_def reader_pos_def word_le_nat_alt intro: order_trans)

lemma bring_hist_put:
  assumes h: "bring_hist b hist" and room: "length hist < unat (cached_min b) + length (slots b)"
    and fits: "Suc (length hist) < 2 ^ 64"
  shows "bring_hist (bring_put b x) (hist @ [x])"
proof -
  let ?c = "length (slots b)"
  have c: "pow2 ?c" "?c < 2 ^ 64" and c0: "0 < ?c" and w: "unat (write_cursor b) = length hist"
    using h by (auto simp: bring_hist_def dest: pow2_pos)
  have w': "unat (write_cursor b + 1) = Suc (length hist)"
    using w fits by (simp add: unat_word_ariths)
  then have grow: "write_cursor b \<le> write_cursor b + 1"
    by (simp add: word_le_nat_alt w)
  have ix: "slot_index b (write_cursor b) = length hist mod ?c"
    using slot_index_mod [OF c] w by simp
  have old: "(slots b)[length hist mod ?c := x] ! (k mod ?c) = hist ! k"
    if "k < length hist" "Suc (length hist) \<le> k + ?c" for k
  proof -
    have "k mod ?c \<noteq> length hist mod ?c"
    proof
      assume "k mod ?c = length hist mod ?c"
      then have "?c dvd length hist - k"
        using that(1) by (metis mod_eq_dvd_iff_nat less_imp_le_nat)
      then have "?c \<le> length hist - k"
        using that(1) by (intro dvd_imp_le) simp_all
      with that show False by simp
    qed
    then show ?thesis
      using h that by (simp add: bring_hist_def)
  qed
  have new: "(slots b)[length hist mod ?c := x] ! (length hist mod ?c) = x"
    using c0 by simp
  show ?thesis
    using h room fits w' grow old new
    by (auto simp: bring_hist_def bring_put_def ix nth_append less_Suc_eq intro: order_trans)
qed

lemma scan_min_spec:
  assumes h: "bring_hist b hist"
  obtains m where "scan_min_consumer_cursor b = Some m" and "cached_min b \<le> m"
    and "m \<le> write_cursor b" and "\<forall>i < consumer_count b. m \<le> cursors b ! i"
    and "consumer_count b = 0 \<Longrightarrow> m = write_cursor b"
    and "0 < consumer_count b \<Longrightarrow> \<exists>i < consumer_count b. cursors b ! i = m"
proof -
  let ?n = "consumer_count b"
  define m where "m = fold (\<lambda>c m. if c < m then c else m) (take ?n (cursors b)) (- 1)"
  have n: "?n \<le> length (cursors b)"
    using h by (simp add: bring_hist_def)
  have scan: "scan_min_consumer_cursor b = Some (if ?n = 0 then write_cursor b else m)"
    using n by (simp add: scan_min_consumer_cursor_def m_def Let_def)
  show thesis
  proof (cases "?n = 0")
    case True
    with scan h that show thesis by (auto simp: bring_hist_def)
  next
    case False
    note m = scan_fold_le [of "take ?n (cursors b)" "- 1", folded m_def]
    have le: "m \<le> cursors b ! i" if "i < ?n" for i
      using m that n by (metis in_set_conv_nth length_take min.absorb2 nth_take)
    have "m \<in> set (take ?n (cursors b))"
    proof (cases "m = - 1")
      case True
      then have "cursors b ! 0 = m"
        using le [of 0] False by (metis bot_nat_0.not_eq_extremum word_order.extremum_uniqueI)
      with False n show ?thesis
        by (metis bot_nat_0.not_eq_extremum in_set_conv_nth length_take min.absorb2 nth_take)
    next
      case False
      with m show ?thesis by blast
    qed
    then obtain i where i: "i < ?n" "cursors b ! i = m"
      using n by (auto simp: in_set_conv_nth)
    with h have "cached_min b \<le> m" "m \<le> write_cursor b"
      by (auto simp: bring_hist_def)
    with scan False le i that show thesis by auto
  qed
qed

lemma lag_word:
  assumes "bring_hist b hist" and "(m :: u64) \<le> write_cursor b"
  shows "of_nat (length (slots b)) \<le> write_cursor b - m \<longleftrightarrow> unat m + length (slots b) \<le> length hist"
proof -
  have "unat (of_nat (length (slots b)) :: u64) = length (slots b)"
    using assms(1) by (simp add: bring_hist_def unat_of_nat)
  moreover have "unat (write_cursor b - m) = length hist - unat m"
    using assms by (simp add: unat_sub bring_hist_def)
  moreover have "unat m \<le> length hist"
    using assms by (simp add: word_le_nat_alt bring_hist_def)
  ultimately show ?thesis
    by (auto simp: word_le_nat_alt)
qed

lemma try_publish_spec:
  assumes h: "bring_hist b hist" and fits: "Suc (length hist) < 2 ^ 64"
  obtains ok b' where "try_publish b x = Some (ok, b')"
    and "bring_hist b' (if ok then hist @ [x] else hist)"
    and "cursors b' = cursors b" and "consumer_count b' = consumer_count b"
    and "length (slots b') = length (slots b)"
    and "ok \<longleftrightarrow> (\<forall>i < consumer_count b. length hist < reader_pos b i + length (slots b))"
proof (cases "of_nat (length (slots b)) \<le> write_cursor b - cached_min b")
  case False
  have cm: "cached_min b \<le> write_cursor b"
    using h by (simp add: bring_hist_def)
  have room: "length hist < unat (cached_min b) + length (slots b)"
    using False lag_word [OF h cm] by simp
  moreover have "\<forall>i < consumer_count b. length hist < reader_pos b i + length (slots b)"
    using h room by (auto simp: bring_hist_def reader_pos_def word_le_nat_alt)
  ultimately show thesis
    using False bring_hist_put [OF h room fits, of x] that [of True "bring_put b x"]
    by (simp add: try_publish_def bring_put_def Let_def)
next
  case True
  from scan_min_spec [OF h] obtain m where m: "scan_min_consumer_cursor b = Some m"
    "cached_min b \<le> m" "m \<le> write_cursor b" "\<forall>i < consumer_count b. m \<le> cursors b ! i"
    "0 < consumer_count b \<Longrightarrow> \<exists>i < consumer_count b. cursors b ! i = m"
    "consumer_count b = 0 \<Longrightarrow> m = write_cursor b"
    by metis
  let ?b = "b\<lparr>cached_min := m\<rparr>"
  have h': "bring_hist ?b hist"
    using h m(2-4) by (auto simp: bring_hist_def word_le_nat_alt)
  note lag = lag_word [OF h m(3)]
  show thesis
  proof (cases "of_nat (length (slots b)) \<le> write_cursor b - m")
    case full: True
    have "consumer_count b \<noteq> 0"
    proof
      assume "consumer_count b = 0"
      with m(6) full lag h show False
        by (auto simp: bring_hist_def dest: pow2_pos)
    qed
    with m(5) obtain i where "i < consumer_count b" "cursors b ! i = m"
      by auto
    then have "\<not> (\<forall>i < consumer_count b. length hist < reader_pos b i + length (slots b))"
      using full lag by (auto simp: reader_pos_def)
    with full True m(1) h' show thesis
      by (intro that [of False ?b]) (simp_all add: try_publish_def Let_def)
  next
    case free: False
    then have room: "length hist < unat (cached_min ?b) + length (slots ?b)"
      using lag by simp
    then have "\<forall>i < consumer_count b. length hist < reader_pos b i + length (slots b)"
      using m(4) by (auto simp: reader_pos_def word_le_nat_alt)
    with free True m(1) bring_hist_put [OF h' room fits, of x] show thesis
      by (intro that [of True "bring_put ?b x"]) (simp_all add: try_publish_def bring_put_def Let_def)
  qed
qed

lemma try_consume_spec:
  assumes h: "bring_hist b hist" and i: "i < consumer_count b"
  shows "if reader_pos b i = length hist then try_consume b i = Some None
    else \<exists>b'. try_consume b i = Some (Some (hist ! reader_pos b i, b')) \<and> bring_hist b' hist \<and>
      reader_pos b' = (reader_pos b)(i := Suc (reader_pos b i)) \<and>
      consumer_count b' = consumer_count b \<and> write_cursor b' = write_cursor b"
proof -
  let ?r = "cursors b ! i"
  have len: "i < length (cursors b)" and c: "pow2 (length (slots b))" "length (slots b) < 2 ^ 64"
    and w: "unat (write_cursor b) = length hist"
    using h i by (auto simp: bring_hist_def)
  have pos: "reader_pos b i \<le> length hist" "length hist \<le> reader_pos b i + length (slots b)"
    using reader_bounds [OF h i] by auto
  have at_end: "write_cursor b \<le> ?r \<longleftrightarrow> reader_pos b i = length hist"
    using pos(1) w by (auto simp: word_le_nat_alt reader_pos_def)
  show ?thesis
  proof (cases "reader_pos b i = length hist")
    case True
    with at_end len show ?thesis by (simp add: try_consume_def Let_def)
  next
    case False
    define b' where "b' = b\<lparr>cursors := (cursors b)[i := ?r + 1]\<rparr>"
    have lt: "reader_pos b i < length hist"
      using False pos by simp
    have r': "unat (?r + 1) = Suc (unat ?r)"
      using lt h by (simp add: unat_word_ariths reader_pos_def bring_hist_def)
    have "slots b ! slot_index b ?r = hist ! reader_pos b i"
      using h lt pos(2) slot_index_mod [OF c, of ?r] by (simp add: bring_hist_def reader_pos_def)
    then have "try_consume b i = Some (Some (hist ! reader_pos b i, b'))"
      using at_end False len by (simp add: try_consume_def b'_def Let_def)
    moreover have "bring_hist b' hist"
      using h i len lt r' w
      by (auto simp: bring_hist_def b'_def nth_list_update word_le_nat_alt reader_pos_def)
    moreover have "reader_pos b' = (reader_pos b)(i := Suc (reader_pos b i))"
      using len r' by (auto simp: b'_def reader_pos_def fun_eq_iff)
    ultimately show ?thesis
      using False by (simp add: b'_def)
  qed
qed

section \<open>What a consumer of the ring relies on\<close>

text \<open>
  The loops every consumer thread runs over the ring: a bounded batch
  (\<^verbatim>\<open>for (int i = 0; i < n && ring.try_consume(id, ev); ++i) apply(ev)\<close>, returning how many
  events it handled) and the final drain (\<^verbatim>\<open>while (ring.try_consume(id, ev)) apply(ev)\<close>),
  which in general need not end.
\<close>

fun consume_batch ::
  "('b \<Rightarrow> nat \<Rightarrow> ('e \<times> 'b) option option) \<Rightarrow> nat \<Rightarrow> nat \<Rightarrow> ('e \<Rightarrow> 's \<Rightarrow> 's option) \<Rightarrow> 'b \<Rightarrow> 's
     \<Rightarrow> ('b \<times> 's \<times> nat) option" where
  "consume_batch consume 0 cid f b s = Some (b, s, 0)"
| "consume_batch consume (Suc n) cid f b s =
     (case consume b cid of
        None \<Rightarrow> None
      | Some None \<Rightarrow> Some (b, s, 0)
      | Some (Some (ev, b')) \<Rightarrow>
          (case f ev s of
             None \<Rightarrow> None
           | Some s' \<Rightarrow>
               (case consume_batch consume n cid f b' s' of
                  None \<Rightarrow> None
                | Some (b'', s'', k) \<Rightarrow> Some (b'', s'', Suc k))))"

partial_function (option) consume_all ::
  "('b \<Rightarrow> nat \<Rightarrow> ('e \<times> 'b) option option) \<Rightarrow> nat \<Rightarrow> ('e \<Rightarrow> 's \<Rightarrow> 's option) \<Rightarrow> 'b \<Rightarrow> 's
     \<Rightarrow> ('b \<times> 's) option" where
  "consume_all consume cid f b s =
     (case consume b cid of
        None \<Rightarrow> None
      | Some None \<Rightarrow> Some (b, s)
      | Some (Some (ev, b')) \<Rightarrow>
          (case f ev s of None \<Rightarrow> None | Some s' \<Rightarrow> consume_all consume cid f b' s'))"

locale event_log =
  fixes consume :: "'b \<Rightarrow> nat \<Rightarrow> ('e \<times> 'b) option option"
    and log :: "'b \<Rightarrow> 'e list \<Rightarrow> bool"
    and pos :: "'b \<Rightarrow> nat \<Rightarrow> nat"
    and readers :: "'b \<Rightarrow> nat"
  assumes pos_le: "log b es \<Longrightarrow> i < readers b \<Longrightarrow> pos b i \<le> length es"
    and consume_end: "log b es \<Longrightarrow> i < readers b \<Longrightarrow> pos b i = length es \<Longrightarrow> consume b i = Some None"
    and consume_next: "log b es \<Longrightarrow> i < readers b \<Longrightarrow> pos b i < length es \<Longrightarrow>
      \<exists>b'. consume b i = Some (Some (es ! pos b i, b')) \<and> log b' es \<and>
        pos b' = (pos b)(i := Suc (pos b i)) \<and> readers b' = readers b"
begin

lemma consume_batch_log:
  assumes "log b es" and "i < readers b"
    and "fold_opt f (take n (drop (pos b i) es)) s = Some s'"
  shows "\<exists>b'. consume_batch consume n i f b s = Some (b', s', min n (length es - pos b i)) \<and>
    log b' es \<and> pos b' = (pos b)(i := pos b i + min n (length es - pos b i)) \<and> readers b' = readers b"
  using assms
proof (induction n arbitrary: b s)
  case 0
  then show ?case by simp
next
  case (Suc n)
  show ?case
  proof (cases "pos b i < length es")
    case False
    with Suc.prems have "pos b i = length es"
      using pos_le [of b es i] by simp
    with Suc.prems show ?thesis
      using consume_end [of b es i] by (auto simp: fun_eq_iff)
  next
    case True
    from consume_next [OF Suc.prems(1,2) True] obtain b' where b':
      "consume b i = Some (Some (es ! pos b i, b'))" "log b' es"
      "pos b' = (pos b)(i := Suc (pos b i))" "readers b' = readers b"
      by blast
    have "drop (pos b i) es = es ! pos b i # drop (Suc (pos b i)) es"
      using True by (simp add: Cons_nth_drop_Suc)
    with Suc.prems(3) obtain s1 where s1: "f (es ! pos b i) s = Some s1"
      "fold_opt f (take n (drop (pos b' i) es)) s1 = Some s'"
      by (auto simp: b'(3) split: option.splits)
    have "i < readers b'"
      using Suc.prems(2) b'(4) by simp
    from Suc.IH [OF b'(2) this s1(2)] obtain b'' where
      "consume_batch consume n i f b' s1 = Some (b'', s', min n (length es - pos b' i))" "log b'' es"
      "pos b'' = (pos b')(i := pos b' i + min n (length es - pos b' i))" "readers b'' = readers b'"
      by blast
    moreover have "Suc (min n (length es - Suc (pos b i))) = min (Suc n) (length es - pos b i)"
      using True by simp
    ultimately show ?thesis
      using b' s1(1) by (simp add: fun_eq_iff flip: add_Suc_right)
  qed
qed

lemma consume_all_log:
  assumes "log b es" and "i < readers b" and "fold_opt f (drop (pos b i) es) s = Some s'"
  shows "\<exists>b'. consume_all consume i f b s = Some (b', s') \<and> log b' es \<and>
    pos b' = (pos b)(i := length es) \<and> readers b' = readers b"
  using assms
proof (induction "length es - pos b i" arbitrary: b s)
  case 0
  then have "pos b i = length es"
    using pos_le [of b es i] by simp
  with "0.prems" show ?case
    using consume_end [of b es i]
    by (subst consume_all.simps) (auto simp: fun_eq_iff)
next
  case (Suc m)
  then have lt: "pos b i < length es" by simp
  from consume_next [OF Suc.prems(1,2) lt] obtain b' where b':
    "consume b i = Some (Some (es ! pos b i, b'))" "log b' es"
    "pos b' = (pos b)(i := Suc (pos b i))" "readers b' = readers b"
    by blast
  have "drop (pos b i) es = es ! pos b i # drop (Suc (pos b i)) es"
    using lt by (simp add: Cons_nth_drop_Suc)
  with Suc.prems(3) obtain s1 where s1: "f (es ! pos b i) s = Some s1"
    "fold_opt f (drop (pos b' i) es) s1 = Some s'"
    by (auto simp: b'(3) split: option.splits)
  have "m = length es - pos b' i"
    using Suc.hyps(2) by (simp add: b'(3))
  moreover have "i < readers b'"
    using Suc.prems(2) b'(4) by simp
  ultimately obtain b'' where
    "consume_all consume i f b' s1 = Some (b'', s')" "log b'' es"
    "pos b'' = (pos b')(i := length es)" "readers b'' = readers b'"
    using Suc.hyps(1) [OF _ b'(2) _ s1(2)] by blast
  with b' s1(1) show ?case
    by (subst consume_all.simps) simp
qed

end

interpretation bl: event_log try_consume bring_hist reader_pos consumer_count
proof (unfold_locales, goal_cases)
  case (1 b es i)
  then show ?case by (rule reader_bounds)
next
  case (2 b es i)
  then show ?case using try_consume_spec [of b es i] by simp
next
  case (3 b es i)
  then show ?case using try_consume_spec [of b es i] by auto
qed

end
