(* ===== verification/Engine_Correct.thy ===== *)
theory Engine_Correct
  imports Matching_Engine
begin

text \<open>
  Correctness of the matching engine: the acknowledgements of each event, the agreement
  of \<^verbatim>\<open>resting_\<close> and \<^verbatim>\<open>by_client_\<close> with the book, safety for every event stream with
  increasing sequence numbers, and equality of the batched consumer loop with a replay
  of the recorded stream.
\<close>

section \<open>Acknowledging touches the queues only\<close>

lemma push_ack_select [simp]:
  "eng_book (push_ack env a e) = eng_book e" "by_client (push_ack env a e) = by_client e"
  "resting (push_ack env a e) = resting e" "eng_trades (push_ack env a e) = eng_trades e"
  by (auto simp: push_ack_def split: prod.splits bool.splits option.splits)

lemma push_ack_update [simp]:
  "push_ack env a (e\<lparr>by_client := m\<rparr>) = (push_ack env a e)\<lparr>by_client := m\<rparr>"
  "push_ack env a (e\<lparr>resting := r\<rparr>) = (push_ack env a e)\<lparr>resting := r\<rparr>"
  "push_ack env a (e\<lparr>eng_book := b\<rparr>) = (push_ack env a e)\<lparr>eng_book := b\<rparr>"
  "push_ack env a (e\<lparr>eng_trades := t\<rparr>) = (push_ack env a e)\<lparr>eng_trades := t\<rparr>"
  by (auto simp: push_ack_def split: prod.splits bool.splits option.splits)

definition push_all :: "drain \<Rightarrow> OutboundAck list \<Rightarrow> engine \<Rightarrow> engine" where
  "push_all env as e = fold (push_ack env) as e"

lemma push_all_simps [simp]:
  "push_all env [] e = e" "push_all env (a # as) e = push_all env as (push_ack env a e)"
  "push_all env (as @ bs) e = push_all env bs (push_all env as e)"
  by (simp_all add: push_all_def)

lemma push_all_select [simp]:
  "eng_book (push_all env as e) = eng_book e" "by_client (push_all env as e) = by_client e"
  "resting (push_all env as e) = resting e" "eng_trades (push_all env as e) = eng_trades e"
  by (induction as arbitrary: e) simp_all

lemma push_all_update [simp]:
  "push_all env as (e\<lparr>by_client := m\<rparr>) = (push_all env as e)\<lparr>by_client := m\<rparr>"
  "push_all env as (e\<lparr>resting := r\<rparr>) = (push_all env as e)\<lparr>resting := r\<rparr>"
  "push_all env as (e\<lparr>eng_book := b\<rparr>) = (push_all env as e)\<lparr>eng_book := b\<rparr>"
  "push_all env as (e\<lparr>eng_trades := t\<rparr>) = (push_all env as e)\<lparr>eng_trades := t\<rparr>"
  by (induction as arbitrary: e) simp_all

lemma push_spin_room:
  assumes "spsc_inv q" and "length (spsc_list q) < length (buffer q) - 1"
  shows "\<exists>q'. push_spin env a n q = (True, q') \<and> spsc_inv q' \<and> length (buffer q') = length (buffer q) \<and>
    spsc_list q' = spsc_list q @ [a]"
proof -
  obtain q' where q': "spsc_push q a = Some q'" "spsc_inv q'" "spsc_list q' = spsc_list q @ [a]"
    by (rule sq.push_room [OF assms])
  moreover have "length (buffer q') = length (buffer q)"
    using q'(1) by (auto simp: spsc_push_def Let_def split: if_splits)
  ultimately show ?thesis
    by (subst push_spin.simps) simp
qed

lemma push_all_room:
  assumes "spsc_inv (acks e)" and "length (spsc_list (acks e)) + length as < length (buffer (acks e))"
  shows "spsc_list (acks (push_all env as e)) = spsc_list (acks e) @ as \<and> spsc_inv (acks (push_all env as e)) \<and>
    acks_dropped (push_all env as e) = acks_dropped e"
  using assms
proof (induction as arbitrary: e)
  case Nil
  then show ?case by simp
next
  case (Cons a as)
  have "length (spsc_list (acks e)) < length (buffer (acks e)) - 1"
    using Cons.prems(2) by simp
  from push_spin_room [OF Cons.prems(1) this, of env a 0] obtain q' where
    q': "push_spin env a 0 (acks e) = (True, q')" "spsc_inv q'" "length (buffer q') = length (buffer (acks e))"
      "spsc_list q' = spsc_list (acks e) @ [a]"
    by blast
  then have "acks (push_ack env a e) = q'" "acks_dropped (push_ack env a e) = acks_dropped e"
    by (auto simp: push_ack_def split: option.splits)
  with Cons.IH [of "push_ack env a e"] Cons.prems q' show ?case by simp
qed

section \<open>The trade loop as a function of the bookkeeping\<close>

definition key_of :: "RestingOrderInfo \<Rightarrow> OrderKey" where
  "key_of info = \<lparr>key_session = ri_session info, key_client_order = ri_client_order info\<rparr>"

text \<open>The acknowledgement the owner of a resting order gets for a fill that leaves \<open>left\<close>.\<close>

definition maker_ack :: "RestingOrderInfo \<Rightarrow> OrderId \<Rightarrow> Price \<Rightarrow> Qty \<Rightarrow> Qty \<Rightarrow> OutboundAck" where
  "maker_ack info oid px f left =
     \<lparr>ack_session_id = ri_session info, ack_client_order_id = ri_client_order info,
      ack_exchange_order_id = oid, ack_status = (if left = 0 then Filled else PartialFill),
      ack_fill_price = of_int px, ack_fill_quantity = f, ack_leaves_quantity = left\<rparr>"

fun settle :: "OrderId \<Rightarrow> Trade list \<Rightarrow> (OrderKey, OrderId) umap \<Rightarrow> (OrderId, RestingOrderInfo) umap
    \<Rightarrow> (OrderKey, OrderId) umap \<times> (OrderId, RestingOrderInfo) umap \<times> OutboundAck list" where
  "settle x [] bc rst = (bc, rst, [])"
| "settle x (t # ts) bc rst =
     (let cp = (if tr_buy_order_id t = x then tr_sell_order_id t else tr_buy_order_id t)
      in case map_of rst cp of
           None \<Rightarrow> settle x ts bc rst
         | Some info \<Rightarrow>
             let left = ri_remaining info - tr_qty t;
                 rst' = AList.update cp (info\<lparr>ri_remaining := left\<rparr>) rst;
                 (bc1, rst1, as) =
                   (if left = 0 then settle x ts (AList.delete (key_of info) bc) (AList.delete cp rst')
                    else settle x ts bc rst')
             in (bc1, rst1, maker_ack info cp (tr_price t) (tr_qty t) left # as))"

lemma apply_trades_settle:
  assumes "settle x ts (by_client e) (resting e) = (bc, rst, as)"
  shows "apply_trades env x ts e filled =
    ((push_all env as e)\<lparr>by_client := bc, resting := rst\<rparr>, filled + sum_list (map tr_qty ts))"
  using assms
proof (induction ts arbitrary: e filled as)
  case Nil
  then show ?case by simp
next
  case (Cons t ts)
  define cp where "cp = (if tr_buy_order_id t = x then tr_sell_order_id t else tr_buy_order_id t)"
  show ?case
  proof (cases "map_of (resting e) cp")
    case None
    with Cons.IH [of e] Cons.prems show ?thesis
      by (simp add: cp_def ac_simps)
  next
    case (Some info)
    define left where "left = ri_remaining info - tr_qty t"
    define a where "a = maker_ack info cp (tr_price t) (tr_qty t) left"
    define e1 where "e1 = push_ack env a (e\<lparr>resting := AList.update cp (info\<lparr>ri_remaining := left\<rparr>) (resting e)\<rparr>)"
    define e2 where "e2 = (if left = 0 then e1\<lparr>by_client := AList.delete (key_of info) (by_client e1),
      resting := AList.delete cp (resting e1)\<rparr> else e1)"
    have step: "apply_trades env x (t # ts) e filled = apply_trades env x ts e2 (filled + tr_qty t)"
      using Some by (simp add: e2_def e1_def a_def left_def cp_def maker_ack_def key_of_def Let_def)
    obtain as' where as: "as = a # as'" and rec: "settle x ts (by_client e2) (resting e2) = (bc, rst, as')"
      using Cons.prems Some
      by (auto simp: Let_def cp_def [symmetric] left_def [symmetric] a_def [symmetric] e2_def e1_def split: prod.splits if_splits)
    have "push_all env as' e2 = (push_all env as' (push_ack env a e))\<lparr>by_client := by_client e2, resting := resting e2\<rparr>"
      by (simp add: e2_def e1_def)
    with Cons.IH [OF rec] step show ?thesis
      by (simp add: as ac_simps)
  qed
qed

text \<open>Every order of a queue is known with its open quantity.\<close>

definition linked :: "(OrderId, RestingOrderInfo) umap \<Rightarrow> Order list \<Rightarrow> bool" where
  "linked rst rs \<longleftrightarrow> (\<forall>r \<in> set rs. \<exists>info. map_of rst (ord_id r) = Some info \<and> ri_remaining info = ord_qty r)"

lemma linked_simps [simp]:
  "linked rst []" "linked rst (rs @ rs') \<longleftrightarrow> linked rst rs \<and> linked rst rs'"
  "linked rst (r # rs) \<longleftrightarrow> (\<exists>info. map_of rst (ord_id r) = Some info \<and> ri_remaining info = ord_qty r) \<and> linked rst rs"
  by (auto simp: linked_def)

lemma linked_cong:
  "linked rst rs \<Longrightarrow> (\<And>r. r \<in> set rs \<Longrightarrow> map_of rst' (ord_id r) = map_of rst (ord_id r)) \<Longrightarrow> linked rst' rs"
  by (simp add: linked_def)

definition fill_acks :: "(OrderId, RestingOrderInfo) umap \<Rightarrow> (Order \<times> Qty) list \<Rightarrow> OutboundAck list" where
  "fill_acks rst fs =
     map (\<lambda>(r, f). maker_ack (the (map_of rst (ord_id r))) (ord_id r) (ord_price r) f (ord_qty r - f)) fs"

lemma settle_fill:
  assumes "map_of rst (ord_id r) = Some info" and "ri_remaining info = ord_qty r" and "ord_id r \<noteq> oid"
  shows "settle oid (make_trade oid side ts (ord_price r) r f # trs) bc rst =
    (let rst' = AList.update (ord_id r) (info\<lparr>ri_remaining := ord_qty r - f\<rparr>) rst;
         (bc1, rst1, as) = (if ord_qty r = f then settle oid trs (AList.delete (key_of info) bc) (AList.delete (ord_id r) rst')
                            else settle oid trs bc rst')
     in (bc1, rst1, maker_ack info (ord_id r) (ord_price r) f (ord_qty r - f) # as))"
proof -
  have cp: "(if tr_buy_order_id (make_trade oid side ts (ord_price r) r f) = oid
      then tr_sell_order_id (make_trade oid side ts (ord_price r) r f)
      else tr_buy_order_id (make_trade oid side ts (ord_price r) r f)) = ord_id r"
    using assms(3) by (simp add: make_trade_def)
  have fields: "tr_qty (make_trade oid side ts (ord_price r) r f) = f" "tr_price (make_trade oid side ts (ord_price r) r f) = ord_price r"
    by (simp_all add: make_trade_def)
  show ?thesis
    by (subst settle.simps) (simp only: cp fields assms Let_def option.simps right_minus_eq)
qed

text \<open>
  Settling the fills of one matching walk: filled orders leave \<^verbatim>\<open>resting_\<close> with their client
  keys, a partly filled one keeps its key and its new open quantity, nothing else changes.
\<close>

definition settled ::
  "Order list \<Rightarrow> Order list \<Rightarrow> (OrderKey, OrderId) umap \<Rightarrow> (OrderId, RestingOrderInfo) umap
     \<Rightarrow> (OrderKey, OrderId) umap \<Rightarrow> (OrderId, RestingOrderInfo) umap \<Rightarrow> bool" where
  "settled rs rs' bc rst bc' rst' \<longleftrightarrow>
     linked rst' rs' \<and> (umap_ok bc \<longrightarrow> umap_ok bc') \<and> (umap_ok rst \<longrightarrow> umap_ok rst') \<and>
     (\<forall>i. i \<notin> ord_id ` set rs \<longrightarrow> map_of rst' i = map_of rst i) \<and>
     (\<forall>i. map_option key_of (map_of rst' i) =
        (if i \<in> ord_id ` set rs - ord_id ` set rs' then None else map_option key_of (map_of rst i))) \<and>
     (\<forall>k. map_of bc' k =
        (if \<exists>i \<in> ord_id ` set rs - ord_id ` set rs'. map_option key_of (map_of rst i) = Some k then None
         else map_of bc k))"

lemma settled_refl: "linked rst rs \<Longrightarrow> settled rs rs bc rst bc rst"
  by (simp add: settled_def)

lemma key_of_update [simp]: "key_of (info\<lparr>ri_remaining := q\<rparr>) = key_of info"
  by (simp add: key_of_def)

lemma settled_partial:
  assumes "map_of rst (ord_id r) = Some info" and "linked rst rs" and "ord_id r \<notin> ord_id ` set rs"
  shows "settled (r # rs) (r\<lparr>ord_qty := q\<rparr> # rs) bc rst bc (AList.update (ord_id r) (info\<lparr>ri_remaining := q\<rparr>) rst)"
proof -
  have "linked (AList.update (ord_id r) (info\<lparr>ri_remaining := q\<rparr>) rst) rs"
    using assms(2) by (rule linked_cong) (use assms(3) in \<open>auto simp: umap_simps image_iff\<close>)
  then show ?thesis
    using assms(1) by (simp add: settled_def umap_simps)
qed

lemma settled_full:
  assumes info: "map_of rst (ord_id r) = Some info" and notin: "ord_id r \<notin> ord_id ` set rs"
    and sub: "ord_id ` set rs' \<subseteq> ord_id ` set rs"
    and rec: "settled rs rs' (AList.delete (key_of info) bc) (AList.delete (ord_id r) (AList.update (ord_id r) v rst)) bc' rst'"
  shows "settled (r # rs) rs' bc rst bc' rst'"
proof -
  let ?rst1 = "AList.delete (ord_id r) (AList.update (ord_id r) v rst)"
  let ?gone = "ord_id ` set rs - ord_id ` set rs'"
  have gone: "ord_id ` set (r # rs) - ord_id ` set rs' = insert (ord_id r) ?gone"
    using notin sub by auto
  have look: "map_of ?rst1 i = (if i = ord_id r then None else map_of rst i)" for i
    by (simp add: umap_simps)
  have k: "map_option key_of (map_of rst' i) =
      (if i \<in> insert (ord_id r) ?gone then None else map_option key_of (map_of rst i))" for i
    using rec unfolding settled_def look by simp
  have b: "map_of bc' k = (if \<exists>i \<in> insert (ord_id r) ?gone. map_option key_of (map_of rst i) = Some k then None
      else map_of bc k)" for k
  proof -
    have eq: "(\<exists>i \<in> ?gone. map_option key_of (map_of ?rst1 i) = Some k) \<longleftrightarrow>
        (\<exists>i \<in> ?gone. map_option key_of (map_of rst i) = Some k)" (is "_ \<longleftrightarrow> ?P")
    proof (rule bex_cong [OF refl])
      fix i
      assume "i \<in> ?gone"
      then have "i \<noteq> ord_id r"
        using notin by blast
      then show "map_option key_of (map_of ?rst1 i) = Some k \<longleftrightarrow> map_option key_of (map_of rst i) = Some k"
        by (simp add: look)
    qed
    have "map_of bc' k = (if ?P then None else map_of (AList.delete (key_of info) bc) k)"
      using rec unfolding settled_def eq [symmetric] by blast
    moreover have "(\<exists>i \<in> insert (ord_id r) ?gone. map_option key_of (map_of rst i) = Some k) \<longleftrightarrow> key_of info = k \<or> ?P"
      using info by simp
    ultimately show ?thesis
      by (simp only: umap_delete_lookup fun_upd_apply) auto
  qed
  have "linked rst' rs'" "umap_ok bc \<longrightarrow> umap_ok bc'" "umap_ok rst \<longrightarrow> umap_ok rst'"
    and "\<forall>i. i \<notin> ord_id ` set (r # rs) \<longrightarrow> map_of rst' i = map_of rst i"
    using rec by (simp_all add: settled_def look)
  with k b show ?thesis
    unfolding settled_def gone by blast
qed

lemma settle_fills:
  assumes "fill_list cr q rs = (rs', q', fs)" and "linked rst rs" and "distinct (map ord_id rs)"
    and "oid \<notin> ord_id ` set rs"
  shows "\<exists>bc' rst'. settle oid (fill_trades oid side ts fs) bc rst = (bc', rst', fill_acks rst fs) \<and>
    settled rs rs' bc rst bc' rst'"
  using assms
proof (induction cr q rs arbitrary: rs' q' fs bc rst rule: fill_list_induct)
  case (Nil cr q)
  then show ?case by (simp add: fill_trades_def fill_acks_def settled_refl)
next
  case (Cons cr q r rs)
  obtain info where info: "map_of rst (ord_id r) = Some info" "ri_remaining info = ord_qty r" and link: "linked rst rs"
    using Cons.prems(2) by auto
  have ids: "ord_id r \<noteq> oid" "ord_id r \<notin> ord_id ` set rs" "distinct (map ord_id rs)" "oid \<notin> ord_id ` set rs"
    using Cons.prems(3,4) by auto
  show ?case
  proof (cases "q = 0 \<or> \<not> cr (ord_price r)")
    case True
    with Cons.prems show ?thesis
      using settled_refl [of rst "r # rs"] by (auto simp: fill_trades_def fill_acks_def)
  next
    case False
    let ?f = "min q (ord_qty r)"
    let ?rst = "AList.update (ord_id r) (info\<lparr>ri_remaining := ord_qty r - ?f\<rparr>) rst"
    show ?thesis
    proof (cases "ord_qty r = ?f")
      case full: True
      obtain fs1 where rec: "fill_list cr (q - ?f) rs = (rs', q', fs1)" and fs: "fs = (r, ?f) # fs1"
        using Cons.prems(1) False full by (cases "fill_list cr (q - ?f) rs") (auto simp: Let_def)
      have same: "map_of (AList.delete (ord_id r) ?rst) (ord_id s) = map_of rst (ord_id s)" if "s \<in> set rs" for s
        using ids(2) that by (auto simp: umap_simps image_iff)
      have "linked (AList.delete (ord_id r) ?rst) rs"
        using link same by (rule linked_cong)
      from Cons.IH [OF False refl full rec this ids(3,4), of "AList.delete (key_of info) bc"]
      obtain bc' rst' where r1: "settle oid (fill_trades oid side ts fs1) (AList.delete (key_of info) bc) (AList.delete (ord_id r) ?rst) =
          (bc', rst', fill_acks (AList.delete (ord_id r) ?rst) fs1)"
        and r2: "settled rs rs' (AList.delete (key_of info) bc) (AList.delete (ord_id r) ?rst) bc' rst'"
        by blast
      have "fill_acks (AList.delete (ord_id r) ?rst) fs1 = fill_acks rst fs1"
        using same fill_list_crosses [OF rec] unfolding fill_acks_def by (intro map_cong) auto
      then have "settle oid (fill_trades oid side ts fs) bc rst = (bc', rst', fill_acks rst fs)"
        using settle_fill [OF info ids(1), of side ts ?f "fill_trades oid side ts fs1" bc] full r1 info
        by (simp add: fs fill_trades_def fill_acks_def Let_def)
      moreover have "settled (r # rs) rs' bc rst bc' rst'"
        using info(1) ids(2) fill_list_ids [OF rec] r2 by (rule settled_full)
      ultimately show ?thesis by blast
    next
      case part: False
      then have "?f = q" by (simp add: min_def split: if_splits)
      with Cons.prems(1) False part have res: "rs' = r\<lparr>ord_qty := ord_qty r - ?f\<rparr> # rs" "fs = [(r, ?f)]"
        by (auto simp: Let_def)
      have "settle oid (fill_trades oid side ts fs) bc rst = (bc, ?rst, fill_acks rst fs)"
        using settle_fill [OF info ids(1), of side ts ?f "[]" bc] part info
        by (simp add: res fill_trades_def fill_acks_def Let_def)
      moreover have "settled (r # rs) rs' bc rst bc ?rst"
        unfolding res using info(1) link ids(2) by (rule settled_partial)
      ultimately show ?thesis by blast
    qed
  qed
qed

section \<open>What a new order does\<close>

lemma fill_list_word: "fill_list cr q rs = (rs', q', fs) \<Longrightarrow> q = q' + sum_list (map snd fs)"
proof (induction cr q rs arbitrary: rs' q' fs rule: fill_list_induct)
  case (Nil cr q)
  then show ?case by simp
next
  case (Cons cr q r rs)
  let ?f = "min q (ord_qty r)"
  show ?case
  proof (cases "q = 0 \<or> \<not> cr (ord_price r) \<or> ord_qty r \<noteq> ?f")
    case True
    with Cons.prems show ?thesis by (auto simp: Let_def split: if_splits)
  next
    case False
    obtain rs1 q1 fs1 where rec: "fill_list cr (q - ?f) rs = (rs1, q1, fs1)"
      by (metis prod_cases3)
    with False Cons.prems have "q' = q1" "fs = (r, ?f) # fs1"
      by (auto simp: Let_def)
    with Cons.IH [OF _ refl _ rec] False show ?thesis
      by (auto simp: algebra_simps)
  qed
qed

lemma tr_qty_fill_trades [simp]: "map tr_qty (fill_trades oid side ts fs) = map snd fs"
  by (auto simp: fill_trades_def make_trade_def)

lemma fill_trades_Nil [simp]: "fill_trades oid side ts fs = [] \<longleftrightarrow> fs = []"
  by (simp add: fill_trades_def)

lemma last_fill_trades: "fs \<noteq> [] \<Longrightarrow> tr_price (last (fill_trades oid side ts fs)) = ord_price (fst (last fs))"
  by (auto simp: fill_trades_def last_map make_trade_def split_beta)

definition event_key :: "SequencedEvent \<Rightarrow> OrderKey" where
  "event_key ev = \<lparr>key_session = ev_session_id ev, key_client_order = ev_client_order_id ev\<rparr>"

text \<open>The single acknowledgement of the incoming order, given its fills and what is left open.\<close>

definition taker_ack :: "SequencedEvent \<Rightarrow> (Order \<times> Qty) list \<Rightarrow> Qty \<Rightarrow> OutboundAck" where
  "taker_ack ev fs left =
     \<lparr>ack_session_id = ev_session_id ev, ack_client_order_id = ev_client_order_id ev,
      ack_exchange_order_id = ev_seq_num ev,
      ack_status = (if left = ev_quantity ev then Accepted else if left = 0 then Filled else PartialFill),
      ack_fill_price = (if fs = [] then 0 else of_int (ord_price (fst (last fs)))),
      ack_fill_quantity = ev_quantity ev - left, ack_leaves_quantity = left\<rparr>"

definition event_fills :: "engine \<Rightarrow> SequencedEvent \<Rightarrow> Order list \<times> Qty \<times> (Order \<times> Qty) list" where
  "event_fills e ev = fill_list (acceptable (ev_side ev) (uint (ev_price ev))) (ev_quantity ev)
     (other_side (ev_side ev) (abs_book (eng_book e)))"

definition event_add :: "engine \<Rightarrow> SequencedEvent \<Rightarrow> abook" where
  "event_add e ev = fst (spec_add (abs_book (eng_book e)) (ev_seq_num ev) (ev_side ev) (uint (ev_price ev))
     (ev_quantity ev) (ev_sequence_ts_ns ev))"

definition track :: "SequencedEvent \<Rightarrow> Qty \<Rightarrow> (OrderKey, OrderId) umap \<times> (OrderId, RestingOrderInfo) umap
    \<Rightarrow> (OrderKey, OrderId) umap \<times> (OrderId, RestingOrderInfo) umap" where
  "track ev left = (\<lambda>(bc, rst).
     if left \<noteq> 0 then
       (AList.update (event_key ev) (ev_seq_num ev) bc,
        AList.update (ev_seq_num ev) \<lparr>ri_session = ev_session_id ev, ri_client_order = ev_client_order_id ev,
          ri_remaining = left\<rparr> rst)
     else (bc, rst))"

lemma new_order_effect:
  assumes inv: "book_inv (eng_book e)" and link: "linked (resting e) (a_orders (abs_book (eng_book e)))"
    and fresh: "ev_seq_num ev \<notin> a_ids (abs_book (eng_book e))" and ef: "event_fills e ev = (rs', left, fs)"
  shows "\<exists>e' b bc rst. apply_new_order env ev e = Some (push_all env (fill_acks (resting e) fs @ [taker_ack ev fs left]) e') \<and>
    e' = e\<lparr>eng_book := b, eng_trades := eng_trades e', by_client := fst (track ev left (bc, rst)),
      resting := snd (track ev left (bc, rst))\<rparr> \<and>
    book_inv b \<and> abs_book b = event_add e ev \<and>
    settled (other_side (ev_side ev) (abs_book (eng_book e))) rs' (by_client e) (resting e) bc rst"
proof -
  let ?x = "ev_seq_num ev" and ?s = "ev_side ev" and ?p = "uint (ev_price ev)" and ?ts = "ev_sequence_ts_ns ev"
  let ?a = "abs_book (eng_book e)"
  obtain rs1 q1 fs1 where fl: "fill_list (acceptable ?s ?p) (ev_quantity ev) (other_side ?s ?a) = (rs1, q1, fs1)"
    and trs: "snd (spec_add ?a ?x ?s ?p (ev_quantity ev) ?ts) = fill_trades ?x ?s ?ts fs1"
    by (rule spec_add_fill)
  have eq: "rs1 = rs'" "q1 = left" "fs1 = fs"
    using ef fl by (simp_all add: event_fills_def)
  note fl = fl [unfolded eq] and trs = trs [unfolded eq]
  obtain b where add: "add_limit_order (eng_book e) ?x ?s ?p (ev_quantity ev) ?ts [] = Some (b, fill_trades ?x ?s ?ts fs)"
    and b: "book_inv b" "abs_book b = event_add e ev"
    using lb.add_law [OF inv fresh, of ?s ?p "ev_quantity ev" ?ts "[]"] trs by (auto simp: event_add_def)
  have "linked (resting e) (other_side ?s ?a)" "distinct (map ord_id (other_side ?s ?a))" "?x \<notin> ord_id ` set (other_side ?s ?a)"
    using link lb.inv_abs [OF inv] fresh by (auto simp: other_side_def a_orders_def abook_inv_def a_ids_def)
  from settle_fills [OF fl this, of ?s ?ts "by_client e"] obtain bc rst where
    st: "settle ?x (fill_trades ?x ?s ?ts fs) (by_client e) (resting e) = (bc, rst, fill_acks (resting e) fs)"
    and ok: "settled (other_side ?s ?a) rs' (by_client e) (resting e) bc rst"
    by blast
  let ?e0 = "e\<lparr>eng_book := b, eng_trades := fill_trades ?x ?s ?ts fs\<rparr>"
  have loop: "apply_trades env ?x (fill_trades ?x ?s ?ts fs) ?e0 0 =
      ((push_all env (fill_acks (resting e) fs) ?e0)\<lparr>by_client := bc, resting := rst\<rparr>, sum_list (map snd fs))"
    using apply_trades_settle [of ?x "fill_trades ?x ?s ?ts fs" ?e0 bc rst "fill_acks (resting e) fs" env 0] st by simp
  have left: "ev_quantity ev - sum_list (map snd fs) = left" "sum_list (map snd fs) = ev_quantity ev - left"
    and zero: "sum_list (map snd fs) = 0 \<longleftrightarrow> left = ev_quantity ev"
    using fill_list_word [OF fl] by simp_all
  have taker: "taker_ack ev fs left =
      \<lparr>ack_session_id = ev_session_id ev, ack_client_order_id = ev_client_order_id ev, ack_exchange_order_id = ?x,
       ack_status = (if sum_list (map snd fs) = 0 then Accepted else if left = 0 then Filled else PartialFill),
       ack_fill_price = (if fill_trades ?x ?s ?ts fs = [] then 0 else of_int (tr_price (last (fill_trades ?x ?s ?ts fs)))),
       ack_fill_quantity = sum_list (map snd fs), ack_leaves_quantity = left\<rparr>"
    unfolding taker_ack_def zero left(2) [symmetric] by (simp add: last_fill_trades)
  let ?e' = "?e0\<lparr>by_client := fst (track ev left (bc, rst)), resting := snd (track ev left (bc, rst))\<rparr>"
  have "apply_new_order env ev e = Some (push_all env (fill_acks (resting e) fs @ [taker_ack ev fs left]) ?e')"
    unfolding apply_new_order_def Let_def add loop left(1) option.case prod.case taker
    by (cases "left = 0") (simp_all add: track_def event_key_def word_gt_0)
  with b ok show ?thesis
    by (intro exI [of _ ?e'] exI [of _ b] exI [of _ bc] exI [of _ rst]) simp
qed

end
