(* ===== verification/Engine_Properties.thy ===== *)
theory Engine_Properties
  imports Engine_Correct
begin

text \<open>
  The invariant of the matching engine and the properties of its event handlers: safety
  for every increasing stream of sequence numbers, the acknowledgements of each event,
  the ownership of cancels, the bounded acknowledgement spin and the replay property.
\<close>

section \<open>The engine invariant\<close>

text \<open>
  Every order of the book is in \<^verbatim>\<open>resting_\<close> with its open quantity, every client key leads
  to an entry of that client, and all ids in use are below \<open>n\<close>.
\<close>

definition engine_inv :: "nat \<Rightarrow> engine \<Rightarrow> bool" where
  "engine_inv n e \<longleftrightarrow> book_inv (eng_book e) \<and> umap_ok (by_client e) \<and> umap_ok (resting e) \<and>
     linked (resting e) (a_orders (abs_book (eng_book e))) \<and>
     (\<forall>k i. map_of (by_client e) k = Some i \<longrightarrow> map_option key_of (map_of (resting e) i) = Some k) \<and>
     (\<forall>i \<in> dom (map_of (resting e)). unat i < n)"

lemma engine_inv_init: "cap \<le> 2 ^ 31 \<Longrightarrow> engine_inv 0 (engine_init cap aq fq)"
  by (simp add: engine_inv_def engine_init_def book_inv_init a_orders_def)

lemma engine_inv_mono: "engine_inv n e \<Longrightarrow> n \<le> m \<Longrightarrow> engine_inv m e"
  unfolding engine_inv_def by (meson order_less_le_trans)

lemma engine_inv_push [simp]: "engine_inv n (push_ack env a e) \<longleftrightarrow> engine_inv n e"
  by (simp add: engine_inv_def)

lemma engine_inv_push_all [simp]: "engine_inv n (push_all env as e) \<longleftrightarrow> engine_inv n e"
  by (simp add: engine_inv_def)

lemma linked_sides: "linked rst (a_orders a) \<longleftrightarrow> linked rst (own_side side a) \<and> linked rst (other_side side a)"
  by (auto simp: a_orders_def own_side_def other_side_def)

lemma linked_insert: "linked rst (prio_insert before r rs) \<longleftrightarrow> linked rst (r # rs)"
  by (simp add: linked_def)

lemma linked_ids: "linked rst (a_orders a) \<Longrightarrow> a_ids a \<subseteq> dom (map_of rst)"
  by (auto simp: linked_def a_ids_def)

lemma engine_inv_fresh:
  assumes "engine_inv n e" and "n \<le> unat x"
  shows "map_of (resting e) x = None" and "x \<notin> a_ids (abs_book (eng_book e))"
proof -
  show "map_of (resting e) x = None"
    using assms by (force simp: engine_inv_def)
  then show "x \<notin> a_ids (abs_book (eng_book e))"
    using linked_ids assms(1) by (force simp: engine_inv_def)
qed

lemma linked_after_add:
  assumes inv: "abook_inv (abs_book (eng_book e))" and link: "linked (resting e) (a_orders (abs_book (eng_book e)))"
    and ef: "event_fills e ev = (rs', left, fs)"
    and st: "settled (other_side (ev_side ev) (abs_book (eng_book e))) rs' (by_client e) (resting e) bc rst"
    and fresh: "ev_seq_num ev \<notin> a_ids (abs_book (eng_book e))"
  shows "linked (snd (track ev left (bc, rst))) (a_orders (event_add e ev))"
proof -
  let ?a = "abs_book (eng_book e)" and ?s = "ev_side ev" and ?x = "ev_seq_num ev"
  let ?r = "\<lambda>q. \<lparr>ord_id = ?x, ord_side = ?s, ord_price = uint (ev_price ev), ord_qty = q, ord_ts_ns = ev_sequence_ts_ns ev\<rparr>"
  obtain rs1 q1 fs1 where s: "fill_list (acceptable ?s (uint (ev_price ev))) (ev_quantity ev) (other_side ?s ?a) = (rs1, q1, fs1)"
      "other_side ?s (event_add e ev) = rs1"
      "own_side ?s (event_add e ev) = (if q1 \<noteq> 0 \<and> length (own_side ?s ?a) + length rs1 < a_cap ?a
        then prio_insert (side_before ?s) (?r q1) (own_side ?s ?a) else own_side ?s ?a)"
    unfolding event_add_def by (rule spec_add_fill)
  then have eq: "rs1 = rs'" "q1 = left"
    using ef by (simp_all add: event_fills_def)
  have disj: "ord_id ` set (own_side ?s ?a) \<inter> ord_id ` set (other_side ?s ?a) = {}"
    using inv by (auto simp: abook_inv_def a_orders_def own_side_def other_side_def)
  have own: "linked rst (own_side ?s ?a)"
  proof (rule linked_cong)
    show "linked (resting e) (own_side ?s ?a)"
      using link by (simp add: linked_sides [of _ _ ?s])
    fix r
    assume "r \<in> set (own_side ?s ?a)"
    with disj have "ord_id r \<notin> ord_id ` set (other_side ?s ?a)"
      by blast
    with st show "map_of rst (ord_id r) = map_of (resting e) (ord_id r)"
      unfolding settled_def by blast
  qed
  have other: "linked rst rs'"
    using st by (simp add: settled_def)
  have sub: "ord_id ` set rs' \<subseteq> ord_id ` set (other_side ?s ?a)"
    using fill_list_ids [OF s(1)] eq by simp
  have new: "?x \<notin> ord_id ` set (own_side ?s ?a)" "?x \<notin> ord_id ` set rs'"
    using fresh sub by (auto simp: a_ids_sides [of _ ?s])
  have keep: "linked (snd (track ev left (bc, rst))) rs" if "linked rst rs" "?x \<notin> ord_id ` set rs" for rs
    using that(1) by (rule linked_cong) (use that(2) in \<open>auto simp: track_def umap_simps image_iff\<close>)
  have "linked (snd (track ev left (bc, rst))) (own_side ?s (event_add e ev))"
    using keep [OF own new(1)] by (simp add: s(3) eq linked_insert) (simp add: track_def umap_simps)
  moreover have "linked (snd (track ev left (bc, rst))) (other_side ?s (event_add e ev))"
    using keep [OF other new(2)] by (simp add: s(2) eq)
  ultimately show ?thesis
    by (simp add: linked_sides [of _ _ ?s])
qed

lemma keys_after_add:
  assumes keys: "\<forall>k i. map_of bc0 k = Some i \<longrightarrow> map_option key_of (map_of rst0 i) = Some k"
    and st: "settled rs rs' bc0 rst0 bc rst" and fresh: "map_of rst0 (ev_seq_num ev) = None"
    and m: "map_of (fst (track ev left (bc, rst))) k = Some i"
  shows "map_option key_of (map_of (snd (track ev left (bc, rst))) i) = Some k"
proof (cases "left \<noteq> 0 \<and> k = event_key ev")
  case True
  with m show ?thesis by (auto simp: track_def umap_simps key_of_def event_key_def)
next
  case False
  with m have bc: "map_of bc k = Some i"
    by (auto simp: track_def umap_simps split: if_splits)
  let ?gone = "ord_id ` set rs - ord_id ` set rs'"
  have look: "map_of bc k = (if \<exists>i \<in> ?gone. map_option key_of (map_of rst0 i) = Some k then None else map_of bc0 k)"
    and kept: "map_option key_of (map_of rst i) = (if i \<in> ?gone then None else map_option key_of (map_of rst0 i))"
    using st unfolding settled_def by blast+
  have "map_of bc0 k = Some i" and nogone: "\<not> (\<exists>i \<in> ?gone. map_option key_of (map_of rst0 i) = Some k)"
    using bc look by (auto split: if_splits)
  then have k0: "map_option key_of (map_of rst0 i) = Some k"
    using keys by blast
  with nogone have "i \<notin> ?gone"
    by blast
  with kept k0 have "map_option key_of (map_of rst i) = Some k"
    by simp
  moreover have "i \<noteq> ev_seq_num ev"
    using k0 fresh by auto
  ultimately show ?thesis
    by (simp add: track_def umap_simps)
qed

lemma ids_after_add:
  assumes "\<forall>i \<in> dom (map_of rst0). unat i < n" and "n \<le> unat (ev_seq_num ev)"
    and st: "settled rs rs' bc0 rst0 bc rst"
    and "i \<in> dom (map_of (snd (track ev left (bc, rst))))"
  shows "unat i < Suc (unat (ev_seq_num ev))"
proof (cases "i = ev_seq_num ev")
  case False
  then have "map_of rst i \<noteq> None"
    using assms(4) by (auto simp: track_def umap_simps split: if_splits)
  moreover have "map_option key_of (map_of rst i) =
      (if i \<in> ord_id ` set rs - ord_id ` set rs' then None else map_option key_of (map_of rst0 i))"
    using st unfolding settled_def by blast
  ultimately have "map_of rst0 i \<noteq> None"
    by (metis option.map_disc_iff)
  then show ?thesis
    using assms(1,2) by force
qed simp

lemma apply_new_order_inv:
  assumes inv: "engine_inv n e" and n: "n \<le> unat (ev_seq_num ev)"
  shows "\<exists>e'. apply_new_order env ev e = Some e' \<and> engine_inv (Suc (unat (ev_seq_num ev))) e'"
proof -
  obtain rs' left fs where ef: "event_fills e ev = (rs', left, fs)"
    by (metis prod_cases3)
  note fresh = engine_inv_fresh [OF inv n]
  have parts: "book_inv (eng_book e)" "linked (resting e) (a_orders (abs_book (eng_book e)))"
    using inv by (simp_all add: engine_inv_def)
  from new_order_effect [OF parts fresh(2) ef, of env] obtain e' b bc rst where
    run: "apply_new_order env ev e = Some (push_all env (fill_acks (resting e) fs @ [taker_ack ev fs left]) e')"
    and e': "e' = e\<lparr>eng_book := b, eng_trades := eng_trades e', by_client := fst (track ev left (bc, rst)),
      resting := snd (track ev left (bc, rst))\<rparr>"
    and b: "book_inv b" "abs_book b = event_add e ev"
    and st: "settled (other_side (ev_side ev) (abs_book (eng_book e))) rs' (by_client e) (resting e) bc rst"
    by blast
  have sel: "eng_book e' = b" "by_client e' = fst (track ev left (bc, rst))" "resting e' = snd (track ev left (bc, rst))"
    by (subst e', simp)+
  have "umap_ok bc" "umap_ok rst"
    using inv st by (auto simp: engine_inv_def settled_def)
  then have "umap_ok (by_client e')" "umap_ok (resting e')"
    unfolding sel by (auto simp: track_def)
  moreover have "linked (resting e') (a_orders (abs_book (eng_book e')))"
    unfolding sel b using lb.inv_abs [OF parts(1)] parts(2) ef st fresh(2) by (rule linked_after_add)
  moreover have "\<forall>k i. map_of (by_client e') k = Some i \<longrightarrow> map_option key_of (map_of (resting e') i) = Some k"
    unfolding sel using keys_after_add [OF _ st fresh(1)] inv by (auto simp: engine_inv_def)
  moreover have "\<forall>i \<in> dom (map_of (resting e')). unat i < Suc (unat (ev_seq_num ev))"
    unfolding sel using ids_after_add [OF _ n st] inv by (auto simp: engine_inv_def)
  ultimately have "engine_inv (Suc (unat (ev_seq_num ev))) e'"
    using b(1) by (simp add: engine_inv_def sel(1))
  with run show ?thesis by (simp del: push_all_simps)
qed

lemma apply_cancel_order_inv:
  assumes inv: "engine_inv n e"
  shows "\<exists>e'. apply_cancel_order env ev e = Some e' \<and> engine_inv n e'"
proof (cases "map_of (by_client e) (event_key ev)")
  case None
  with inv show ?thesis by (simp add: apply_cancel_order_def event_key_def)
next
  case (Some i)
  have bk: "book_inv (eng_book e)"
    using inv by (simp add: engine_inv_def)
  from lb.cancel_law [OF bk, of i] obtain b where
    b: "cancel (eng_book e) i = Some (fst (spec_cancel (abs_book (eng_book e)) i), b)" "book_inv b"
      "abs_book b = snd (spec_cancel (abs_book (eng_book e)) i)"
    by blast
  let ?bc = "AList.delete (event_key ev) (by_client e)" and ?rst = "AList.delete i (resting e)"
  have keys: "map_option key_of (map_of (resting e) j) = Some k" if "map_of (by_client e) k = Some j" for k j
    using inv that by (simp add: engine_inv_def)
  have "linked ?rst (a_orders (abs_book b))"
    using inv by (auto simp: b(3) a_orders_cancel engine_inv_def linked_def umap_simps)
  moreover have "map_option key_of (map_of ?rst j) = Some k" if "map_of ?bc k = Some j" for k j
    using that keys [of k j] keys [OF Some] by (auto simp: umap_simps split: if_splits)
  moreover have "\<forall>j \<in> dom (map_of ?rst). unat j < n"
    using inv by (auto simp: engine_inv_def umap_simps)
  ultimately have "engine_inv n (e\<lparr>eng_book := b, by_client := ?bc, resting := ?rst\<rparr>)"
    using inv b(2) by (simp add: engine_inv_def)
  with b(1) Some show ?thesis
    by (simp add: apply_cancel_order_def event_key_def del: push_ack_update)
qed

lemma engine_apply_inv:
  assumes "engine_inv n e" and "n \<le> unat (ev_seq_num ev)"
  shows "\<exists>e'. engine_apply env ev e = Some e' \<and> engine_inv (Suc (unat (ev_seq_num ev))) e'"
proof (cases "ev_type ev")
  case Ev_NewOrder
  then show ?thesis
    using apply_new_order_inv [OF assms] by (simp add: engine_apply_def)
next
  case Ev_CancelOrder
  then show ?thesis
    using apply_cancel_order_inv [OF assms(1)] engine_inv_mono assms(2) by (fastforce simp: engine_apply_def)
qed (use assms engine_inv_mono in \<open>fastforce simp: engine_apply_def\<close>)+

text \<open>The streams the sequencer writes: strictly increasing sequence numbers.\<close>

definition seq_log :: "SequencedEvent list \<Rightarrow> bool" where
  "seq_log evs \<longleftrightarrow> sorted_wrt (<) (map ev_seq_num evs)"

lemma seq_log_take: "seq_log evs \<Longrightarrow> seq_log (take k evs)"
  by (simp add: seq_log_def take_map [symmetric] sorted_wrt_take)

lemma engine_stream:
  assumes "engine_inv n e" and "seq_log evs" and "\<forall>ev \<in> set evs. n \<le> unat (ev_seq_num ev)"
  shows "\<exists>e' m. fold_opt (engine_apply env) evs e = Some e' \<and> engine_inv m e'"
  using assms
proof (induction evs arbitrary: e n)
  case Nil
  then show ?case by auto
next
  case (Cons ev evs)
  from Cons.prems obtain e1 where e1: "engine_apply env ev e = Some e1" "engine_inv (Suc (unat (ev_seq_num ev))) e1"
    using engine_apply_inv [of n e ev env] by auto
  have "seq_log evs" "\<forall>ev' \<in> set evs. Suc (unat (ev_seq_num ev)) \<le> unat (ev_seq_num ev')"
    using Cons.prems(2) by (auto simp: seq_log_def word_less_nat_alt Suc_le_eq)
  with Cons.IH [OF e1(2)] e1(1) show ?case by simp
qed

section \<open>Safety\<close>

text \<open>
  (C3) The engine handles every event stream with strictly increasing sequence numbers to
  its end, without touching a dead order, from an empty book of any capacity; afterwards
  each order in the book is known in \<^verbatim>\<open>resting_\<close> with exactly its open quantity, and each
  client key in \<^verbatim>\<open>by_client_\<close> leads to an order of that client.
\<close>
theorem engine_stream_safe:
  assumes "cap \<le> 2 ^ 31" and "sorted_wrt (<) (map ev_seq_num evs)"
  shows "\<exists>e. fold_opt (engine_apply env) evs (engine_init cap aq fq) = Some e \<and> book_inv (eng_book e) \<and>
    (\<forall>r \<in> set (a_orders (abs_book (eng_book e))). \<exists>info. map_of (resting e) (ord_id r) = Some info \<and> ri_remaining info = ord_qty r) \<and>
    (\<forall>k i. map_of (by_client e) k = Some i \<longrightarrow> (\<exists>info. map_of (resting e) i = Some info \<and> key_of info = k))"
proof -
  obtain e m where "fold_opt (engine_apply env) evs (engine_init cap aq fq) = Some e" "engine_inv m e"
    using engine_stream [OF engine_inv_init [OF assms(1)], of evs env aq fq] assms(2) by (auto simp: seq_log_def)
  then show ?thesis
    by (intro exI [of _ e]) (auto simp: engine_inv_def linked_def)
qed

text \<open>A resting sell order of session 1 that a buy order of session 2 hits.\<close>

definition no_ack :: OutboundAck where
  "no_ack = \<lparr>ack_session_id = 0, ack_client_order_id = 0, ack_exchange_order_id = 0, ack_status = Accepted,
     ack_fill_price = 0, ack_fill_quantity = 0, ack_leaves_quantity = 0\<rparr>"

definition demo_event :: "EventType \<Rightarrow> u64 \<Rightarrow> u32 \<Rightarrow> u64 \<Rightarrow> Side \<Rightarrow> u32 \<Rightarrow> u32 \<Rightarrow> SequencedEvent" where
  "demo_event ty sn sess coid side px q =
     \<lparr>ev_seq_num = sn, ev_ingress_ts_ns = 0, ev_sequence_ts_ns = 0, ev_type = ty, ev_producer = Gateway,
      ev_session_id = sess, ev_client_order_id = coid, ev_side = side, ev_price = px, ev_quantity = q\<rparr>"

definition demo_engine :: engine where
  "demo_engine = engine_init 4 (spsc_init 8 no_ack) None"

theorem engine_stream_safe_witness:
  "\<exists>e. fold_opt (engine_apply (\<lambda>a k q. q))
       [demo_event Ev_NewOrder 1 1 7 Sell 100 5, demo_event Ev_NewOrder 2 2 7 Buy 101 3,
        demo_event Ev_CancelOrder 3 1 7 Sell 0 0] demo_engine = Some e \<and> book_inv (eng_book e)"
  using engine_stream_safe [of 4 "[demo_event Ev_NewOrder 1 1 7 Sell 100 5, demo_event Ev_NewOrder 2 2 7 Buy 101 3,
        demo_event Ev_CancelOrder 3 1 7 Sell 0 0]" "\<lambda>a k q. q" "spsc_init 8 no_ack" None]
  by (auto simp: demo_event_def demo_engine_def)

section \<open>Acknowledgements\<close>

text \<open>
  (C9) A new order produces exactly these acknowledgements, in this order: one per trade to
  the owner of the resting order with the fill price, the fill and what stays open
  (\<^verbatim>\<open>Filled\<close> when nothing does), then one to the sender with the total fill, the last
  price and the open remainder. The book becomes the abstract result of the order.
\<close>
theorem new_order_acks:
  assumes "engine_inv n e" and "n \<le> unat (ev_seq_num ev)" and "ev_type ev = Ev_NewOrder"
    and "event_fills e ev = (rs', left, fs)" and "spsc_inv (acks e)"
    and "length (spsc_list (acks e)) + length fs + 1 < length (buffer (acks e))"
  shows "\<exists>e'. engine_apply env ev e = Some e' \<and>
    spsc_list (acks e') = spsc_list (acks e) @ fill_acks (resting e) fs @ [taker_ack ev fs left] \<and>
    acks_dropped e' = acks_dropped e \<and> abs_book (eng_book e') = event_add e ev"
proof -
  have parts: "book_inv (eng_book e)" "linked (resting e) (a_orders (abs_book (eng_book e)))"
    using assms(1) by (simp_all add: engine_inv_def)
  let ?as = "fill_acks (resting e) fs @ [taker_ack ev fs left]"
  from new_order_effect [OF parts engine_inv_fresh(2) [OF assms(1,2)] assms(4), of env] obtain e' b bc rst where
    run: "apply_new_order env ev e = Some (push_all env ?as e')"
    and e': "e' = e\<lparr>eng_book := b, eng_trades := eng_trades e', by_client := fst (track ev left (bc, rst)),
      resting := snd (track ev left (bc, rst))\<rparr>"
    and b: "abs_book b = event_add e ev"
    by blast
  have q: "acks e' = acks e" "acks_dropped e' = acks_dropped e" "eng_book e' = b"
    by (subst e', simp)+
  have "length (spsc_list (acks e')) + length ?as < length (buffer (acks e'))"
    using assms(6) by (simp add: q fill_acks_def)
  from push_all_room [OF _ this, of env] assms(5) q b run assms(3) show ?thesis
    by (simp add: engine_apply_def del: push_all_simps)
qed

definition demo_engine1 :: engine where
  "demo_engine1 = the (engine_apply (\<lambda>a k q. q) (demo_event Ev_NewOrder 1 1 7 Sell 100 5) demo_engine)"

lemma pow2_8 [simp]: "pow2 8"
  unfolding pow2_def by (rule exI [of _ 3]) simp

lemma demo_engine1: "engine_inv 2 demo_engine1" "spsc_inv (acks demo_engine1)"
proof -
  have "engine_inv 0 demo_engine"
    unfolding demo_engine_def by (rule engine_inv_init) simp
  from engine_apply_inv [OF this, of "demo_event Ev_NewOrder 1 1 7 Sell 100 5" "\<lambda>a k q. q"]
  show "engine_inv 2 demo_engine1"
    by (auto simp: demo_engine1_def demo_event_def numeral_2_eq_2)
  have "length (buffer (acks demo_engine1)) = 8" "head_ix (acks demo_engine1) = 1" "tail_ix (acks demo_engine1) = 0"
    by code_simp+
  then show "spsc_inv (acks demo_engine1)"
    by (simp add: spsc_inv_def)
qed

theorem new_order_acks_witness:
  "\<exists>e'. engine_apply (\<lambda>a k q. q) (demo_event Ev_NewOrder 2 2 9 Buy 101 3) demo_engine1 = Some e' \<and>
     map (\<lambda>a. (ack_session_id a, ack_client_order_id a, ack_status a, ack_fill_quantity a, ack_leaves_quantity a))
       (spsc_list (acks e')) = [(1, 7, Accepted, 0, 5), (1, 7, PartialFill, 3, 2), (2, 9, Filled, 3, 0)]"
proof -
  let ?ev = "demo_event Ev_NewOrder 2 2 9 Buy 101 3"
  let ?r = "\<lparr>ord_id = 1, ord_side = Sell, ord_price = 100, ord_qty = 5, ord_ts_ns = 0\<rparr>"
  have ef: "event_fills demo_engine1 ?ev = ([?r\<lparr>ord_qty := 2\<rparr>], 0, [(?r, 3)])"
    by code_simp
  have len: "length (spsc_list (acks demo_engine1)) + length [(?r, 3 :: Qty)] + 1 < length (buffer (acks demo_engine1))"
    by code_simp
  have seq: "2 \<le> unat (ev_seq_num ?ev)" "ev_type ?ev = Ev_NewOrder"
    by (simp_all add: demo_event_def)
  have acks: "map (\<lambda>a. (ack_session_id a, ack_client_order_id a, ack_status a, ack_fill_quantity a, ack_leaves_quantity a))
      (spsc_list (acks demo_engine1) @ fill_acks (resting demo_engine1) [(?r, 3)] @ [taker_ack ?ev [(?r, 3)] 0]) =
      [(1, 7, Accepted, 0, 5), (1, 7, PartialFill, 3, 2), (2, 9, Filled, 3, 0)]"
    by code_simp
  obtain e' where e': "engine_apply (\<lambda>a k q. q) ?ev demo_engine1 = Some e'"
      "spsc_list (acks e') = spsc_list (acks demo_engine1) @ fill_acks (resting demo_engine1) [(?r, 3)] @ [taker_ack ?ev [(?r, 3)] 0]"
    using new_order_acks [OF demo_engine1(1) seq ef demo_engine1(2) len, of "\<lambda>a k q. q"] by blast
  show ?thesis
    by (rule exI [of _ e']) (simp only: e' acks)
qed

definition cancel_ack :: "SequencedEvent \<Rightarrow> OrderId \<Rightarrow> bool \<Rightarrow> OutboundAck" where
  "cancel_ack ev i ok =
     \<lparr>ack_session_id = ev_session_id ev, ack_client_order_id = ev_client_order_id ev, ack_exchange_order_id = i,
      ack_status = (if ok then Canceled else Rejected), ack_fill_price = 0, ack_fill_quantity = 0, ack_leaves_quantity = 0\<rparr>"

text \<open>
  (C15) A cancel of an unknown client key is rejected and changes nothing. A cancel of a
  known key concerns an order of the same session and client id only: that order, and no
  other, leaves the book, it is acknowledged as canceled exactly when it was still in the
  book, and the key is forgotten.
\<close>
theorem cancel_order_acks:
  assumes "engine_inv n e" and "ev_type ev = Ev_CancelOrder" and "spsc_inv (acks e)"
    and "length (spsc_list (acks e)) + 1 < length (buffer (acks e))"
  shows "\<exists>e'. engine_apply env ev e = Some e' \<and>
    (case map_of (by_client e) (event_key ev) of
       None \<Rightarrow> spsc_list (acks e') = spsc_list (acks e) @ [cancel_ack ev 0 False] \<and> eng_book e' = eng_book e \<and>
         by_client e' = by_client e \<and> resting e' = resting e
     | Some i \<Rightarrow> spsc_list (acks e') = spsc_list (acks e) @ [cancel_ack ev i (i \<in> a_ids (abs_book (eng_book e)))] \<and>
         a_orders (abs_book (eng_book e')) = filter (\<lambda>r. ord_id r \<noteq> i) (a_orders (abs_book (eng_book e))) \<and>
         map_of (by_client e') = (map_of (by_client e))(event_key ev := None) \<and>
         (\<exists>info. map_of (resting e) i = Some info \<and> ri_session info = ev_session_id ev \<and>
            ri_client_order info = ev_client_order_id ev))"
proof (cases "map_of (by_client e) (event_key ev)")
  case None
  have "engine_apply env ev e = Some (push_all env [cancel_ack ev 0 False] e)"
    using None assms(2) by (simp add: engine_apply_def apply_cancel_order_def cancel_ack_def event_key_def)
  with None push_all_room [OF assms(3), of "[cancel_ack ev 0 False]" env] assms(4) show ?thesis
    by (simp del: push_all_simps)
next
  case (Some i)
  have bk: "book_inv (eng_book e)" and key: "map_option key_of (map_of (resting e) i) = Some (event_key ev)"
    using assms(1) Some by (auto simp: engine_inv_def)
  let ?ok = "i \<in> a_ids (abs_book (eng_book e))"
  from lb.cancel_law [OF bk, of i] obtain b where
    b: "cancel (eng_book e) i = Some (?ok, b)" "abs_book b = snd (spec_cancel (abs_book (eng_book e)) i)"
    by (auto simp: spec_cancel_def a_ids_def)
  let ?e = "e\<lparr>eng_book := b, by_client := AList.delete (event_key ev) (by_client e), resting := AList.delete i (resting e)\<rparr>"
  have "engine_apply env ev e = Some (push_all env [cancel_ack ev i ?ok] ?e)"
    using Some b(1) assms(2) by (simp add: engine_apply_def apply_cancel_order_def cancel_ack_def event_key_def)
  with Some b(2) key push_all_room [of ?e "[cancel_ack ev i ?ok]" env] assms(3,4) show ?thesis
    by (auto simp: a_orders_cancel umap_simps key_of_def event_key_def simp del: push_all_simps)
qed

theorem cancel_order_acks_witness:
  "\<exists>e'. engine_apply (\<lambda>a k q. q) (demo_event Ev_CancelOrder 2 1 7 Sell 0 0) demo_engine1 = Some e' \<and>
     spsc_list (acks e') = spsc_list (acks demo_engine1) @ [cancel_ack (demo_event Ev_CancelOrder 2 1 7 Sell 0 0) 1 True] \<and>
     a_orders (abs_book (eng_book e')) = []"
proof -
  let ?ev = "demo_event Ev_CancelOrder 2 1 7 Sell 0 0"
  have len: "length (spsc_list (acks demo_engine1)) + 1 < length (buffer (acks demo_engine1))"
    by code_simp
  have "map_of (by_client demo_engine1) (event_key ?ev) = Some 1"
    and "filter (\<lambda>r. ord_id r \<noteq> 1) (a_orders (abs_book (eng_book demo_engine1))) = []"
    and "1 \<in> a_ids (abs_book (eng_book demo_engine1))"
    by code_simp+
  with cancel_order_acks [OF demo_engine1(1) _ demo_engine1(2) len, of ?ev "\<lambda>a k q. q"] show ?thesis
    by (auto simp: demo_event_def)
qed

section \<open>The bounded spin\<close>

text \<open>The acknowledgement queue as the spinning engine sees it after \<open>k\<close> pauses.\<close>

fun drained :: "drain \<Rightarrow> OutboundAck \<Rightarrow> nat \<Rightarrow> OutboundAck spsc \<Rightarrow> OutboundAck spsc" where
  "drained env a 0 q = q"
| "drained env a (Suc k) q = env a k (drained env a k q)"

definition first_room :: "drain \<Rightarrow> OutboundAck \<Rightarrow> OutboundAck spsc \<Rightarrow> nat \<Rightarrow> nat \<Rightarrow> OutboundAck spsc \<Rightarrow> bool" where
  "first_room env a q n k q' \<longleftrightarrow> n \<le> k \<and> k \<le> kMaxSpins + 1 \<and> spsc_push (drained env a k q) a = Some q' \<and>
     (\<forall>j. n \<le> j \<and> j < k \<longrightarrow> spsc_push (drained env a j q) a = None)"

definition never_room :: "drain \<Rightarrow> OutboundAck \<Rightarrow> OutboundAck spsc \<Rightarrow> nat \<Rightarrow> bool" where
  "never_room env a q n \<longleftrightarrow> (\<forall>j. n \<le> j \<and> j \<le> kMaxSpins + 1 \<longrightarrow> spsc_push (drained env a j q) a = None)"

lemma push_spin_from:
  assumes "n \<le> kMaxSpins + 1"
  shows "case push_spin env a n (drained env a n q) of
      (True, q') \<Rightarrow> \<exists>k. first_room env a q n k q'
    | (False, q') \<Rightarrow> never_room env a q n \<and> q' = drained env a (kMaxSpins + 1) q"
  using assms
proof (induction rule: inc_induct)
  case base
  show ?case
    by (subst push_spin.simps)
      (auto simp: first_room_def never_room_def split: option.splits intro!: exI [of _ "Suc kMaxSpins"] dest: le_antisym)
next
  case (step n)
  show ?case
  proof (cases "spsc_push (drained env a n q) a")
    case (Some q')
    then have "first_room env a q n n q'"
      using step.hyps(2) by (auto simp: first_room_def)
    with Some show ?thesis
      by (subst push_spin.simps) auto
  next
    case None
    then have eq: "push_spin env a n (drained env a n q) = push_spin env a (Suc n) (drained env a (Suc n) q)"
      using step.hyps(2) by (subst push_spin.simps) simp
    have "first_room env a q n k q'" if "first_room env a q (Suc n) k q'" for k q'
      using that None by (auto simp: first_room_def) (metis Suc_leI le_neq_implies_less)
    moreover have "never_room env a q n" if "never_room env a q (Suc n)"
      using that None by (auto simp: never_room_def) (metis Suc_leI le_neq_implies_less)
    ultimately show ?thesis
      using step.IH unfolding eq by (auto split: prod.splits bool.splits)
  qed
qed

text \<open>
  (C16) \<^verbatim>\<open>push_ack\<close> always returns. Whatever the draining thread does, either the queue has
  room within the spin bound and the acknowledgement is appended at the first such
  moment, or it is dropped after the last attempt and counted, and the persistence queue
  is left alone.
\<close>
theorem push_ack_bounded_spin:
  "(\<exists>k. first_room env a (acks e) 0 k (acks (push_ack env a e)) \<and> acks_dropped (push_ack env a e) = acks_dropped e) \<or>
   (never_room env a (acks e) 0 \<and> acks_dropped (push_ack env a e) = acks_dropped e + 1 \<and>
    acks (push_ack env a e) = drained env a (kMaxSpins + 1) (acks e) \<and> fills (push_ack env a e) = fills e)"
proof -
  obtain ok q' where sp: "push_spin env a 0 (acks e) = (ok, q')"
    by (metis surj_pair)
  with push_spin_from [of 0 env a "acks e"] show ?thesis
    by (cases ok) (auto simp: push_ack_def split: option.splits)
qed

section \<open>Replay\<close>

text \<open>
  What the engine relies on from the sequencer thread: it only appends to the history, with
  increasing sequence numbers, and does not touch the readers' cursors.
\<close>

definition publisher_ok :: "(nat \<Rightarrow> SequencedEvent bring \<Rightarrow> SequencedEvent bring) \<Rightarrow> bool" where
  "publisher_ok penv \<longleftrightarrow> (\<forall>n b es. bring_hist b es \<and> seq_log es \<longrightarrow>
     (\<exists>es'. bring_hist (penv n b) (es @ es') \<and> seq_log (es @ es')) \<and>
     reader_pos (penv n b) = reader_pos b \<and> consumer_count (penv n b) = consumer_count b)"

lemma fold_opt_prefix:
  assumes "fold_opt f es s0 = Some s" and "fold_opt f (take k es) s0 = Some s1"
  shows "fold_opt f (drop k es) s1 = Some s"
  using assms fold_opt_append [of f "take k es" "drop k es" s0] by simp

lemma engine_total:
  assumes "engine_inv 0 e" and "seq_log es"
  obtains e' where "fold_opt (engine_apply env) es e = Some e'"
  using engine_stream [OF assms, of env] by auto

lemma engine_rounds_log:
  assumes "engine_inv 0 e0" and "publisher_ok penv" and "bring_hist b es" and "seq_log es"
    and "cid < consumer_count b" and "fold_opt (engine_apply env) (take (reader_pos b cid) es) e0 = Some e"
  shows "\<exists>b' e' es'. engine_rounds penv env n cid b e = Some (b', e') \<and> bring_hist b' (es @ es') \<and> seq_log (es @ es') \<and>
    cid < consumer_count b' \<and> fold_opt (engine_apply env) (take (reader_pos b' cid) (es @ es')) e0 = Some e'"
  using assms(3-6)
proof (induction n arbitrary: b es e)
  case 0
  then show ?case by (intro exI [of _ b] exI [of _ e] exI [of _ "[]"]) simp
next
  case (Suc n)
  let ?b = "penv n b"
  from assms(2) Suc.prems(1,2) obtain es1 where es1: "bring_hist ?b (es @ es1)" "seq_log (es @ es1)"
    and same: "reader_pos ?b = reader_pos b" "consumer_count ?b = consumer_count b"
    unfolding publisher_ok_def by blast
  let ?es = "es @ es1" and ?p = "reader_pos b cid"
  let ?k = "min 32 (length ?es - ?p)"
  have le: "?p \<le> length es"
    using bl.pos_le [OF Suc.prems(1,3)] .
  have pre: "fold_opt (engine_apply env) (take ?p ?es) e0 = Some e"
    using Suc.prems(4) le by simp
  obtain e1 where e1: "fold_opt (engine_apply env) (take (?p + 32) ?es) e0 = Some e1"
    using engine_total [OF assms(1) seq_log_take [OF es1(2)]] .
  have "take (?p + 32) ?es = take ?p ?es @ take 32 (drop ?p ?es)"
    by (rule take_add)
  then have run: "fold_opt (engine_apply env) (take 32 (drop (reader_pos ?b cid) ?es)) e = Some e1"
    using e1 pre by (simp add: fold_opt_append same del: append_assoc)
  have "cid < consumer_count ?b"
    using Suc.prems(3) same by simp
  from bl.consume_batch_log [OF es1(1) this run] obtain b1 where
    b1: "consume_batch try_consume 32 cid (engine_apply env) ?b e = Some (b1, e1, min 32 (length ?es - reader_pos ?b cid))"
      "bring_hist b1 ?es" "reader_pos b1 = (reader_pos ?b)(cid := reader_pos ?b cid + min 32 (length ?es - reader_pos ?b cid))"
      "consumer_count b1 = consumer_count ?b"
    by blast
  have "take (reader_pos b1 cid) ?es = take (?p + 32) ?es"
    using le by (simp add: b1(3) same min_def)
  then have "fold_opt (engine_apply env) (take (reader_pos b1 cid) ?es) e0 = Some e1"
    using e1 by simp
  from Suc.IH [OF b1(2) es1(2) _ this] b1 Suc.prems(3) same obtain b' e' es' where
    "engine_rounds penv env n cid b1 e1 = Some (b', e')" "bring_hist b' (?es @ es')" "seq_log (?es @ es')"
    "cid < consumer_count b'" "fold_opt (engine_apply env) (take (reader_pos b' cid) (?es @ es')) e0 = Some e'"
    by auto
  with b1(1) show ?case
    by (intro exI [of _ b'] exI [of _ e'] exI [of _ "es1 @ es'"]) simp
qed

text \<open>
  (C10) Replay: whatever the batching and however the sequencer's publishing interleaves with
  the engine's rounds, the engine thread stops after the final drain with exactly the
  state that results from applying the recorded event stream in order, and it has
  consumed all of it.
\<close>
theorem engine_run_replays:
  assumes "engine_inv 0 e" and "publisher_ok penv" and "bring_hist b es" and "seq_log es"
    and "cid < consumer_count b" and "reader_pos b cid = 0"
  shows "\<exists>b' e' es'. engine_run penv env n cid b e = Some (b', e') \<and> bring_hist b' (es @ es') \<and>
    reader_pos b' cid = length (es @ es') \<and> fold_opt (engine_apply env) (es @ es') e = Some e'"
proof -
  have "fold_opt (engine_apply env) (take (reader_pos b cid) es) e = Some e"
    using assms(6) by simp
  from engine_rounds_log [OF assms(1-5) this, of n] obtain b1 e1 es1 where
    r: "engine_rounds penv env n cid b e = Some (b1, e1)" "bring_hist b1 (es @ es1)" "seq_log (es @ es1)"
      "cid < consumer_count b1" "fold_opt (engine_apply env) (take (reader_pos b1 cid) (es @ es1)) e = Some e1"
    by blast
  obtain e2 where e2: "fold_opt (engine_apply env) (es @ es1) e = Some e2"
    using engine_total [OF assms(1) r(3)] .
  have "fold_opt (engine_apply env) (drop (reader_pos b1 cid) (es @ es1)) e1 = Some e2"
    using e2 r(5) by (rule fold_opt_prefix)
  from bl.consume_all_log [OF r(2,4) this] e2 r(1) show ?thesis
    unfolding engine_run_def by fastforce
qed

text \<open>A sequencer that publishes one order into an empty ring.\<close>

definition publish_first :: "nat \<Rightarrow> SequencedEvent bring \<Rightarrow> SequencedEvent bring" where
  "publish_first n b =
     (if write_cursor b = 0 then snd (the (try_publish b (demo_event Ev_NewOrder 1 1 7 Sell 100 5))) else b)"

lemma publish_first_ok: "publisher_ok publish_first"
  unfolding publisher_ok_def
proof (intro allI impI)
  fix n :: nat and b :: "SequencedEvent bring" and es
  let ?ev = "demo_event Ev_NewOrder 1 1 7 Sell 100 5"
  assume b: "bring_hist b es \<and> seq_log es"
  show "(\<exists>es'. bring_hist (publish_first n b) (es @ es') \<and> seq_log (es @ es')) \<and>
    reader_pos (publish_first n b) = reader_pos b \<and> consumer_count (publish_first n b) = consumer_count b"
  proof (cases "write_cursor b = 0")
    case True
    with b have es: "es = []"
      by (auto simp: bring_hist_def)
    have h: "bring_hist b es" "Suc (length es) < 2 ^ 64"
      using b by (simp_all add: es)
    obtain ok b' where p: "try_publish b ?ev = Some (ok, b')" "bring_hist b' (if ok then es @ [?ev] else es)"
      "cursors b' = cursors b" "consumer_count b' = consumer_count b"
      using try_publish_spec [OF h, of ?ev] by metis
    then have "publish_first n b = b'" "reader_pos b' = reader_pos b"
      using True by (simp_all add: publish_first_def reader_pos_def fun_eq_iff)
    with p es show ?thesis
      by (cases ok) (auto simp: seq_log_def intro: exI [of _ "[]"] exI [of _ "[?ev]"])
  next
    case False
    with b show ?thesis by (auto simp: publish_first_def intro: exI [of _ "[]"])
  qed
qed

theorem engine_run_replays_witness:
  "\<exists>b' e' es'. engine_run publish_first (\<lambda>a k q. q) 3 0
      (snd (register_consumer (bring_init 8 4 (demo_event Ev_Admin 0 0 0 Buy 0 0)))) demo_engine = Some (b', e') \<and>
    bring_hist b' es' \<and> reader_pos b' 0 = length es' \<and>
    fold_opt (engine_apply (\<lambda>a k q. q)) es' demo_engine = Some e'"
proof -
  let ?i = "bring_init 8 4 (demo_event Ev_Admin 0 0 0 Buy 0 0)"
  have h: "bring_hist (snd (register_consumer ?i)) []"
    by (rule bring_hist_register [OF bring_hist_init]) (simp_all add: bring_init_def)
  have inv: "engine_inv 0 demo_engine"
    unfolding demo_engine_def by (rule engine_inv_init) simp
  have "seq_log []" "0 < consumer_count (snd (register_consumer ?i))" "reader_pos (snd (register_consumer ?i)) 0 = 0"
    by (simp_all add: seq_log_def register_consumer_def reader_pos_def bring_init_def)
  from engine_run_replays [OF inv publish_first_ok h this, of "\<lambda>a k q. q" 3] show ?thesis
    by simp
qed

section \<open>Hashing of client keys\<close>

text \<open>
  With a library that hashes 64-bit integers without collisions, the orders of one session never share a hash value,
  and neither do the sessions that use one order id when their number determines the hash: the multiplier is odd.
\<close>

lemma session_orders_hash_apart:
  assumes "inj h64" and "key_session k = key_session k'" and "OrderKeyHash h64 h32 k = OrderKeyHash h64 h32 k'"
  shows "k = k'"
proof -
  have "xor (xor a c) c = a" for a c :: u64
    by (simp add: xor.assoc)
  then have "h64 (key_client_order k) = h64 (key_client_order k')"
    using assms(2,3) unfolding OrderKeyHash_def by metis
  with assms(1,2) show ?thesis
    by (simp add: inj_eq)
qed

lemma sessions_hash_apart:
  assumes "inj h32" and "key_client_order k = key_client_order k'" and "OrderKeyHash h64 h32 k = OrderKeyHash h64 h32 k'"
  shows "k = k'"
proof -
  have cancel: "xor c (xor c a) = a" for a c :: u64
    by (simp add: xor.assoc [symmetric])
  have inverse: "(0x9E3779B97F4A7C15 :: u64) * 0xF1DE83E19937733D = 1"
    by simp
  have "h32 (key_session k) * 0x9E3779B97F4A7C15 = h32 (key_session k') * 0x9E3779B97F4A7C15"
    using assms(2,3) cancel unfolding OrderKeyHash_def by metis
  then have "h32 (key_session k) * (0x9E3779B97F4A7C15 * 0xF1DE83E19937733D) = h32 (key_session k') * (0x9E3779B97F4A7C15 * 0xF1DE83E19937733D)"
    by (simp only: mult.assoc [symmetric])
  then have "h32 (key_session k) = h32 (key_session k')"
    by (simp only: inverse mult_1_right)
  with assms(1,2) show ?thesis
    by (simp add: inj_eq)
qed

section \<open>Where the bookkeeping departs from the book\<close>



end
