(* ===== verification/Sequencer.thy ===== *)
theory Sequencer
  imports Broadcast_Ring
begin

text \<open>
  The sequencer of \<^verbatim>\<open>include/sequencer.hpp\<close>: one thread that drains three input queues in a
  fixed order, at most 32 events from each in turn, stamps every event with the next
  sequence number and publishes it on the broadcast ring, spinning while the slowest
  reader leaves no room. The thread is a program counter and one step per loop iteration
  or publishing attempt, so that producers, readers and \<^verbatim>\<open>stop\<close> can act between any two
  steps. The clock reading is an argument of the step. The theory shows that nothing is lost,
  duplicated or reordered whatever the schedule, and that a waiting event is published
  within a bounded number of the thread's own steps.
\<close>

section \<open>The sequencer\<close>

definition producer_count :: nat where
  "producer_count = 3"

definition kMaxBatch :: nat where
  "kMaxBatch = 32"

fun producer_of :: "nat \<Rightarrow> ProducerId" where
  "producer_of 0 = Gateway"
| "producer_of (Suc 0) = FeedReplay"
| "producer_of (Suc (Suc 0)) = Admin"
| "producer_of _ = Count"

datatype seq_pc =
    Seq_check                             \<comment> \<open>about to test \<^verbatim>\<open>running_\<close>\<close>
  | Seq_poll nat nat                      \<comment> \<open>producer \<open>p\<close>, \<open>i\<close> events of its batch done\<close>
  | Seq_publish nat nat SequencedEvent    \<comment> \<open>trying to publish a stamped event\<close>
  | Seq_done

record sequencer =
  inputs :: "SequencedEvent spsc list"
  seq_output :: "SequencedEvent bring"
  next_seq :: u64
  publish_stalls :: u64
  seq_running :: bool
  seq_thread_pc :: seq_pc

definition sequencer_init :: "nat \<Rightarrow> nat \<Rightarrow> nat \<Rightarrow> SequencedEvent \<Rightarrow> sequencer" where
  "sequencer_init in_cap maxc out_cap d = \<lparr>inputs = replicate producer_count (spsc_init in_cap d),
     seq_output = bring_init maxc out_cap d, next_seq = 1, publish_stalls = 0, seq_running = False, seq_thread_pc = Seq_done\<rparr>"

definition input_for :: "nat \<Rightarrow> sequencer \<Rightarrow> SequencedEvent spsc option" where
  "input_for p s = (if p < length (inputs s) then Some (inputs s ! p) else None)"

definition seq_start :: "sequencer \<Rightarrow> sequencer" where
  "seq_start s = s\<lparr>seq_running := True, seq_thread_pc := Seq_check\<rparr>"

text \<open>\<^verbatim>\<open>stop\<close> clears the flag and then waits for the thread to reach its end.\<close>

definition seq_stop :: "sequencer \<Rightarrow> sequencer" where
  "seq_stop s = s\<lparr>seq_running := False\<rparr>"

definition next_producer :: "nat \<Rightarrow> seq_pc" where
  "next_producer p = (if p + 1 < producer_count then Seq_poll (p + 1) 0 else Seq_check)"

definition next_in_batch :: "nat \<Rightarrow> nat \<Rightarrow> seq_pc" where
  "next_in_batch p i = (if i + 1 < kMaxBatch then Seq_poll p (i + 1) else next_producer p)"

text \<open>The event as the sequencer publishes it; only the three stamped fields change.\<close>

definition stamp :: "u64 \<Rightarrow> u64 \<Rightarrow> nat \<Rightarrow> SequencedEvent \<Rightarrow> SequencedEvent" where
  "stamp seq now p ev = ev\<lparr>ev_seq_num := seq, ev_sequence_ts_ns := now, ev_producer := producer_of p\<rparr>"

definition seq_thread :: "u64 \<Rightarrow> sequencer \<Rightarrow> sequencer option" where
  "seq_thread now s =
     (case seq_thread_pc s of
        Seq_check \<Rightarrow> Some (s\<lparr>seq_thread_pc := if seq_running s then Seq_poll 0 0 else Seq_done\<rparr>)
      | Seq_poll p i \<Rightarrow>
          (case spsc_pop (inputs s ! p) of
             None \<Rightarrow> Some (s\<lparr>seq_thread_pc := next_producer p\<rparr>)
           | Some (ev, q) \<Rightarrow>
               Some (s\<lparr>inputs := (inputs s)[p := q], next_seq := next_seq s + 1,
                       seq_thread_pc := Seq_publish p i (stamp (next_seq s) now p ev)\<rparr>))
      | Seq_publish p i ev \<Rightarrow>
          (case try_publish (seq_output s) ev of
             None \<Rightarrow> None
           | Some (False, b) \<Rightarrow> Some (s\<lparr>seq_output := b, publish_stalls := publish_stalls s + 1\<rparr>)
           | Some (True, b) \<Rightarrow> Some (s\<lparr>seq_output := b, seq_thread_pc := next_in_batch p i\<rparr>))
      | Seq_done \<Rightarrow> Some s)"

section \<open>The sequencer among its producers and readers\<close>

text \<open>
  One action of one of the threads: a producer pushes to its queue, the sequencer thread
  makes a step, a reader takes an event off the ring, or \<^verbatim>\<open>stop\<close> is called. The second
  component collects the pushes that were accepted, with the queue they went to.
\<close>

datatype seq_action = Produce nat SequencedEvent | Thread u64 | Read nat | Stop

fun seq_act :: "seq_action \<Rightarrow> sequencer \<times> (nat \<times> SequencedEvent) list \<Rightarrow> (sequencer \<times> (nat \<times> SequencedEvent) list) option" where
  "seq_act (Produce p ev) (s, acc) =
     (case input_for p s of
        None \<Rightarrow> None
      | Some q \<Rightarrow>
          (case spsc_push q ev of
             None \<Rightarrow> Some (s, acc)
           | Some q' \<Rightarrow> Some (s\<lparr>inputs := (inputs s)[p := q']\<rparr>, acc @ [(p, ev)])))"
| "seq_act (Thread now) (s, acc) = map_option (\<lambda>s'. (s', acc)) (seq_thread now s)"
| "seq_act (Read cid) (s, acc) =
     (case try_consume (seq_output s) cid of
        None \<Rightarrow> None
      | Some None \<Rightarrow> Some (s, acc)
      | Some (Some (ev, b)) \<Rightarrow> Some (s\<lparr>seq_output := b\<rparr>, acc))"
| "seq_act Stop (s, acc) = Some (seq_stop s, acc)"

section \<open>The invariant\<close>

text \<open>An event without the fields the sequencer overwrites.\<close>

definition payload :: "SequencedEvent \<Rightarrow> SequencedEvent" where
  "payload ev = ev\<lparr>ev_seq_num := 0, ev_sequence_ts_ns := 0, ev_producer := Count\<rparr>"

definition pushed_to :: "nat \<Rightarrow> (nat \<times> SequencedEvent) list \<Rightarrow> SequencedEvent list" where
  "pushed_to p acc = map snd (filter (\<lambda>a. fst a = p) acc)"

definition from_producer :: "nat \<Rightarrow> SequencedEvent list \<Rightarrow> SequencedEvent list" where
  "from_producer p evs = filter (\<lambda>ev. ev_producer ev = producer_of p) evs"

fun in_flight :: "seq_pc \<Rightarrow> SequencedEvent list" where
  "in_flight (Seq_publish p i ev) = [ev]"
| "in_flight _ = []"

fun pc_ok :: "seq_pc \<Rightarrow> bool" where
  "pc_ok (Seq_poll p i) \<longleftrightarrow> p < producer_count \<and> i < kMaxBatch"
| "pc_ok (Seq_publish p i ev) \<longleftrightarrow> p < producer_count \<and> i < kMaxBatch"
| "pc_ok _ \<longleftrightarrow> True"

definition numbered :: "SequencedEvent list \<Rightarrow> bool" where
  "numbered evs \<longleftrightarrow> map ev_seq_num evs = map of_nat [1..<Suc (length evs)]"

definition seq_inv :: "sequencer \<Rightarrow> (nat \<times> SequencedEvent) list \<Rightarrow> SequencedEvent list \<Rightarrow> bool" where
  "seq_inv s acc hist \<longleftrightarrow>
     (let evs = hist @ in_flight (seq_thread_pc s)
      in length (inputs s) = producer_count \<and> (\<forall>p < producer_count. spsc_inv (inputs s ! p)) \<and>
         pc_ok (seq_thread_pc s) \<and> bring_hist (seq_output s) hist \<and>
         next_seq s = of_nat (Suc (length evs)) \<and> numbered evs \<and> (\<forall>ev \<in> set evs. \<exists>p < producer_count. ev_producer ev = producer_of p) \<and>
         (\<forall>p < producer_count. map payload (from_producer p evs @ spsc_list (inputs s ! p)) = map payload (pushed_to p acc)))"

lemma producer_of_inj: "p < producer_count \<Longrightarrow> q < producer_count \<Longrightarrow> producer_of p = producer_of q \<longleftrightarrow> p = q"
  by (auto simp: producer_count_def less_Suc_eq numeral_3_eq_3)

lemma from_producer_append [simp]: "from_producer p (xs @ ys) = from_producer p xs @ from_producer p ys"
  by (simp add: from_producer_def)

lemma payload_stamp [simp]: "payload (stamp n t p ev) = payload ev"
  by (simp add: payload_def stamp_def)

lemma pushed_to_append [simp]: "pushed_to p (acc @ [(q, ev)]) = pushed_to p acc @ (if q = p then [ev] else [])"
  by (simp add: pushed_to_def)

lemma numbered_snoc: "numbered (evs @ [ev]) \<longleftrightarrow> numbered evs \<and> ev_seq_num ev = of_nat (Suc (length evs))"
  by (simp add: numbered_def)

lemma numbered_prefix: "numbered (evs @ fs) \<Longrightarrow> numbered evs"
  by (induction fs rule: rev_induct) (simp_all add: numbered_snoc flip: append_assoc)

lemma in_flight_next [simp]:
  "in_flight (next_producer p) = []" "in_flight (next_in_batch p i) = []"
  by (simp_all add: next_producer_def next_in_batch_def)

lemma pc_ok_next [simp]: "p < producer_count \<Longrightarrow> pc_ok (next_producer p)" "p < producer_count \<Longrightarrow> pc_ok (next_in_batch p i)"
  by (simp_all add: next_producer_def next_in_batch_def kMaxBatch_def)

lemma seq_inv_init:
  assumes "pow2 in_cap" and "pow2 out_cap" and "out_cap < 2 ^ 64"
  shows "seq_inv (sequencer_init in_cap maxc out_cap d) [] []"
  using assms spsc_init_inv [of in_cap d] bring_hist_init [of out_cap maxc d]
  by (simp add: seq_inv_def sequencer_init_def numbered_def from_producer_def pushed_to_def)

lemma seq_inv_output:
  "seq_inv s acc hist \<Longrightarrow> bring_hist b hist \<Longrightarrow> seq_inv (s\<lparr>seq_output := b\<rparr>) acc hist"
  by (simp add: seq_inv_def)

lemma seq_inv_idle_pc:
  assumes "seq_inv s acc hist" and "in_flight (seq_thread_pc s) = []" and "in_flight pc = []" and "pc_ok pc"
  shows "seq_inv (s\<lparr>seq_thread_pc := pc\<rparr>) acc hist"
  using assms by (simp add: seq_inv_def)

lemma seq_inv_pop:
  assumes "seq_inv s acc hist" and pc: "seq_thread_pc s = Seq_poll p i"
    and pop: "spsc_pop (inputs s ! p) = Some (ev, q)"
  shows "seq_inv (s\<lparr>inputs := (inputs s)[p := q], next_seq := next_seq s + 1,
      seq_thread_pc := Seq_publish p i (stamp (next_seq s) now p ev)\<rparr>) acc hist"
proof -
  let ?ev = "stamp (next_seq s) now p ev"
  have p: "p < producer_count" "i < kMaxBatch" "length (inputs s) = producer_count" "spsc_inv (inputs s ! p)"
    and num: "numbered hist" "next_seq s = of_nat (Suc (length hist))"
    and ev_of: "\<And>r. r < producer_count \<Longrightarrow>
      map payload (from_producer r hist @ spsc_list (inputs s ! r)) = map payload (pushed_to r acc)"
    using assms(1) pc by (auto simp: seq_inv_def)
  note q = sq.pop_Some [OF p(4) pop]
  have "numbered (hist @ [?ev])"
    using num by (simp add: numbered_snoc stamp_def)
  moreover have "from_producer r [?ev] = (if r = p then [?ev] else [])" if "r < producer_count" for r
    using producer_of_inj [OF p(1) that] by (auto simp: from_producer_def stamp_def)
  moreover have "ev_producer ?ev = producer_of p"
    by (simp add: stamp_def)
  ultimately show ?thesis
    using assms(1) p q num ev_of by (auto simp: seq_inv_def pc nth_list_update)
qed

lemma seq_inv_publish:
  assumes "seq_inv s acc hist" and pc: "seq_thread_pc s = Seq_publish p i ev" and "bring_hist b (hist @ [ev])"
  shows "seq_inv (s\<lparr>seq_output := b, seq_thread_pc := next_in_batch p i\<rparr>) acc (hist @ [ev])"
  using assms by (auto simp: seq_inv_def)

text \<open>A step of the thread either keeps the published history or extends it by the event in flight.\<close>

lemma seq_thread_inv:
  assumes inv: "seq_inv s acc hist" and fits: "Suc (length hist) < 2 ^ 64"
  obtains s' es where "seq_thread now s = Some s'" and "seq_inv s' acc (hist @ es)" and "length es \<le> 1"
    and "reader_pos (seq_output s') = reader_pos (seq_output s)"
    and "consumer_count (seq_output s') = consumer_count (seq_output s)"
    and "length (slots (seq_output s')) = length (slots (seq_output s))"
    and "seq_running s' = seq_running s"
proof (cases "seq_thread_pc s")
  case Seq_check
  with inv that [of "s\<lparr>seq_thread_pc := if seq_running s then Seq_poll 0 0 else Seq_done\<rparr>" "[]"] show thesis
    by (simp add: seq_thread_def seq_inv_idle_pc producer_count_def kMaxBatch_def)
next
  case (Seq_poll p i)
  then have p: "p < producer_count"
    using inv by (simp add: seq_inv_def)
  show thesis
  proof (cases "spsc_pop (inputs s ! p)")
    case None
    with Seq_poll inv p that [of "s\<lparr>seq_thread_pc := next_producer p\<rparr>" "[]"] show thesis
      by (simp add: seq_thread_def seq_inv_idle_pc)
  next
    case (Some r)
    then obtain ev q where r: "spsc_pop (inputs s ! p) = Some (ev, q)"
      by (cases r) auto
    from seq_inv_pop [OF inv Seq_poll r, of now] r Seq_poll show thesis
      by (intro that [of "s\<lparr>inputs := (inputs s)[p := q], next_seq := next_seq s + 1,
          seq_thread_pc := Seq_publish p i (stamp (next_seq s) now p ev)\<rparr>" "[]"]) (simp_all add: seq_thread_def)
  qed
next
  case (Seq_publish p i ev)
  have h: "bring_hist (seq_output s) hist"
    using inv by (simp add: seq_inv_def Let_def)
  obtain ok b where b: "try_publish (seq_output s) ev = Some (ok, b)" "bring_hist b (if ok then hist @ [ev] else hist)"
    "cursors b = cursors (seq_output s)" "consumer_count b = consumer_count (seq_output s)"
    "length (slots b) = length (slots (seq_output s))"
    using try_publish_spec [OF h fits, of ev] by metis
  then have pos: "reader_pos b = reader_pos (seq_output s)"
    by (simp add: reader_pos_def fun_eq_iff)
  show thesis
  proof (cases ok)
    case True
    with b inv Seq_publish pos seq_inv_publish [OF inv Seq_publish, of b] show thesis
      by (intro that [of "s\<lparr>seq_output := b, seq_thread_pc := next_in_batch p i\<rparr>" "[ev]"]) (simp_all add: seq_thread_def)
  next
    case False
    have "seq_inv (s\<lparr>seq_output := b, publish_stalls := publish_stalls s + 1\<rparr>) acc hist"
      using inv b(2) False by (simp add: seq_inv_def)
    with False b Seq_publish pos show thesis
      by (intro that [of "s\<lparr>seq_output := b, publish_stalls := publish_stalls s + 1\<rparr>" "[]"]) (simp_all add: seq_thread_def)
  qed
next
  case Seq_done
  with inv that [of s "[]"] show thesis by (simp add: seq_thread_def)
qed

fun act_ok :: "nat \<Rightarrow> seq_action \<Rightarrow> bool" where
  "act_ok readers (Produce p ev) \<longleftrightarrow> p < producer_count"
| "act_ok readers (Read cid) \<longleftrightarrow> cid < readers"
| "act_ok readers _ \<longleftrightarrow> True"

lemma seq_act_inv:
  assumes inv: "seq_inv s acc hist" and fits: "Suc (length hist) < 2 ^ 64"
    and ok: "act_ok (consumer_count (seq_output s)) a"
  obtains s' acc' es where "seq_act a (s, acc) = Some (s', acc')" and "seq_inv s' acc' (hist @ es)" and "length es \<le> 1"
    and "consumer_count (seq_output s') = consumer_count (seq_output s)"
proof (cases a)
  case (Produce p ev)
  with ok inv have p: "p < producer_count" "length (inputs s) = producer_count" "spsc_inv (inputs s ! p)"
    by (auto simp: seq_inv_def Let_def)
  show thesis
  proof (cases "spsc_push (inputs s ! p) ev")
    case None
    with Produce p inv that [of s acc "[]"] show thesis by (simp add: input_for_def)
  next
    case (Some q)
    from sq.push_Some [OF p(3) Some] p inv
    have "seq_inv (s\<lparr>inputs := (inputs s)[p := q]\<rparr>) (acc @ [(p, ev)]) (hist @ [])"
      by (auto simp: seq_inv_def Let_def nth_list_update simp flip: append_assoc)
    with Some Produce p that [of _ "acc @ [(p, ev)]" "[]"] show thesis by (simp add: input_for_def)
  qed
next
  case (Thread now)
  from seq_thread_inv [OF inv fits, of now] obtain s' es where
    "seq_thread now s = Some s'" "seq_inv s' acc (hist @ es)" "length es \<le> 1"
    "consumer_count (seq_output s') = consumer_count (seq_output s)"
    by metis
  with Thread that show thesis by simp
next
  case (Read cid)
  have h: "bring_hist (seq_output s) hist" "cid < consumer_count (seq_output s)"
    using inv ok Read by (simp_all add: seq_inv_def Let_def)
  show thesis
  proof (cases "reader_pos (seq_output s) cid = length hist")
    case True
    with bl.consume_end [OF h] inv Read that [of s acc "[]"] show thesis by simp
  next
    case False
    with bl.pos_le [OF h] bl.consume_next [OF h] obtain b where
      b: "try_consume (seq_output s) cid = Some (Some (hist ! reader_pos (seq_output s) cid, b))" "bring_hist b hist"
        "consumer_count b = consumer_count (seq_output s)"
      by auto
    with seq_inv_output [OF inv b(2)] Read that [of _ acc "[]"] show thesis by simp
  qed
next
  case Stop
  with inv that [of "seq_stop s" acc "[]"] show thesis by (simp add: seq_stop_def seq_inv_def)
qed

lemma seq_acts_inv:
  assumes "seq_inv s acc hist" and "Suc (length hist + length acts) < 2 ^ 64"
    and "\<forall>a \<in> set acts. act_ok (consumer_count (seq_output s)) a"
  shows "\<exists>s' acc' es. fold_opt seq_act acts (s, acc) = Some (s', acc') \<and> seq_inv s' acc' (hist @ es)"
  using assms
proof (induction acts arbitrary: s acc hist)
  case Nil
  then show ?case by (auto intro: exI [of _ "[]"])
next
  case (Cons a acts)
  from Cons.prems obtain s1 acc1 es where 1: "seq_act a (s, acc) = Some (s1, acc1)" "seq_inv s1 acc1 (hist @ es)" "length es \<le> 1"
    "consumer_count (seq_output s1) = consumer_count (seq_output s)"
    using seq_act_inv [of s acc hist a] by (metis (no_types, lifting) add_lessD1 add_Suc list.set_intros(1))
  with Cons.IH [OF 1(2)] Cons.prems(2,3) obtain s' acc' fs where
    "fold_opt seq_act acts (s1, acc1) = Some (s', acc')" "seq_inv s' acc' ((hist @ es) @ fs)"
    by (auto simp: 1(4))
  with 1(1) show ?case by (auto intro: exI [of _ "es @ fs"])
qed

lemma seq_inv_log:
  assumes "seq_inv s acc hist"
  shows "bring_hist (seq_output s) hist" and "numbered hist"
    and "p < producer_count \<Longrightarrow> map payload (from_producer p (hist @ in_flight (seq_thread_pc s)) @ spsc_list (inputs s ! p)) =
      map payload (pushed_to p acc)"
  using assms numbered_prefix by (auto simp: seq_inv_def Let_def)

text \<open>With a single producer the history, the event in flight and the queue are its pushes.\<close>

lemma seq_inv_single:
  assumes inv: "seq_inv s acc hist" and one: "\<forall>a \<in> set acc. fst a = 0"
  shows "map payload (hist @ in_flight (seq_thread_pc s) @ spsc_list (inputs s ! 0)) = map payload (map snd acc)"
proof -
  let ?evs = "hist @ in_flight (seq_thread_pc s)"
  have none: "pushed_to p acc = []" if "p \<noteq> 0" for p
    using one that by (auto simp: pushed_to_def filter_empty_conv)
  have "ev_producer ev = producer_of 0" if ev: "ev \<in> set ?evs" for ev
  proof -
    have "\<forall>ev \<in> set ?evs. \<exists>p < producer_count. ev_producer ev = producer_of p"
      using inv by (simp add: seq_inv_def Let_def)
    with ev obtain p where p: "p < producer_count" "ev_producer ev = producer_of p"
      by blast
    then have "ev \<in> set (from_producer p ?evs)"
      using ev by (auto simp: from_producer_def)
    with seq_inv_log(3) [OF inv p(1)] none [of p] p(2) show ?thesis
      by (cases "p = 0") (auto simp del: from_producer_append)
  qed
  then have "from_producer 0 ?evs = ?evs"
    by (simp add: from_producer_def filter_id_conv del: producer_of.simps)
  moreover have "pushed_to 0 acc = map snd acc"
    using one by (simp add: pushed_to_def)
  ultimately show ?thesis
    using seq_inv_log(3) [OF inv, of 0] by (simp add: producer_count_def del: from_producer_append)
qed

section \<open>Properties\<close>

text \<open>
  (C19) The total order loses nothing. For every schedule of producers, sequencer thread,
  readers and \<^verbatim>\<open>stop\<close>, the run is defined, the events on the ring carry the sequence
  numbers 1, 2, 3, ... without a gap, and for each producer the events published from its
  queue, then the one in flight, then those still queued are exactly the accepted
  pushes of that producer in the order it made them.
\<close>
theorem sequencer_total_order:
  assumes "pow2 in_cap" and "pow2 out_cap" and "out_cap < 2 ^ 64"
    and "bring_hist b []" and "length acts < 2 ^ 63" and "\<forall>a \<in> set acts. act_ok (consumer_count b) a"
  shows "\<exists>s acc hist. fold_opt seq_act acts (seq_start (sequencer_init in_cap maxc out_cap d)\<lparr>seq_output := b\<rparr>, []) = Some (s, acc) \<and>
    bring_hist (seq_output s) hist \<and> map ev_seq_num hist = map of_nat [1..<Suc (length hist)] \<and>
    (\<forall>p < producer_count. map payload (from_producer p (hist @ in_flight (seq_thread_pc s)) @ spsc_list (inputs s ! p)) =
       map payload (pushed_to p acc))"
proof -
  let ?s = "seq_start (sequencer_init in_cap maxc out_cap d)\<lparr>seq_output := b\<rparr>"
  have "seq_inv ?s [] []"
    using seq_inv_init [OF assms(1-3), of maxc d] assms(4) by (simp add: seq_inv_def seq_start_def sequencer_init_def)
  with assms(5,6) obtain s acc es where "fold_opt seq_act acts (?s, []) = Some (s, acc)" "seq_inv s acc es"
    using seq_acts_inv [of ?s "[]" "[]" acts] by auto
  then show ?thesis
    by (intro exI [of _ s] exI [of _ acc] exI [of _ es]) (simp add: seq_inv_log seq_inv_log(2) [unfolded numbered_def] del: map_append from_producer_append upt_Suc)
qed

definition idle_event :: SequencedEvent where
  "idle_event = \<lparr>ev_seq_num = 0, ev_ingress_ts_ns = 0, ev_sequence_ts_ns = 0, ev_type = Ev_Admin, ev_producer = Count,
     ev_session_id = 0, ev_client_order_id = 0, ev_side = Buy, ev_price = 0, ev_quantity = 0\<rparr>"

lemma pow2_small: "pow2 4" "pow2 1024"
  by (auto simp: pow2_def intro: exI [of _ 2] exI [of _ 10])

definition demo_seq_ring :: "SequencedEvent bring" where
  "demo_seq_ring = snd (register_consumer (bring_init 8 1024 idle_event))"

definition demo_sequencer :: sequencer where
  "demo_sequencer = seq_start (sequencer_init 4 8 1024 idle_event)\<lparr>seq_output := demo_seq_ring\<rparr>"

definition demo_actions :: "seq_action list" where
  "demo_actions = [Produce 2 idle_event, Thread 5, Thread 6, Produce 0 idle_event, Read 0, Stop]"

lemma demo_seq_ring: "bring_hist demo_seq_ring []" "consumer_count demo_seq_ring = 1"
  using bring_hist_register [OF bring_hist_init [of 1024 8 idle_event]]
  by (simp_all add: demo_seq_ring_def pow2_small) (simp_all add: register_consumer_def bring_init_def)

theorem sequencer_total_order_witness:
  "\<exists>s acc hist. fold_opt seq_act demo_actions (seq_start (sequencer_init 4 8 1024 idle_event)\<lparr>seq_output := demo_seq_ring\<rparr>, []) = Some (s, acc) \<and>
    bring_hist (seq_output s) hist \<and> map ev_seq_num hist = map of_nat [1..<Suc (length hist)] \<and>
    (\<forall>p < producer_count. map payload (from_producer p (hist @ in_flight (seq_thread_pc s)) @ spsc_list (inputs s ! p)) =
       map payload (pushed_to p acc))"
  by (rule sequencer_total_order) (simp_all add: pow2_small demo_seq_ring demo_actions_def producer_count_def)

section \<open>Progress\<close>

text \<open>How many steps the thread makes at most before it pops from queue \<open>p\<close>.\<close>

fun steps_to :: "nat \<Rightarrow> seq_pc \<Rightarrow> nat" where
  "steps_to p Seq_check = 64 * p + 1"
| "steps_to p (Seq_poll r i) =
     (if r = p then 0 else if r < p then 2 * (32 - i) + 64 * (p - r - 1) else 2 * (32 - i) + 64 * (2 - r) + 64 * p + 1)"
| "steps_to p (Seq_publish r i ev) =
     (if r = p then (if i + 1 < 32 then 1 else 64 * (2 - r) + 64 * p + 2)
      else if r < p then 2 * (32 - i) - 1 + 64 * (p - r - 1) else 2 * (32 - i) + 64 * (2 - r) + 64 * p)"
| "steps_to p Seq_done = 0"

lemma steps_to_bound: "pc_ok pc \<Longrightarrow> p < producer_count \<Longrightarrow> steps_to p pc \<le> 196"
  by (cases "(p, pc)" rule: steps_to.cases) (auto simp: producer_count_def kMaxBatch_def)

lemma steps_to_next:
  assumes "r < producer_count" and "i < kMaxBatch" and "p < producer_count"
  shows "r \<noteq> p \<Longrightarrow> steps_to p (next_producer r) < steps_to p (Seq_poll r i)"
    and "r \<noteq> p \<Longrightarrow> steps_to p (Seq_publish r i ev) < steps_to p (Seq_poll r i)"
    and "steps_to p (next_in_batch r i) < steps_to p (Seq_publish r i ev)"
  using assms by (auto simp: next_producer_def next_in_batch_def producer_count_def kMaxBatch_def)

definition has_room :: "nat \<Rightarrow> SequencedEvent list \<Rightarrow> sequencer \<Rightarrow> bool" where
  "has_room n hist s \<longleftrightarrow> Suc (length hist + n) < 2 ^ 64 \<and>
     (\<forall>i < consumer_count (seq_output s). length hist + n < reader_pos (seq_output s) i + length (slots (seq_output s)))"

lemma try_publish_room:
  assumes "seq_inv s acc hist" and "has_room n hist s"
  obtains b where "try_publish (seq_output s) ev = Some (True, b)" and "bring_hist b (hist @ [ev])"
    and "reader_pos b = reader_pos (seq_output s)" and "consumer_count b = consumer_count (seq_output s)"
    and "length (slots b) = length (slots (seq_output s))"
proof -
  have fits: "Suc (length hist) < 2 ^ 64"
    using assms(2) by (simp add: has_room_def)
  obtain ok b where b: "try_publish (seq_output s) ev = Some (ok, b)" "bring_hist b (if ok then hist @ [ev] else hist)"
    "cursors b = cursors (seq_output s)" "consumer_count b = consumer_count (seq_output s)"
    "length (slots b) = length (slots (seq_output s))"
    "ok \<longleftrightarrow> (\<forall>i < consumer_count (seq_output s). length hist < reader_pos (seq_output s) i + length (slots (seq_output s)))"
    using try_publish_spec [OF seq_inv_log(1) [OF assms(1)] fits, of ev] by metis
  moreover have ok
    using b(6) assms(2) by (auto simp: has_room_def intro: add_lessD1)
  ultimately show thesis
    using that by (simp add: reader_pos_def fun_eq_iff)
qed

lemma has_room_mono: "has_room (Suc n) hist s \<Longrightarrow> has_room n hist s"
  by (auto simp: has_room_def)

lemma seq_thread_approach:
  assumes inv: "seq_inv s acc hist" and room: "has_room (Suc n) hist s" and "seq_running s" and p: "p < producer_count"
    and "seq_thread_pc s \<noteq> Seq_done" and far: "\<And>i. seq_thread_pc s \<noteq> Seq_poll p i"
  obtains s' es where "seq_thread now s = Some s'" and "seq_inv s' acc (hist @ es)" and "has_room n (hist @ es) s'"
    and "seq_running s'" and "seq_thread_pc s' \<noteq> Seq_done" and "inputs s' ! p = inputs s ! p"
    and "steps_to p (seq_thread_pc s') < steps_to p (seq_thread_pc s)"
proof (cases "seq_thread_pc s")
  case Seq_check
  have "seq_inv (s\<lparr>seq_thread_pc := Seq_poll 0 0\<rparr>) acc (hist @ [])"
    using inv Seq_check by (simp add: seq_inv_idle_pc producer_count_def kMaxBatch_def)
  moreover have "has_room n (hist @ []) (s\<lparr>seq_thread_pc := Seq_poll 0 0\<rparr>)"
    using has_room_mono [OF room] by (simp add: has_room_def)
  ultimately show thesis
    using Seq_check assms(3) by (intro that [of "s\<lparr>seq_thread_pc := Seq_poll 0 0\<rparr>" "[]"]) (auto simp: seq_thread_def)
next
  case (Seq_poll r i)
  then have r: "r < producer_count" "i < kMaxBatch" "r \<noteq> p"
    using inv far by (auto simp: seq_inv_def)
  show thesis
  proof (cases "spsc_pop (inputs s ! r)")
    case None
    let ?s = "s\<lparr>seq_thread_pc := next_producer r\<rparr>"
    have "seq_inv ?s acc (hist @ [])" "has_room n (hist @ []) ?s"
      using inv Seq_poll r has_room_mono [OF room] by (simp_all add: seq_inv_idle_pc has_room_def)
    with None Seq_poll assms(3) steps_to_next(1) [OF r(1,2) p r(3)] show thesis
      by (intro that [of ?s "[]"]) (auto simp: seq_thread_def next_producer_def)
  next
    case (Some x)
    then obtain ev q where x: "spsc_pop (inputs s ! r) = Some (ev, q)"
      by (cases x) auto
    let ?s = "s\<lparr>inputs := (inputs s)[r := q], next_seq := next_seq s + 1,
          seq_thread_pc := Seq_publish r i (stamp (next_seq s) now r ev)\<rparr>"
    have "seq_inv ?s acc (hist @ [])" "has_room n (hist @ []) ?s"
      using seq_inv_pop [OF inv Seq_poll x] has_room_mono [OF room] by (simp_all add: has_room_def)
    with x Seq_poll assms(3) r steps_to_next(2) [OF r(1,2) p r(3)] show thesis
      by (intro that [of ?s "[]"]) (simp_all add: seq_thread_def)
  qed
next
  case (Seq_publish r i ev)
  then have r: "r < producer_count" "i < kMaxBatch"
    using inv by (auto simp: seq_inv_def)
  from try_publish_room [OF inv room, of ev] obtain b where b: "try_publish (seq_output s) ev = Some (True, b)"
    "bring_hist b (hist @ [ev])" "reader_pos b = reader_pos (seq_output s)"
    "consumer_count b = consumer_count (seq_output s)" "length (slots b) = length (slots (seq_output s))"
    by blast
  let ?s = "s\<lparr>seq_output := b, seq_thread_pc := next_in_batch r i\<rparr>"
  have "seq_inv ?s acc (hist @ [ev])" "has_room n (hist @ [ev]) ?s"
    using seq_inv_publish [OF inv Seq_publish b(2)] room b by (simp_all add: has_room_def)
  with b Seq_publish assms(3) steps_to_next(3) [OF r p] show thesis
    by (intro that [of ?s "[ev]"]) (auto simp: seq_thread_def next_in_batch_def next_producer_def)
qed (use assms in simp)

lemma seq_reaches_poll:
  assumes "seq_inv s acc hist" and "has_room n hist s" and "seq_running s" and "p < producer_count"
    and "seq_thread_pc s \<noteq> Seq_done" and "steps_to p (seq_thread_pc s) \<le> n" and "n \<le> length ts"
  obtains k s' es i where "k \<le> n" and "fold_opt seq_thread (take k ts) s = Some s'" and "seq_inv s' acc (hist @ es)"
    and "has_room 0 (hist @ es) s'" and "seq_thread_pc s' = Seq_poll p i" and "inputs s' ! p = inputs s ! p"
  using assms
proof (induction n arbitrary: s hist ts thesis)
  case 0
  then obtain i where "seq_thread_pc s = Seq_poll p i"
    by (cases "seq_thread_pc s") (auto simp: seq_inv_def kMaxBatch_def split: if_splits)
  with 0 show ?case by (intro "0.prems"(1) [of 0 s "[]" i]) simp_all
next
  case (Suc n)
  show ?case
  proof (cases "\<exists>i. seq_thread_pc s = Seq_poll p i")
    case True
    moreover have "has_room 0 hist s"
      using Suc.prems(3) by (auto simp: has_room_def intro: add_lessD1)
    ultimately show ?thesis
      using Suc.prems(2) by (auto intro: Suc.prems(1) [of 0 s "[]"])
  next
    case False
    from Suc.prems(8) obtain t us where ts: "ts = t # us" "n \<le> length us"
      by (cases ts) auto
    from False seq_thread_approach [OF Suc.prems(2,3,4,5,6), of t] obtain s1 es where
      1: "seq_thread t s = Some s1" "seq_inv s1 acc (hist @ es)" "has_room n (hist @ es) s1" "seq_running s1"
        "seq_thread_pc s1 \<noteq> Seq_done" "inputs s1 ! p = inputs s ! p" "steps_to p (seq_thread_pc s1) < steps_to p (seq_thread_pc s)"
      by metis
    then have "steps_to p (seq_thread_pc s1) \<le> n"
      using Suc.prems(7) by simp
    from Suc.IH [OF _ 1(2-4) Suc.prems(5) 1(5) this ts(2)] obtain k s' fs i where
      "k \<le> n" "fold_opt seq_thread (take k us) s1 = Some s'" "seq_inv s' acc ((hist @ es) @ fs)"
      "has_room 0 ((hist @ es) @ fs) s'" "seq_thread_pc s' = Seq_poll p i" "inputs s' ! p = inputs s1 ! p"
      by blast
    with 1 ts show ?thesis
      by (intro Suc.prems(1) [of "Suc k" s' "es @ fs" i]) simp_all
  qed
qed

lemma fold_opt_take_add:
  assumes "fold_opt f (take k ts) s = Some s1" and "fold_opt f (take m (drop k ts)) s1 = Some s2"
  shows "fold_opt f (take (k + m) ts) s = Some s2"
  using assms by (simp add: take_add fold_opt_append)

lemma seq_pop_publish:
  assumes inv: "seq_inv s acc hist" and room: "has_room n hist s" and pc: "seq_thread_pc s = Seq_poll p i"
    and "spsc_list (inputs s ! p) = x # xs"
  shows "\<exists>s' x'. fold_opt seq_thread [t, u] s = Some s' \<and> seq_inv s' acc (hist @ [x']) \<and> x' = stamp (next_seq s) t p x \<and>
    spsc_list (inputs s' ! p) = xs"
proof -
  have p: "p < producer_count" "length (inputs s) = producer_count" "spsc_inv (inputs s ! p)"
    using inv pc by (auto simp: seq_inv_def)
  obtain q where q: "spsc_pop (inputs s ! p) = Some (x, q)" "spsc_list q = xs"
    using sq.pop_Cons [OF p(3) assms(4)] by metis
  let ?x = "stamp (next_seq s) t p x"
  let ?s = "s\<lparr>inputs := (inputs s)[p := q], next_seq := next_seq s + 1, seq_thread_pc := Seq_publish p i ?x\<rparr>"
  have s: "seq_inv ?s acc hist" "has_room n hist ?s"
    using seq_inv_pop [OF inv pc q(1)] room by (simp_all add: has_room_def)
  from try_publish_room [OF s] obtain b where b: "try_publish (seq_output ?s) ?x = Some (True, b)" "bring_hist b (hist @ [?x])"
    by metis
  from seq_inv_publish [OF s(1) _ b(2)] show ?thesis
    using b(1) q pc p by (simp add: seq_thread_def)
qed

text \<open>
  (C20) Progress: while the sequencer runs and its readers leave room, the oldest event waiting
  in any producer's queue is published after at most 198 steps of the thread, no matter how
  full the other queues are. This is what the bounded batch per producer is for.
\<close>
theorem sequencer_no_starvation:
  assumes "seq_inv s acc hist" and "seq_running s" and "seq_thread_pc s \<noteq> Seq_done" and "p < producer_count"
    and "spsc_list (inputs s ! p) = x # xs" and "has_room 196 hist s" and "198 \<le> length ts"
  shows "\<exists>k s' es x'. k \<le> 198 \<and> fold_opt seq_thread (take k ts) s = Some s' \<and> bring_hist (seq_output s') (hist @ es @ [x']) \<and>
    payload x' = payload x \<and> ev_producer x' = producer_of p \<and> spsc_list (inputs s' ! p) = xs"
proof -
  have "steps_to p (seq_thread_pc s) \<le> 196"
    using assms(1,4) by (intro steps_to_bound) (auto simp: seq_inv_def Let_def)
  moreover have "196 \<le> length ts"
    using assms(7) by simp
  ultimately obtain k s1 es i where
    1: "k \<le> 196" "fold_opt seq_thread (take k ts) s = Some s1" "seq_inv s1 acc (hist @ es)"
      "has_room 0 (hist @ es) s1" "seq_thread_pc s1 = Seq_poll p i" "inputs s1 ! p = inputs s ! p"
    using seq_reaches_poll [OF assms(1,6,2,4,3)] by blast
  have "take 2 (drop k ts) = [ts ! k, ts ! Suc k]"
    using 1(1) assms(7) by (simp add: take_Suc_conv_app_nth numeral_2_eq_2)
  with seq_pop_publish [OF 1(3,4,5), of x xs "ts ! k" "ts ! Suc k"] 1(6) assms(5) obtain s2 x' where
    2: "fold_opt seq_thread (take 2 (drop k ts)) s1 = Some s2" "seq_inv s2 acc ((hist @ es) @ [x'])"
      "x' = stamp (next_seq s1) (ts ! k) p x" "spsc_list (inputs s2 ! p) = xs"
    by auto
  have "bring_hist (seq_output s2) (hist @ es @ [x'])"
    using seq_inv_log(1) [OF 2(2)] by simp
  moreover have "payload x' = payload x" "ev_producer x' = producer_of p"
    unfolding 2(3) by (simp_all) (simp add: stamp_def)
  ultimately show ?thesis
    using fold_opt_take_add [OF 1(2) 2(1)] 1(1) 2(4)
    by (intro exI [of _ "k + 2"] exI [of _ s2] exI [of _ es] exI [of _ x']) simp
qed

text \<open>One event waits in the last queue.\<close>

definition demo_waiting :: sequencer where
  "demo_waiting = fst (the (seq_act (Produce 2 idle_event) (demo_sequencer, [])))"

lemma demo_waiting:
  "seq_inv demo_waiting [(2, idle_event)] []" "spsc_list (inputs demo_waiting ! 2) = [idle_event]"
  "has_room 196 [] demo_waiting" "seq_running demo_waiting" "seq_thread_pc demo_waiting = Seq_check"
proof -
  let ?q = "spsc_init 4 idle_event"
  have q: "spsc_inv ?q" "spsc_list ?q = []"
    by (simp_all add: spsc_init_inv pow2_small)
  have in2: "input_for 2 demo_sequencer = Some ?q"
    by (simp add: input_for_def demo_sequencer_def seq_start_def sequencer_init_def producer_count_def numeral_nat)
  obtain q' where q': "spsc_push ?q idle_event = Some q'" "spsc_list q' = [idle_event]" "spsc_inv q'"
    using sq.push_room [OF q(1), of idle_event] q(2) by (auto simp: spsc_init_def)
  have w: "demo_waiting = demo_sequencer\<lparr>inputs := (inputs demo_sequencer)[2 := q']\<rparr>"
    by (simp add: demo_waiting_def in2 q')
  have inv: "seq_inv demo_sequencer [] []"
    using seq_inv_init [OF pow2_small, of 8 idle_event] demo_seq_ring
    by (simp add: seq_inv_def seq_start_def sequencer_init_def demo_sequencer_def)
  from inv q' show "seq_inv demo_waiting [(2, idle_event)] []"
    by (auto simp: seq_inv_def w Let_def nth_list_update demo_sequencer_def seq_start_def sequencer_init_def
        producer_count_def pushed_to_def from_producer_def)
  show "spsc_list (inputs demo_waiting ! 2) = [idle_event]" "has_room 196 [] demo_waiting" "seq_running demo_waiting"
    "seq_thread_pc demo_waiting = Seq_check"
    using q' demo_seq_ring by (simp_all add: w demo_sequencer_def seq_start_def sequencer_init_def producer_count_def
        has_room_def reader_pos_def demo_seq_ring_def register_consumer_def bring_init_def)
qed

theorem sequencer_no_starvation_witness:
  "\<exists>k s' es x'. k \<le> 198 \<and> fold_opt seq_thread (take k (replicate 198 7)) demo_waiting = Some s' \<and>
    bring_hist (seq_output s') ([] @ es @ [x']) \<and> payload x' = payload idle_event \<and> ev_producer x' = producer_of 2 \<and>
    spsc_list (inputs s' ! 2) = []"
  by (rule sequencer_no_starvation [OF demo_waiting(1,4) _ _ demo_waiting(2,3)])
    (simp_all add: demo_waiting(5) producer_count_def)

end
