(* ===== verification/Log_Consumer.thy ===== *)
theory Log_Consumer
  imports Broadcast_Ring
begin

text \<open>
  The loop that the persistence threads run over the broadcast ring
  (\<^verbatim>\<open>WalConsumer::run\<close> and \<^verbatim>\<open>DbConsumer::run\<close>): while running, a batch of at most 32 events
  followed by an idle action; after \<^verbatim>\<open>stop\<close>, a drain of what is left. The interface
  \<open>log_consumer\<close> says what handling an event and idling must keep (the number counts the
  rounds still to come), and its lemmas follow the loop to the end for every such consumer.
\<close>

text \<open>What the sequencer does to the ring between two rounds: it only appends to the history.\<close>

definition publishes :: "(nat \<Rightarrow> 'e bring \<Rightarrow> 'e bring) \<Rightarrow> bool" where
  "publishes penv \<longleftrightarrow> (\<forall>n b es. bring_hist b es \<longrightarrow>
     (\<exists>es'. bring_hist (penv n b) (es @ es')) \<and>
     reader_pos (penv n b) = reader_pos b \<and> consumer_count (penv n b) = consumer_count b)"

fun consumer_rounds ::
  "(nat \<Rightarrow> 'e bring \<Rightarrow> 'e bring) \<Rightarrow> ('e \<Rightarrow> 's \<Rightarrow> 's option) \<Rightarrow> (nat \<Rightarrow> 's \<Rightarrow> 's option) \<Rightarrow> nat \<Rightarrow> nat \<Rightarrow> 'e bring \<Rightarrow> 's
     \<Rightarrow> ('e bring \<times> 's) option" where
  "consumer_rounds penv f idle 0 cid b s = Some (b, s)"
| "consumer_rounds penv f idle (Suc n) cid b s =
     (case consume_batch try_consume 32 cid f (penv n b) s of
        None \<Rightarrow> None
      | Some (b', s', k) \<Rightarrow>
          (case idle n s' of None \<Rightarrow> None | Some s'' \<Rightarrow> consumer_rounds penv f idle n cid b' s''))"

definition consumer_run ::
  "(nat \<Rightarrow> 'e bring \<Rightarrow> 'e bring) \<Rightarrow> ('e \<Rightarrow> 's \<Rightarrow> 's option) \<Rightarrow> (nat \<Rightarrow> 's \<Rightarrow> 's option) \<Rightarrow> nat \<Rightarrow> nat \<Rightarrow> 'e bring \<Rightarrow> 's
     \<Rightarrow> ('e bring \<times> 's) option" where
  "consumer_run penv f idle n cid b s =
     (case consumer_rounds penv f idle n cid b s of
        None \<Rightarrow> None
      | Some (b', s') \<Rightarrow> consume_all try_consume cid f b' s')"

text \<open>
  A reader that handles the events of a history one by one: \<open>seen es s\<close> says that \<open>s\<close> is a state after the
  events \<open>es\<close>, and the reader can handle every event that continues an acceptable history.
\<close>

definition consume_one :: "('e \<Rightarrow> 's \<Rightarrow> 's option) \<Rightarrow> nat \<Rightarrow> 'e bring \<Rightarrow> 's \<Rightarrow> ('e bring \<times> 's) option" where
  "consume_one f cid b s =
     (case try_consume b cid of
        None \<Rightarrow> None
      | Some None \<Rightarrow> Some (b, s)
      | Some (Some (ev, b')) \<Rightarrow> map_option (Pair b') (f ev s))"

locale ring_reader =
  fixes f :: "'e \<Rightarrow> 's \<Rightarrow> 's option"
    and acceptable :: "'e list \<Rightarrow> bool"
    and seen :: "'e list \<Rightarrow> 's \<Rightarrow> bool"
  assumes prefix_acceptable: "acceptable (es @ fs) \<Longrightarrow> acceptable es"
    and handle: "acceptable (es @ [e]) \<Longrightarrow> seen es s \<Longrightarrow> \<exists>s'. f e s = Some s' \<and> seen (es @ [e]) s'"
begin

lemma handle_all: "acceptable (es @ fs) \<Longrightarrow> seen es s \<Longrightarrow> \<exists>s'. fold_opt f fs s = Some s' \<and> seen (es @ fs) s'"
proof (induction fs arbitrary: es s)
  case (Cons e fs)
  have "acceptable (es @ [e])"
    using prefix_acceptable [of "es @ [e]" fs] Cons.prems(1) by simp
  from handle [OF this Cons.prems(2)] obtain s1 where s1: "f e s = Some s1" "seen (es @ [e]) s1"
    by blast
  from Cons.IH [OF _ s1(2)] Cons.prems(1) s1(1) show ?case by simp
qed simp

lemma one_seen:
  assumes "bring_hist b es" and "cid < consumer_count b" and "acceptable es" and "seen (take (reader_pos b cid) es) s"
  shows "\<exists>b' s'. consume_one f cid b s = Some (b', s') \<and> bring_hist b' es \<and> consumer_count b' = consumer_count b \<and>
    seen (take (reader_pos b' cid) es) s' \<and> (\<forall>i. i \<noteq> cid \<longrightarrow> reader_pos b' i = reader_pos b i)"
proof (cases "reader_pos b cid < length es")
  case False
  with bl.pos_le [OF assms(1,2)] have "try_consume b cid = Some None"
    by (intro bl.consume_end [OF assms(1,2)]) simp
  with assms show ?thesis by (auto simp: consume_one_def)
next
  case True
  from bl.consume_next [OF assms(1,2) True] obtain b' where
    b': "try_consume b cid = Some (Some (es ! reader_pos b cid, b'))" "bring_hist b' es"
      "reader_pos b' = (reader_pos b)(cid := Suc (reader_pos b cid))" "consumer_count b' = consumer_count b"
    by blast
  have next_event: "take (Suc (reader_pos b cid)) es = take (reader_pos b cid) es @ [es ! reader_pos b cid]"
    using True by (rule take_Suc_conv_app_nth)
  have "acceptable (take (Suc (reader_pos b cid)) es)"
    using assms(3) prefix_acceptable [of _ "drop (Suc (reader_pos b cid)) es"] by simp
  then obtain s' where "f (es ! reader_pos b cid) s = Some s'" "seen (take (Suc (reader_pos b cid)) es) s'"
    using handle [OF _ assms(4)] unfolding next_event by blast
  with b' show ?thesis by (simp add: consume_one_def)
qed

lemma drain_seen:
  assumes "bring_hist b es" and "cid < consumer_count b" and "acceptable es" and "seen (take (reader_pos b cid) es) s"
  shows "\<exists>b' s'. consume_all try_consume cid f b s = Some (b', s') \<and> bring_hist b' es \<and> consumer_count b' = consumer_count b \<and>
    seen es s' \<and> reader_pos b' = (reader_pos b)(cid := length es)"
proof -
  from handle_all [of _ "drop (reader_pos b cid) es", OF _ assms(4)] assms(3) obtain s' where
    "fold_opt f (drop (reader_pos b cid) es) s = Some s'" "seen es s'"
    by auto
  with bl.consume_all_log [OF assms(1,2) this(1)] show ?thesis by blast
qed

end

locale log_consumer =
  fixes f :: "'e \<Rightarrow> 's \<Rightarrow> 's option"
    and idle :: "nat \<Rightarrow> 's \<Rightarrow> 's option"
    and seen :: "nat \<Rightarrow> 'e list \<Rightarrow> 's \<Rightarrow> bool"
  assumes handles: "seen k es s \<Longrightarrow> \<exists>s'. f e s = Some s' \<and> seen k (es @ [e]) s'"
    and idles: "seen (Suc k) es s \<Longrightarrow> \<exists>s'. idle k s = Some s' \<and> seen k es s'"

sublocale log_consumer \<subseteq> reader: ring_reader f "\<lambda>_. True" "seen k" for k
  by unfold_locales (auto intro: handles)

context log_consumer
begin

lemma rounds_seen:
  assumes "publishes penv" and "bring_hist b es" and "cid < consumer_count b" and "seen n (pre @ take (reader_pos b cid) es) s"
  shows "\<exists>b' s' es'. consumer_rounds penv f idle n cid b s = Some (b', s') \<and> bring_hist b' (es @ es') \<and>
    cid < consumer_count b' \<and> seen 0 (pre @ take (reader_pos b' cid) (es @ es')) s'"
  using assms(2-4)
proof (induction n arbitrary: b es s)
  case 0
  then show ?case by (intro exI [of _ b] exI [of _ s] exI [of _ "[]"]) simp
next
  case (Suc n)
  let ?b = "penv n b" and ?p = "reader_pos b cid"
  from assms(1) Suc.prems(1) obtain es1 where es1: "bring_hist ?b (es @ es1)"
    and same: "reader_pos ?b = reader_pos b" "consumer_count ?b = consumer_count b"
    unfolding publishes_def by blast
  let ?es = "es @ es1"
  have le: "?p \<le> length es"
    using bl.pos_le [OF Suc.prems(1,2)] .
  from reader.handle_all [OF TrueI Suc.prems(3), of "take 32 (drop ?p ?es)"] obtain s1 where
    s1: "fold_opt f (take 32 (drop (reader_pos ?b cid) ?es)) s = Some s1" "seen (Suc n) ((pre @ take ?p es) @ take 32 (drop ?p ?es)) s1"
    by (auto simp: same)
  have "cid < consumer_count ?b"
    using Suc.prems(2) same by simp
  from bl.consume_batch_log [OF es1 this s1(1)] obtain b1 where
    b1: "consume_batch try_consume 32 cid f ?b s = Some (b1, s1, min 32 (length ?es - reader_pos ?b cid))" "bring_hist b1 ?es"
      "reader_pos b1 = (reader_pos ?b)(cid := reader_pos ?b cid + min 32 (length ?es - reader_pos ?b cid))"
      "consumer_count b1 = consumer_count ?b"
    by blast
  have "take ?p ?es = take ?p es"
    using le by simp
  then have "take (reader_pos b1 cid) ?es = take ?p es @ take 32 (drop ?p ?es)"
    unfolding b1(3) same by (auto simp: min_def take_add simp del: take_append drop_append)
  then have "seen (Suc n) (pre @ take (reader_pos b1 cid) ?es) s1"
    using s1(2) by simp
  from idles [OF this] obtain s2 where s2: "idle n s1 = Some s2" "seen n (pre @ take (reader_pos b1 cid) ?es) s2"
    by blast
  have "cid < consumer_count b1"
    using Suc.prems(2) same b1(4) by simp
  from Suc.IH [OF b1(2) this s2(2)] obtain b' s' es' where
    "consumer_rounds penv f idle n cid b1 s2 = Some (b', s')" "bring_hist b' (?es @ es')"
    "cid < consumer_count b'" "seen 0 (pre @ take (reader_pos b' cid) (?es @ es')) s'"
    by blast
  with b1(1) s2(1) show ?case
    by (intro exI [of _ b'] exI [of _ s'] exI [of _ "es1 @ es'"]) simp
qed

lemma run_seen:
  assumes "publishes penv" and "bring_hist b es" and "cid < consumer_count b" and "reader_pos b cid = 0" and "seen n pre s"
  shows "\<exists>b' s' es'. consumer_run penv f idle n cid b s = Some (b', s') \<and> bring_hist b' (es @ es') \<and>
    reader_pos b' cid = length (es @ es') \<and> cid < consumer_count b' \<and> seen 0 (pre @ es @ es') s'"
proof -
  have "seen n (pre @ take (reader_pos b cid) es) s"
    using assms(4,5) by simp
  from rounds_seen [OF assms(1-3) this] obtain b1 s1 es1 where
    r: "consumer_rounds penv f idle n cid b s = Some (b1, s1)" "bring_hist b1 (es @ es1)" "cid < consumer_count b1"
      "seen 0 (pre @ take (reader_pos b1 cid) (es @ es1)) s1"
    by blast
  from reader.handle_all [OF TrueI r(4), of "drop (reader_pos b1 cid) (es @ es1)"] obtain s2 where
    s2: "fold_opt f (drop (reader_pos b1 cid) (es @ es1)) s1 = Some s2" "seen 0 (pre @ es @ es1) s2"
    by (auto simp only: append_assoc append_take_drop_id)
  from bl.consume_all_log [OF r(2,3) s2(1)] obtain b2 where
    "consume_all try_consume cid f b1 s1 = Some (b2, s2)" "bring_hist b2 (es @ es1)"
    "reader_pos b2 = (reader_pos b1)(cid := length (es @ es1))" "consumer_count b2 = consumer_count b1"
    by blast
  with r s2(2) show ?thesis
    by (intro exI [of _ b2] exI [of _ s2] exI [of _ es1]) (simp add: consumer_run_def)
qed

end

text \<open>The quiet sequencer, which publishes nothing more.\<close>

lemma publishes_nothing: "publishes (\<lambda>n b. b)"
  by (auto simp: publishes_def intro: exI [of _ "[]"])

end
