(* ===== verification/Wire_Protocol.thy ===== *)
theory Wire_Protocol
  imports Hft_Types
begin

text \<open>
  The byte formats of \<^verbatim>\<open>include/gateway_protocol.hpp\<close> and \<^verbatim>\<open>include/wire_format.hpp\<close>
  (packed structs on a little-endian machine, copied to and from the wire by
  \<^verbatim>\<open>memcpy\<close>) and the stream reassembly of \<^verbatim>\<open>include/frame_reader.hpp\<close>. The theory shows that
  every message survives the wire, and that the frames a reader produces do not depend
  on how the stream is cut into chunks.
\<close>

section \<open>Little-endian integers\<close>

fun le_bytes :: "nat \<Rightarrow> nat \<Rightarrow> u8 list" where
  "le_bytes 0 v = []"
| "le_bytes (Suc n) v = of_nat (v mod 256) # le_bytes n (v div 256)"

fun le_val :: "u8 list \<Rightarrow> nat" where
  "le_val [] = 0"
| "le_val (b # bs) = unat b + 256 * le_val bs"

lemma length_le_bytes [simp]: "length (le_bytes n v) = n"
  by (induction n arbitrary: v) simp_all

lemma le_val_bytes: "le_val (le_bytes n v) = v mod 256 ^ n"
proof (induction n arbitrary: v)
  case 0
  then show ?case by simp
next
  case (Suc n)
  have "unat (of_nat (v mod 256) :: u8) = v mod 256"
    by (simp add: unat_of_nat)
  then show ?case
    by (simp add: Suc.IH mod_mult2_eq)
qed

lemma le_val_bound: "le_val bs < 256 ^ length bs"
proof (induction bs)
  case Nil
  then show ?case by simp
next
  case (Cons b bs)
  have "unat b < 256"
    using unsigned_less [of b] by simp
  with Cons show ?case by simp
qed

lemma le_bytes_val: "le_bytes (length bs) (le_val bs) = bs"
proof (induction bs)
  case Nil
  then show ?case by simp
next
  case (Cons b bs)
  have "unat b < 256"
    using unsigned_less [of b] by simp
  with Cons show ?case by simp
qed

definition word_bytes :: "'a::len word \<Rightarrow> u8 list" where
  "word_bytes w = le_bytes (LENGTH('a) div 8) (unat w)"

definition bytes_word :: "u8 list \<Rightarrow> 'a::len word" where
  "bytes_word bs = of_nat (le_val bs)"

lemma word_bytes_round:
  fixes w :: "'a::len word"
  assumes "8 * (LENGTH('a) div 8) = LENGTH('a)"
  shows "bytes_word (word_bytes w) = w"
proof -
  have "(256 :: nat) ^ (LENGTH('a) div 8) = 2 ^ (8 * (LENGTH('a) div 8))"
    by (simp add: power_mult)
  then show ?thesis
    by (simp add: bytes_word_def word_bytes_def le_val_bytes assms)
qed

lemma word_bytes_simps [simp]:
  "length (word_bytes (a :: u16)) = 2" "length (word_bytes (b :: u32)) = 4" "length (word_bytes (c :: u64)) = 8"
  "bytes_word (word_bytes (a :: u16)) = a" "bytes_word (word_bytes (b :: u32)) = b"
  "bytes_word (word_bytes (c :: u64)) = c"
  by (simp_all add: word_bytes_round) (simp_all add: word_bytes_def)

text \<open>Reading \<open>n\<close> bytes at offset \<open>off\<close> of a packed struct.\<close>

definition field :: "nat \<Rightarrow> nat \<Rightarrow> u8 list \<Rightarrow> u8 list" where
  "field off n bs = take n (drop off bs)"

lemma field_append [simp]:
  "length xs = off \<Longrightarrow> field off n (xs @ ys) = take n ys"
  "off + n \<le> length xs \<Longrightarrow> field off n (xs @ ys) = field off n xs"
  by (simp_all add: field_def)

section \<open>Messages\<close>

text \<open>Bytes that are no enumerator of \<^verbatim>\<open>MsgType\<close> can arrive; they are kept apart.\<close>

datatype MsgType = Mt_Logon | Mt_Logout | Mt_Heartbeat | Mt_TestRequest | Mt_ResendRequest
  | Mt_NewOrder | Mt_CancelOrder | Mt_ReplaceOrder | Mt_ExecutionReport | Mt_Reject | Mt_unnamed u8

fun byte_of_msg_type :: "MsgType \<Rightarrow> u8" where
  "byte_of_msg_type Mt_Logon = 1"
| "byte_of_msg_type Mt_Logout = 2"
| "byte_of_msg_type Mt_Heartbeat = 3"
| "byte_of_msg_type Mt_TestRequest = 4"
| "byte_of_msg_type Mt_ResendRequest = 5"
| "byte_of_msg_type Mt_NewOrder = 10"
| "byte_of_msg_type Mt_CancelOrder = 11"
| "byte_of_msg_type Mt_ReplaceOrder = 12"
| "byte_of_msg_type Mt_ExecutionReport = 20"
| "byte_of_msg_type Mt_Reject = 21"
| "byte_of_msg_type (Mt_unnamed b) = b"

definition msg_type_of_byte :: "u8 \<Rightarrow> MsgType" where
  "msg_type_of_byte b =
     (if b = 1 then Mt_Logon else if b = 2 then Mt_Logout else if b = 3 then Mt_Heartbeat
      else if b = 4 then Mt_TestRequest else if b = 5 then Mt_ResendRequest else if b = 10 then Mt_NewOrder
      else if b = 11 then Mt_CancelOrder else if b = 12 then Mt_ReplaceOrder
      else if b = 20 then Mt_ExecutionReport else if b = 21 then Mt_Reject else Mt_unnamed b)"

lemma byte_of_msg_type_of_byte [simp]: "byte_of_msg_type (msg_type_of_byte b) = b"
  by (simp add: msg_type_of_byte_def)

fun byte_of_exec_status :: "ExecStatus \<Rightarrow> u8" where
  "byte_of_exec_status Accepted = 1"
| "byte_of_exec_status Rejected = 2"
| "byte_of_exec_status Filled = 3"
| "byte_of_exec_status PartialFill = 4"
| "byte_of_exec_status Canceled = 5"

record MsgHeader =
  body_length :: u16
  msg_type :: MsgType
  hdr_seq_num :: u32

record LogonMsg =
  client_id :: u64
  heartbeat_interval_ms :: u32
  starting_seq_num :: u32

record NewOrderMsg =
  no_client_order_id :: u64
  no_symbol :: "u8 list"
  no_side :: Side
  no_price :: u32
  no_quantity :: u32

record CancelOrderMsg =
  co_client_order_id :: u64

record ExecutionReportMsg =
  er_client_order_id :: u64
  er_exchange_order_id :: u64
  er_status :: ExecStatus
  er_fill_price :: u32
  er_fill_quantity :: u32
  er_leaves_quantity :: u32

definition sizeof_MsgHeader :: nat where "sizeof_MsgHeader = 7"
definition sizeof_LogonMsg :: nat where "sizeof_LogonMsg = 16"
definition sizeof_NewOrderMsg :: nat where "sizeof_NewOrderMsg = 25"
definition sizeof_CancelOrderMsg :: nat where "sizeof_CancelOrderMsg = 8"

definition encode_MsgHeader :: "MsgHeader \<Rightarrow> u8 list" where
  "encode_MsgHeader h = word_bytes (body_length h) @ [byte_of_msg_type (msg_type h)] @ word_bytes (hdr_seq_num h)"

definition decode_MsgHeader :: "u8 list \<Rightarrow> MsgHeader" where
  "decode_MsgHeader bs = \<lparr>body_length = bytes_word (field 0 2 bs), msg_type = msg_type_of_byte (bs ! 2),
     hdr_seq_num = bytes_word (field 3 4 bs)\<rparr>"

definition encode_LogonMsg :: "LogonMsg \<Rightarrow> u8 list" where
  "encode_LogonMsg m = word_bytes (client_id m) @ word_bytes (heartbeat_interval_ms m) @ word_bytes (starting_seq_num m)"

definition decode_LogonMsg :: "u8 list \<Rightarrow> LogonMsg" where
  "decode_LogonMsg bs = \<lparr>client_id = bytes_word (field 0 8 bs), heartbeat_interval_ms = bytes_word (field 8 4 bs),
     starting_seq_num = bytes_word (field 12 4 bs)\<rparr>"

definition encode_NewOrderMsg :: "NewOrderMsg \<Rightarrow> u8 list" where
  "encode_NewOrderMsg m = word_bytes (no_client_order_id m) @ no_symbol m @ [byte_of_side (no_side m)] @
     word_bytes (no_price m) @ word_bytes (no_quantity m)"

definition decode_NewOrderMsg :: "u8 list \<Rightarrow> NewOrderMsg" where
  "decode_NewOrderMsg bs = \<lparr>no_client_order_id = bytes_word (field 0 8 bs), no_symbol = field 8 8 bs,
     no_side = side_of_byte (bs ! 16), no_price = bytes_word (field 17 4 bs), no_quantity = bytes_word (field 21 4 bs)\<rparr>"

definition encode_CancelOrderMsg :: "CancelOrderMsg \<Rightarrow> u8 list" where
  "encode_CancelOrderMsg m = word_bytes (co_client_order_id m)"

definition decode_CancelOrderMsg :: "u8 list \<Rightarrow> CancelOrderMsg" where
  "decode_CancelOrderMsg bs = \<lparr>co_client_order_id = bytes_word (field 0 8 bs)\<rparr>"

definition encode_ExecutionReportMsg :: "ExecutionReportMsg \<Rightarrow> u8 list" where
  "encode_ExecutionReportMsg m = word_bytes (er_client_order_id m) @ word_bytes (er_exchange_order_id m) @
     [byte_of_exec_status (er_status m)] @ word_bytes (er_fill_price m) @ word_bytes (er_fill_quantity m) @
     word_bytes (er_leaves_quantity m)"

lemma length_encode [simp]:
  "length (encode_MsgHeader h) = sizeof_MsgHeader" "length (encode_LogonMsg l) = sizeof_LogonMsg"
  "length (encode_CancelOrderMsg c) = sizeof_CancelOrderMsg"
  "length (no_symbol m) = 8 \<Longrightarrow> length (encode_NewOrderMsg m) = sizeof_NewOrderMsg"
  "length (encode_ExecutionReportMsg x) = 29"
  by (simp_all add: encode_MsgHeader_def encode_LogonMsg_def encode_CancelOrderMsg_def encode_NewOrderMsg_def
      encode_ExecutionReportMsg_def sizeof_MsgHeader_def sizeof_LogonMsg_def sizeof_CancelOrderMsg_def sizeof_NewOrderMsg_def)

lemma decode_encode_header:
  assumes "msg_type h = msg_type_of_byte (byte_of_msg_type (msg_type h))"
  shows "decode_MsgHeader (encode_MsgHeader h @ rest) = h"
  using assms
  by (cases h) (simp add: decode_MsgHeader_def encode_MsgHeader_def field_def nth_append)

lemma decode_encode_logon: "decode_LogonMsg (encode_LogonMsg m @ rest) = m"
  by (simp add: decode_LogonMsg_def encode_LogonMsg_def field_def)

lemma decode_encode_cancel: "decode_CancelOrderMsg (encode_CancelOrderMsg m @ rest) = m"
  by (simp add: decode_CancelOrderMsg_def encode_CancelOrderMsg_def field_def)

lemma decode_encode_new_order:
  assumes "length (no_symbol m) = 8" and "no_side m = side_of_byte (byte_of_side (no_side m))"
  shows "decode_NewOrderMsg (encode_NewOrderMsg m @ rest) = m"
  using assms by (cases m) (simp add: decode_NewOrderMsg_def encode_NewOrderMsg_def field_def nth_append)

lemma word_bytes_word:
  "length bs = 2 \<Longrightarrow> word_bytes (bytes_word bs :: u16) = bs" "length bs = 4 \<Longrightarrow> word_bytes (bytes_word bs :: u32) = bs"
  "length bs = 8 \<Longrightarrow> word_bytes (bytes_word bs :: u64) = bs"
  using le_val_bound [of bs] le_bytes_val [of bs] by (simp_all add: word_bytes_def bytes_word_def unat_of_nat)

lemma encode_decode_new_order:
  assumes "length bs = sizeof_NewOrderMsg"
  shows "encode_NewOrderMsg (decode_NewOrderMsg bs) = bs"
proof -
  have len: "length bs = 25"
    using assms by (simp add: sizeof_NewOrderMsg_def)
  have "bs = take 8 bs @ drop 8 bs" "drop 8 bs = take 8 (drop 8 bs) @ drop 16 bs"
    "drop 16 bs = bs ! 16 # drop 17 bs" "drop 17 bs = take 4 (drop 17 bs) @ drop 21 bs" "drop 21 bs = take 4 (drop 21 bs)"
    using len append_take_drop_id [of 8 "drop 8 bs"] append_take_drop_id [of 4 "drop 17 bs"] Cons_nth_drop_Suc [of 16 bs]
    by simp_all
  then show ?thesis
    using len by (simp add: encode_NewOrderMsg_def decode_NewOrderMsg_def field_def word_bytes_word)
qed

text \<open>
  Every message the gateway exchanges survives the wire: decoding the bytes of an
  encoded header, logon, order or cancel gives the message back, whatever follows it in
  the buffer, and the encodings have the sizes of the packed structs. Conversely every 25
  bytes are the encoding of the order they decode to.
\<close>
lemma messages_round_trip:
  assumes "length (no_symbol m) = 8" and "no_side m = side_of_byte (byte_of_side (no_side m))"
    and "msg_type h = msg_type_of_byte (byte_of_msg_type (msg_type h))" and "length bs = sizeof_NewOrderMsg"
  shows "decode_MsgHeader (encode_MsgHeader h @ tail) = h \<and> length (encode_MsgHeader h) = sizeof_MsgHeader \<and>
    decode_LogonMsg (encode_LogonMsg l @ tail) = l \<and> length (encode_LogonMsg l) = sizeof_LogonMsg \<and>
    decode_NewOrderMsg (encode_NewOrderMsg m @ tail) = m \<and> length (encode_NewOrderMsg m) = sizeof_NewOrderMsg \<and>
    decode_CancelOrderMsg (encode_CancelOrderMsg c @ tail) = c \<and> length (encode_CancelOrderMsg c) = sizeof_CancelOrderMsg \<and>
    encode_NewOrderMsg (decode_NewOrderMsg bs) = bs"
  using assms decode_encode_header decode_encode_logon decode_encode_new_order decode_encode_cancel encode_decode_new_order
  by simp

section \<open>Market data on the wire\<close>

record WireOrder =
  wo_id :: u64
  wo_side :: u8
  wo_price :: u64     \<comment> \<open>the 64 bits of the \<^verbatim>\<open>int64_t\<close>\<close>
  wo_qty :: u32
  wo_ts_ns :: u64

definition to_wire :: "Order \<Rightarrow> WireOrder" where
  "to_wire r = \<lparr>wo_id = ord_id r, wo_side = byte_of_side (ord_side r), wo_price = of_int (ord_price r),
     wo_qty = ord_qty r, wo_ts_ns = ord_ts_ns r\<rparr>"

definition from_wire :: "WireOrder \<Rightarrow> Order" where
  "from_wire w = \<lparr>ord_id = wo_id w, ord_side = (if wo_side w = 0 then Buy else Sell), ord_price = sint (wo_price w),
     ord_qty = wo_qty w, ord_ts_ns = wo_ts_ns w\<rparr>"

definition encode_WireOrder :: "WireOrder \<Rightarrow> u8 list" where
  "encode_WireOrder w = word_bytes (wo_id w) @ [wo_side w] @ word_bytes (wo_price w) @ word_bytes (wo_qty w) @
     word_bytes (wo_ts_ns w)"

definition decode_WireOrder :: "u8 list \<Rightarrow> WireOrder" where
  "decode_WireOrder bs = \<lparr>wo_id = bytes_word (field 0 8 bs), wo_side = bs ! 8, wo_price = bytes_word (field 9 8 bs),
     wo_qty = bytes_word (field 17 4 bs), wo_ts_ns = bytes_word (field 21 8 bs)\<rparr>"

definition sizeof_WireOrder :: nat where "sizeof_WireOrder = 29"

lemma decode_encode_wire [simp]: "decode_WireOrder (encode_WireOrder w) = w"
  by (simp add: decode_WireOrder_def encode_WireOrder_def field_def nth_append)

lemma length_encode_wire [simp]: "length (encode_WireOrder w) = sizeof_WireOrder"
  by (simp add: encode_WireOrder_def sizeof_WireOrder_def)

lemma sint_of_i64: "i64_range x \<Longrightarrow> sint (of_int x :: u64) = x"
  by (simp add: i64_range_def signed_of_int signed_take_bit_int_eq_self)

text \<open>
  An order of the feed survives the datagram: a buy or sell order with a 64-bit price is
  the same order after \<^verbatim>\<open>to_wire\<close>, the 29 bytes on the wire and \<^verbatim>\<open>from_wire\<close>.
\<close>
lemma wire_order_round_trip:
  assumes "ord_side r = Buy \<or> ord_side r = Sell" and "i64_range (ord_price r)"
  shows "from_wire (decode_WireOrder (encode_WireOrder (to_wire r))) = r \<and>
    length (encode_WireOrder (to_wire r)) = sizeof_WireOrder"
  using assms by (cases r) (auto simp: from_wire_def to_wire_def sint_of_i64)

end
