(* ===== verification/Wal_Consumer.thy ===== *)
theory Wal_Consumer
  imports Log_Consumer Wire_Protocol
begin

text \<open>
  The write-ahead log of \<^verbatim>\<open>include/wal_consumer.hpp\<close>. Each event is written as the 56 bytes of
  its struct. The file is what \<^verbatim>\<open>fsync\<close> made durable and what was written since; a crash keeps
  the first part and some prefix of the second. Arguments stand for the environment: \<open>fw n\<close>
  is the number of bytes \<^verbatim>\<open>fwrite\<close> accepts of record \<open>n\<close>, \<open>pad n\<close> the indeterminate padding
  bytes of that record, and \<open>clk n\<close> the two clock readings while it is appended. The theory
  shows that the log holds the event stream, and how much of it a crash can lose.
\<close>

section \<open>The record format\<close>

fun byte_of_event_type :: "EventType \<Rightarrow> u8" where
  "byte_of_event_type Ev_NewOrder = 1"
| "byte_of_event_type Ev_CancelOrder = 2"
| "byte_of_event_type Ev_MarketDataOrder = 3"
| "byte_of_event_type Ev_Admin = 4"

fun byte_of_producer :: "ProducerId \<Rightarrow> u8" where
  "byte_of_producer Gateway = 0"
| "byte_of_producer FeedReplay = 1"
| "byte_of_producer Admin = 2"
| "byte_of_producer Count = 3"

definition sizeof_SequencedEvent :: nat where
  "sizeof_SequencedEvent = 56"

text \<open>The struct in memory: two, three and four bytes of padding align the members.\<close>

definition encode_event :: "u8 list \<Rightarrow> SequencedEvent \<Rightarrow> u8 list" where
  "encode_event pad ev = word_bytes (ev_seq_num ev) @ word_bytes (ev_ingress_ts_ns ev) @ word_bytes (ev_sequence_ts_ns ev) @
     [byte_of_event_type (ev_type ev), byte_of_producer (ev_producer ev)] @ take 2 pad @ word_bytes (ev_session_id ev) @
     word_bytes (ev_client_order_id ev) @ [byte_of_side (ev_side ev)] @ take 3 (drop 2 pad) @ word_bytes (ev_price ev) @
     word_bytes (ev_quantity ev) @ drop 5 pad"

text \<open>How such a record is read back.\<close>

definition event_type_of_byte :: "u8 \<Rightarrow> EventType" where
  "event_type_of_byte b = (if b = 1 then Ev_NewOrder else if b = 2 then Ev_CancelOrder else if b = 3 then Ev_MarketDataOrder else Ev_Admin)"

definition producer_of_byte :: "u8 \<Rightarrow> ProducerId" where
  "producer_of_byte b = (if b = 0 then Gateway else if b = 1 then FeedReplay else if b = 2 then Admin else Count)"

definition decode_event :: "u8 list \<Rightarrow> SequencedEvent" where
  "decode_event bs = \<lparr>ev_seq_num = bytes_word (field 0 8 bs), ev_ingress_ts_ns = bytes_word (field 8 8 bs),
     ev_sequence_ts_ns = bytes_word (field 16 8 bs), ev_type = event_type_of_byte (bs ! 24), ev_producer = producer_of_byte (bs ! 25),
     ev_session_id = bytes_word (field 28 4 bs), ev_client_order_id = bytes_word (field 32 8 bs), ev_side = side_of_byte (bs ! 40),
     ev_price = bytes_word (field 44 4 bs), ev_quantity = bytes_word (field 48 4 bs)\<rparr>"

text \<open>A side that is one of the values a byte stands for; every side that came off the wire is.\<close>

definition side_ok :: "SequencedEvent \<Rightarrow> bool" where
  "side_ok ev \<longleftrightarrow> side_of_byte (byte_of_side (ev_side ev)) = ev_side ev"

lemma event_bytes_simps [simp]:
  "event_type_of_byte (byte_of_event_type t) = t" "producer_of_byte (byte_of_producer p) = p"
  by (cases t; simp add: event_type_of_byte_def) (cases p; simp add: producer_of_byte_def)

lemma length_encode_event [simp]: "length pad = 9 \<Longrightarrow> length (encode_event pad ev) = sizeof_SequencedEvent"
  by (simp add: encode_event_def sizeof_SequencedEvent_def)

lemma decode_encode_event:
  assumes "length pad = 9" and "side_ok ev"
  shows "decode_event (encode_event pad ev @ bs) = ev"
  using assms by (cases ev) (simp add: decode_event_def encode_event_def field_def nth_append side_ok_def)

section \<open>The log writer\<close>

record wal =
  durable :: "u8 list"
  written :: "u8 list"
  file_open :: bool
  fsync_every_n :: nat
  fsync_interval :: int
  unsynced_count :: nat
  last_sync :: int
  records_written :: u64

definition wal_init :: "u8 list \<Rightarrow> nat \<Rightarrow> int \<Rightarrow> wal" where
  "wal_init disk n iv = \<lparr>durable = disk, written = [], file_open = False, fsync_every_n = n, fsync_interval = iv,
     unsynced_count = 0, last_sync = 0, records_written = 0\<rparr>"

text \<open>\<open>can_open\<close> is the answer of the file system to \<^verbatim>\<open>fopen(path, "ab")\<close>.\<close>

definition wal_open :: "bool \<Rightarrow> int \<Rightarrow> wal \<Rightarrow> bool \<times> wal" where
  "wal_open can_open now w = (if can_open then (True, w\<lparr>file_open := True, last_sync := now\<rparr>) else (False, w))"

text \<open>\<open>fst t\<close> is the clock when the interval is tested, \<open>snd t\<close> after the sync.\<close>

definition maybe_fsync :: "bool \<Rightarrow> int \<times> int \<Rightarrow> wal \<Rightarrow> wal option" where
  "maybe_fsync force t w =
     (if unsynced_count w = 0 \<and> \<not> force then Some w
      else if \<not> force \<and> unsynced_count w < fsync_every_n w \<and> fst t - last_sync w < fsync_interval w then Some w
      else if \<not> file_open w then None
      else Some (w\<lparr>durable := durable w @ written w, written := [], unsynced_count := 0, last_sync := snd t\<rparr>))"

definition wal_append :: "(u64 \<Rightarrow> nat) \<Rightarrow> (u64 \<Rightarrow> u8 list) \<Rightarrow> (u64 \<Rightarrow> int \<times> int) \<Rightarrow> SequencedEvent \<Rightarrow> wal \<Rightarrow> wal option" where
  "wal_append fw pad clk ev w =
     (if \<not> file_open w then None
      else let n = records_written w
           in maybe_fsync False (clk n)
                (w\<lparr>written := written w @ take (fw n) (encode_event (pad n) ev), records_written := n + 1,
                   unsynced_count := unsynced_count w + 1\<rparr>))"

definition wal_close :: "int \<times> int \<Rightarrow> wal \<Rightarrow> wal option" where
  "wal_close t w =
     (if \<not> file_open w then Some w
      else map_option (\<lambda>w'. w'\<lparr>file_open := False\<rparr>) (maybe_fsync True t w))"

text \<open>The thread: \<open>n\<close> rounds of the loop, the drain, and the final \<^verbatim>\<open>close\<close>.\<close>

definition wal_run ::
  "(nat \<Rightarrow> SequencedEvent bring \<Rightarrow> SequencedEvent bring) \<Rightarrow> (u64 \<Rightarrow> nat) \<Rightarrow> (u64 \<Rightarrow> u8 list) \<Rightarrow> (u64 \<Rightarrow> int \<times> int) \<Rightarrow> (nat \<Rightarrow> int \<times> int)
     \<Rightarrow> int \<times> int \<Rightarrow> nat \<Rightarrow> nat \<Rightarrow> SequencedEvent bring \<Rightarrow> wal \<Rightarrow> (SequencedEvent bring \<times> wal) option" where
  "wal_run penv fw pad clk poll_clk close_clk n cid b w =
     (case consumer_run penv (wal_append fw pad clk) (\<lambda>i. maybe_fsync False (poll_clk i)) n cid b w of
        None \<Rightarrow> None
      | Some (b', w') \<Rightarrow> map_option (Pair b') (wal_close close_clk w'))"

section \<open>What the log holds\<close>

text \<open>The bytes the records with numbers from \<open>n\<close> on put into the file.\<close>

fun wal_bytes :: "(u64 \<Rightarrow> nat) \<Rightarrow> (u64 \<Rightarrow> u8 list) \<Rightarrow> u64 \<Rightarrow> SequencedEvent list \<Rightarrow> u8 list" where
  "wal_bytes fw pad n [] = []"
| "wal_bytes fw pad n (ev # evs) = take (fw n) (encode_event (pad n) ev) @ wal_bytes fw pad (n + 1) evs"

lemma wal_bytes_append:
  "wal_bytes fw pad n (evs @ fs) = wal_bytes fw pad n evs @ wal_bytes fw pad (n + of_nat (length evs)) fs"
  by (induction evs arbitrary: n) (simp_all add: ac_simps)

text \<open>
  \<open>wal_log fw pad disk es w\<close>: the file starts with \<open>disk\<close> and then holds the records of \<open>es\<close>;
  what is not durable yet are the last \<open>unsynced_count\<close> of them, fewer than \<open>fsync_every_n\<close>.
\<close>

definition wal_log :: "(u64 \<Rightarrow> nat) \<Rightarrow> (u64 \<Rightarrow> u8 list) \<Rightarrow> u8 list \<Rightarrow> nat \<Rightarrow> SequencedEvent list \<Rightarrow> wal \<Rightarrow> bool" where
  "wal_log fw pad disk every es w \<longleftrightarrow> file_open w \<and> fsync_every_n w = every \<and> records_written w = of_nat (length es) \<and>
     unsynced_count w \<le> length es \<and> unsynced_count w < max 1 every \<and>
     durable w = disk @ wal_bytes fw pad 0 (take (length es - unsynced_count w) es) \<and>
     written w = wal_bytes fw pad (of_nat (length es - unsynced_count w)) (drop (length es - unsynced_count w) es)"

lemma wal_log_bytes:
  assumes "wal_log fw pad disk every es w"
  shows "durable w @ written w = disk @ wal_bytes fw pad 0 es"
proof -
  let ?k = "length es - unsynced_count w"
  have "wal_bytes fw pad 0 (take ?k es @ drop ?k es) = wal_bytes fw pad 0 (take ?k es) @ wal_bytes fw pad (of_nat ?k) (drop ?k es)"
    by (simp only: wal_bytes_append) simp
  with assms show ?thesis by (simp add: wal_log_def)
qed

lemma wal_log_synced:
  assumes "file_open w" and "fsync_every_n w = every" and "records_written w = of_nat (length es)"
    and "durable w @ written w = disk @ wal_bytes fw pad 0 es"
  shows "wal_log fw pad disk every es (w\<lparr>durable := durable w @ written w, written := [], unsynced_count := 0, last_sync := t\<rparr>)"
  using assms by (simp add: wal_log_def)

lemma wal_log_append:
  assumes "wal_log fw pad disk every es w"
  shows "\<exists>w'. wal_append fw pad clk ev w = Some w' \<and> wal_log fw pad disk every (es @ [ev]) w'"
proof -
  let ?n = "of_nat (length es) :: u64"
  let ?w = "w\<lparr>written := written w @ take (fw ?n) (encode_event (pad ?n) ev), records_written := ?n + 1,
       unsynced_count := unsynced_count w + 1\<rparr>"
  have w: "file_open w" "records_written w = ?n" "fsync_every_n w = every" "unsynced_count w \<le> length es"
    using assms by (simp_all add: wal_log_def)
  have bytes: "durable ?w @ written ?w = disk @ wal_bytes fw pad 0 (es @ [ev])"
    using wal_log_bytes [OF assms] by (simp add: wal_bytes_append)
  show ?thesis
  proof (cases "unsynced_count w + 1 < every \<and> fst (clk ?n) - last_sync w < fsync_interval w")
    case True
    have "wal_log fw pad disk every (es @ [ev]) ?w"
      using assms True w(4) by (simp add: wal_log_def wal_bytes_append Suc_diff_le)
    with True w show ?thesis
      by (simp add: wal_append_def maybe_fsync_def Let_def)
  next
    case False
    have "wal_log fw pad disk every (es @ [ev])
        (?w\<lparr>durable := durable ?w @ written ?w, written := [], unsynced_count := 0, last_sync := snd (clk ?n)\<rparr>)"
      using bytes w by (intro wal_log_synced) (simp_all add: ac_simps)
    with False w show ?thesis
      by (auto simp: wal_append_def maybe_fsync_def Let_def)
  qed
qed

lemma wal_log_fsync:
  assumes "wal_log fw pad disk every es w"
  shows "\<exists>w'. maybe_fsync force t w = Some w' \<and> wal_log fw pad disk every es w' \<and> (force \<longrightarrow> written w' = [])"
proof -
  have w: "file_open w" "fsync_every_n w = every" "records_written w = of_nat (length es)"
    using assms by (simp_all add: wal_log_def)
  show ?thesis
    using wal_log_synced [OF w wal_log_bytes [OF assms], of "snd t"] w(1) assms by (auto simp: maybe_fsync_def)
qed

interpretation wl: log_consumer "wal_append fw pad clk" "\<lambda>i. maybe_fsync False (poll_clk i)" "\<lambda>k. wal_log fw pad disk every"
  for fw pad clk poll_clk disk every
  by unfold_locales (use wal_log_append wal_log_fsync in blast)+

section \<open>Reading the log back\<close>

text \<open>The complete records of a file; an incomplete one at the end is ignored.\<close>

function read_records :: "u8 list \<Rightarrow> SequencedEvent list" where
  "read_records bs =
     (if length bs < sizeof_SequencedEvent then []
      else decode_event (take sizeof_SequencedEvent bs) # read_records (drop sizeof_SequencedEvent bs))"
  by pat_completeness auto
termination
  by (relation "measure length") (auto simp: sizeof_SequencedEvent_def)

declare read_records.simps [simp del]

lemma read_records_take:
  assumes "\<forall>n. sizeof_SequencedEvent \<le> fw n \<and> length (pad n) = 9" and "\<forall>ev \<in> set es. side_ok ev"
    and "j \<le> length (wal_bytes fw pad n es)"
  shows "read_records (take j (wal_bytes fw pad n es)) = take (j div sizeof_SequencedEvent) es"
  using assms
proof (induction es arbitrary: j n)
  case Nil
  then show ?case by (simp add: read_records.simps [of "[]"] sizeof_SequencedEvent_def)
next
  case (Cons ev es)
  let ?r = "encode_event (pad n) ev" and ?z = sizeof_SequencedEvent
  have r: "take (fw n) ?r = ?r" "length ?r = ?z"
    using Cons.prems(1) by simp_all
  show ?case
  proof (cases "j < ?z")
    case True
    with r show ?thesis by (simp add: read_records.simps [of "take j _"])
  next
    case False
    have "decode_event (?r @ []) = ev"
      using Cons.prems(1,2) by (intro decode_encode_event) simp_all
    moreover have "read_records (take (j - ?z) (wal_bytes fw pad (n + 1) es)) = take ((j - ?z) div ?z) es"
      using Cons.prems r by (intro Cons.IH) simp_all
    moreover have "j div ?z = Suc ((j - ?z) div ?z)"
      using False by (intro le_div_geq) (simp_all add: sizeof_SequencedEvent_def)
    ultimately show ?thesis
      using False r by (simp add: read_records.simps [of "_ @ _"] Cons.prems(3))
  qed
qed

lemma length_wal_bytes:
  assumes "\<forall>n. sizeof_SequencedEvent \<le> fw n \<and> length (pad n) = 9"
  shows "length (wal_bytes fw pad n es) = length es * sizeof_SequencedEvent"
  using assms by (induction es arbitrary: n) simp_all

section \<open>Properties\<close>

lemma wal_log_opened:
  "wal_log fw pad disk every [] (snd (wal_open True t (wal_init disk every iv)))"
  by (simp add: wal_log_def wal_open_def wal_init_def)

text \<open>
  The log is complete after shutdown. However the sequencer's publishing interleaves with
  the writer's rounds and whatever the sync policy did on the way, the thread ends with the
  file closed and durable, holding what it held before followed by one record per published
  event, in order.
\<close>
lemma wal_run_complete:
  assumes "publishes penv" and "bring_hist b es" and "cid < consumer_count b" and "reader_pos b cid = 0"
  shows "\<exists>b' w' es'. wal_run penv fw pad clk poll_clk close_clk n cid b (snd (wal_open True t (wal_init disk every iv))) = Some (b', w') \<and>
    bring_hist b' (es @ es') \<and> reader_pos b' cid = length (es @ es') \<and>
    durable w' = disk @ wal_bytes fw pad 0 (es @ es') \<and> written w' = [] \<and> \<not> file_open w' \<and>
    records_written w' = of_nat (length (es @ es'))"
proof -
  let ?w = "snd (wal_open True t (wal_init disk every iv))"
  from wl.run_seen [OF assms wal_log_opened [of fw pad disk every t iv], where n = n and clk = clk and poll_clk = poll_clk] obtain b1 w1 es1 where
    1: "consumer_run penv (wal_append fw pad clk) (\<lambda>i. maybe_fsync False (poll_clk i)) n cid b ?w = Some (b1, w1)"
      "bring_hist b1 (es @ es1)" "reader_pos b1 cid = length (es @ es1)" "wal_log fw pad disk every (es @ es1) w1"
    by auto
  from wal_log_fsync [OF 1(4), of True close_clk] obtain w2 where
    2: "maybe_fsync True close_clk w1 = Some w2" "wal_log fw pad disk every (es @ es1) w2" "written w2 = []"
    by blast
  have "durable w2 = disk @ wal_bytes fw pad 0 (es @ es1)"
    using wal_log_bytes [OF 2(2)] 2(3) by simp
  moreover have "file_open w1" "records_written w2 = of_nat (length (es @ es1))"
    using 1(4) 2(2) by (simp_all add: wal_log_def)
  ultimately show ?thesis
    using 1 2 by (intro exI [of _ b1] exI [of _ "w2\<lparr>file_open := False\<rparr>"] exI [of _ es1]) (simp add: wal_run_def wal_close_def)
qed

definition wal_demo_event :: SequencedEvent where
  "wal_demo_event = \<lparr>ev_seq_num = 1, ev_ingress_ts_ns = 2, ev_sequence_ts_ns = 3, ev_type = Ev_NewOrder, ev_producer = Gateway,
     ev_session_id = 4, ev_client_order_id = 5, ev_side = Sell, ev_price = 6, ev_quantity = 7\<rparr>"

definition wal_demo_ring :: "SequencedEvent bring" where
  "wal_demo_ring = snd (register_consumer (bring_init 8 4 wal_demo_event))"

lemma wal_demo_ring: "bring_hist wal_demo_ring []" "consumer_count wal_demo_ring = 1" "reader_pos wal_demo_ring 0 = 0"
proof -
  have "pow2 4"
    by (rule pow2_4)
  then show "bring_hist wal_demo_ring []" "consumer_count wal_demo_ring = 1" "reader_pos wal_demo_ring 0 = 0"
    using bring_hist_register [OF bring_hist_init [of 4 8 wal_demo_event]]
    by (simp_all add: wal_demo_ring_def) (simp_all add: register_consumer_def bring_init_def reader_pos_def)
qed

text \<open>
  (C30) The loss window. Whatever the timing, if the machine crashes after any number of
  appends and the file keeps its durable part and any prefix of the rest, reading its complete
  records gives back a prefix of the appended events that misses fewer than
  \<^verbatim>\<open>fsync_every_n\<close> of them (none when that is 0).
\<close>
theorem wal_crash_loss_window:
  assumes "\<forall>n. sizeof_SequencedEvent \<le> fw n \<and> length (pad n) = 9" and "\<forall>ev \<in> set evs. side_ok ev"
  shows "\<exists>w. fold_opt (wal_append fw pad clk) evs (snd (wal_open True t (wal_init [] every iv))) = Some w \<and>
    (\<forall>j \<le> length (written w). \<exists>m. read_records (durable w @ take j (written w)) = take m evs \<and> length evs - m < max 1 every)"
proof -
  from wl.reader.handle_all [OF TrueI wal_log_opened [of fw pad "[]" every t iv], where clk = clk and fs = evs] obtain w where
    w: "fold_opt (wal_append fw pad clk) evs (snd (wal_open True t (wal_init [] every iv))) = Some w" "wal_log fw pad [] every evs w"
    by auto
  let ?k = "length evs - unsynced_count w" and ?z = sizeof_SequencedEvent
  have all: "durable w @ written w = wal_bytes fw pad 0 evs"
    using wal_log_bytes [OF w(2)] by simp
  have dur: "length (durable w) = ?k * ?z" and lost: "unsynced_count w < max 1 every"
    using w(2) length_wal_bytes [OF assms(1)] by (simp_all add: wal_log_def)
  have "read_records (durable w @ take j (written w)) = take (?k + j div ?z) evs" if "j \<le> length (written w)" for j
  proof -
    have "durable w @ take j (written w) = take (?k * ?z + j) (wal_bytes fw pad 0 evs)"
      by (simp add: dur flip: all)
    moreover have "?k * ?z + j \<le> length (wal_bytes fw pad 0 evs)"
      using that dur by (simp flip: all)
    moreover have "(?k * ?z + j) div ?z = ?k + j div ?z"
      by (simp add: sizeof_SequencedEvent_def)
    ultimately show ?thesis
      using read_records_take [OF assms, of "?k * ?z + j" 0] by simp
  qed
  moreover have "length evs - (?k + i) < max 1 every" for i
    using lost by simp
  ultimately show ?thesis
    using w(1) by blast
qed

theorem wal_crash_loss_window_witness:
  "\<exists>w. fold_opt (wal_append (\<lambda>n. 56) (\<lambda>n. replicate 9 0) (\<lambda>n. (0, 0))) [wal_demo_event, wal_demo_event, wal_demo_event]
      (snd (wal_open True 0 (wal_init [] 2 50))) = Some w \<and>
    (\<forall>j \<le> length (written w). \<exists>m. read_records (durable w @ take j (written w)) = take m [wal_demo_event, wal_demo_event, wal_demo_event] \<and>
       length [wal_demo_event, wal_demo_event, wal_demo_event] - m < max 1 2)"
  by (rule wal_crash_loss_window)
    (simp_all add: sizeof_SequencedEvent_def side_ok_def wal_demo_event_def side_of_byte_def)

text \<open>
  A failed write goes unnoticed: when \<^verbatim>\<open>fwrite\<close> accepts nothing of a record (a full disk, say) the
  record counts as written all the same, and its bytes are in no later state of the file.
\<close>

lemma failed_write_counted:
  assumes "wal_log fw pad disk every es w" and "fw (of_nat (length es)) = 0"
  shows "\<exists>w'. wal_append fw pad clk ev w = Some w' \<and> records_written w' = records_written w + 1 \<and>
    durable w' @ written w' = durable w @ written w"
proof -
  from wal_log_append [OF assms(1), of clk ev] obtain w' where
    w': "wal_append fw pad clk ev w = Some w'" "wal_log fw pad disk every (es @ [ev]) w'"
    by blast
  have "durable w' @ written w' = durable w @ written w"
    using wal_log_bytes [OF w'(2)] wal_log_bytes [OF assms(1)] assms(2) by (simp add: wal_bytes_append)
  with w' assms(1) show ?thesis
    by (auto simp: wal_log_def ac_simps)
qed

end
