(* ===== verification/Db_Consumer.thy ===== *)
theory Db_Consumer
  imports Log_Consumer Wire_Protocol Wal_Consumer "HOL-Library.Sublist"
begin

text \<open>
  The database writer of \<^verbatim>\<open>include/db_consumer.hpp\<close>. SQLite is not part of the program: its
  calls are the functions of the record \<open>sqlite\<close>, arguments of every operation, and what the
  theorems use of its documented behaviour is the predicate \<open>sqlite_ok\<close>. An exception thrown
  by \<^verbatim>\<open>exec\<close> or \<^verbatim>\<open>prepare\<close> is a value of \<open>db_error\<close>. The theory shows what the two tables hold
  after a run, how much a crash can lose, and that rows whose key exists are dropped.
\<close>

section \<open>The library\<close>

record 'd sqlite =
  sq_open :: "'d \<Rightarrow> bool \<times> 'd"
  sq_exec :: "string \<Rightarrow> 'd \<Rightarrow> bool \<times> 'd"
  sq_prepare :: "string \<Rightarrow> 'd \<Rightarrow> bool"
  sq_step :: "string \<Rightarrow> int list \<Rightarrow> 'd \<Rightarrow> bool \<times> 'd"

definition insert_orders_sql :: string where
  "insert_orders_sql = ''INSERT INTO orders(seq_num, ts_ns, event_type, session_id, client_order_id, side, price, quantity) '' @
     ''VALUES (?,?,?,?,?,?,?,?);''"

definition insert_exec_sql :: string where
  "insert_exec_sql = ''INSERT INTO execution_reports(ts_ns, session_id, client_order_id, exchange_order_id, status, '' @
     ''fill_price, fill_quantity, leaves_quantity) VALUES (?,?,?,?,?,?,?,?);''"

definition schema_sql :: "string list" where
  "schema_sql =
    [''PRAGMA journal_mode=WAL;'', ''PRAGMA synchronous=NORMAL;'',
     ''CREATE TABLE IF NOT EXISTS orders ('' @ ''  seq_num INTEGER PRIMARY KEY,'' @ ''  ts_ns INTEGER NOT NULL,'' @
     ''  event_type INTEGER NOT NULL,'' @ ''  session_id INTEGER NOT NULL,'' @ ''  client_order_id INTEGER NOT NULL,'' @
     ''  side INTEGER NOT NULL,'' @ ''  price INTEGER NOT NULL,'' @ ''  quantity INTEGER NOT NULL'' @ '');'',
     ''CREATE TABLE IF NOT EXISTS execution_reports ('' @ ''  id INTEGER PRIMARY KEY AUTOINCREMENT,'' @ ''  ts_ns INTEGER NOT NULL,'' @
     ''  session_id INTEGER NOT NULL,'' @ ''  client_order_id INTEGER NOT NULL,'' @ ''  exchange_order_id INTEGER NOT NULL,'' @
     ''  status INTEGER NOT NULL,'' @ ''  fill_price INTEGER NOT NULL,'' @ ''  fill_quantity INTEGER NOT NULL,'' @
     ''  leaves_quantity INTEGER NOT NULL'' @ '');'',
     ''CREATE INDEX IF NOT EXISTS idx_orders_client ON orders(session_id, client_order_id);'',
     ''CREATE INDEX IF NOT EXISTS idx_exec_client ON execution_reports(session_id, client_order_id);'']"

section \<open>The consumer\<close>

datatype db_error = Exec_failed string | Prepare_failed string

record 'd db =
  db_conn :: 'd
  db_opened :: bool
  batch_every_n :: nat
  batch_interval :: int
  in_txn :: bool
  pending :: nat
  last_flush :: int
  orders_written :: u64
  execs_written :: u64

definition db_init :: "'d \<Rightarrow> nat \<Rightarrow> int \<Rightarrow> 'd db" where
  "db_init d n iv = \<lparr>db_conn = d, db_opened = False, batch_every_n = n, batch_interval = iv, in_txn = False, pending = 0,
     last_flush = 0, orders_written = 0, execs_written = 0\<rparr>"

text \<open>Running on unless an exception was thrown.\<close>

definition andthen :: "'x + 'a \<Rightarrow> ('a \<Rightarrow> 'x + 'b) \<Rightarrow> 'x + 'b" where
  "andthen r f = (case r of Inl x \<Rightarrow> Inl x | Inr a \<Rightarrow> f a)"

fun fold_res :: "('e \<Rightarrow> 's \<Rightarrow> 'x + 's) \<Rightarrow> 'e list \<Rightarrow> 's \<Rightarrow> 'x + 's" where
  "fold_res f [] s = Inr s"
| "fold_res f (e # es) s = andthen (f e s) (fold_res f es)"

lemma andthen_simps [simp]: "andthen (Inr a) f = f a" "andthen (Inl x) f = Inl x"
  by (simp_all add: andthen_def)

definition db_exec :: "'d sqlite \<Rightarrow> string \<Rightarrow> 'd db \<Rightarrow> db_error + 'd db" where
  "db_exec api sql s = (case sq_exec api sql (db_conn s) of (ok, d) \<Rightarrow> if ok then Inr (s\<lparr>db_conn := d\<rparr>) else Inl (Exec_failed sql))"

definition db_prepare :: "'d sqlite \<Rightarrow> string \<Rightarrow> 'd db \<Rightarrow> db_error + 'd db" where
  "db_prepare api sql s = (if sq_prepare api sql (db_conn s) then Inr s else Inl (Prepare_failed sql))"

text \<open>A failing step is reported on \<^verbatim>\<open>stderr\<close> only.\<close>

definition step_checked :: "'d sqlite \<Rightarrow> string \<Rightarrow> int list \<Rightarrow> 'd db \<Rightarrow> 'd db" where
  "step_checked api sql vals s = s\<lparr>db_conn := snd (sq_step api sql vals (db_conn s))\<rparr>"

definition maybe_flush :: "'d sqlite \<Rightarrow> bool \<Rightarrow> int \<times> int \<Rightarrow> 'd db \<Rightarrow> db_error + 'd db" where
  "maybe_flush api force t s =
     (if pending s = 0 \<and> \<not> force then Inr s
      else if \<not> force \<and> pending s < batch_every_n s \<and> fst t - last_flush s < batch_interval s then Inr s
      else andthen
        (if in_txn s then andthen (db_exec api ''COMMIT;'' s) (\<lambda>s. Inr (s\<lparr>in_txn := False\<rparr>)) else Inr s)
        (\<lambda>s. let s' = s\<lparr>pending := 0, last_flush := snd t\<rparr>
             in if \<not> force then andthen (db_exec api ''BEGIN;'' s') (\<lambda>s. Inr (s\<lparr>in_txn := True\<rparr>)) else Inr s'))"

definition db_close :: "'d sqlite \<Rightarrow> int \<times> int \<Rightarrow> 'd db \<Rightarrow> db_error + 'd db" where
  "db_close api t s =
     (if \<not> db_opened s then Inr s else andthen (maybe_flush api True t s) (\<lambda>s. Inr (s\<lparr>db_opened := False\<rparr>)))"

definition db_open :: "'d sqlite \<Rightarrow> int \<Rightarrow> 'd db \<Rightarrow> db_error + bool \<times> 'd db" where
  "db_open api now s =
     (case sq_open api (db_conn s) of
        (ok, d) \<Rightarrow>
          let s1 = s\<lparr>db_conn := d, db_opened := True\<rparr>
          in if \<not> ok then andthen (db_close api (now, now) s1) (\<lambda>s. Inr (False, s))
             else andthen (fold_res (db_exec api) schema_sql s1) (\<lambda>s.
                  andthen (db_prepare api insert_orders_sql s) (\<lambda>s.
                  andthen (db_prepare api insert_exec_sql s) (\<lambda>s.
                  andthen (db_exec api ''BEGIN;'' (s\<lparr>last_flush := now\<rparr>)) (\<lambda>s.
                  Inr (True, s\<lparr>in_txn := True\<rparr>))))))"

text \<open>The values bound to the two insert statements; 64-bit values are stored as signed integers.\<close>

definition order_row :: "SequencedEvent \<Rightarrow> int list" where
  "order_row ev = [sint (ev_seq_num ev), sint (ev_sequence_ts_ns ev), uint (byte_of_event_type (ev_type ev)),
     uint (ev_session_id ev), sint (ev_client_order_id ev), uint (byte_of_side (ev_side ev)), uint (ev_price ev), uint (ev_quantity ev)]"

definition exec_row :: "u64 \<Rightarrow> OutboundAck \<Rightarrow> int list" where
  "exec_row wall ack = [sint wall, uint (ack_session_id ack), sint (ack_client_order_id ack), sint (ack_exchange_order_id ack),
     uint (byte_of_exec_status (ack_status ack)), uint (ack_fill_price ack), uint (ack_fill_quantity ack), uint (ack_leaves_quantity ack)]"

text \<open>\<open>clk n\<close> and \<open>wall n\<close> are the clocks while the \<open>n\<close>-th row is appended.\<close>

definition append_order :: "'d sqlite \<Rightarrow> (u64 \<Rightarrow> int \<times> int) \<Rightarrow> SequencedEvent \<Rightarrow> 'd db \<Rightarrow> db_error + 'd db" where
  "append_order api clk ev s =
     maybe_flush api False (clk (orders_written s + execs_written s))
       ((step_checked api insert_orders_sql (order_row ev) s)
          \<lparr>orders_written := orders_written s + 1, pending := pending s + 1\<rparr>)"

definition append_execution_report ::
  "'d sqlite \<Rightarrow> (u64 \<Rightarrow> int \<times> int) \<Rightarrow> (u64 \<Rightarrow> u64) \<Rightarrow> OutboundAck \<Rightarrow> 'd db \<Rightarrow> db_error + 'd db" where
  "append_execution_report api clk wall ack s =
     maybe_flush api False (clk (orders_written s + execs_written s))
       ((step_checked api insert_exec_sql (exec_row (wall (execs_written s)) ack) s)
          \<lparr>execs_written := execs_written s + 1, pending := pending s + 1\<rparr>)"

text \<open>The handling of one event of the ring, and of the acknowledgements found between two batches.\<close>

definition db_event :: "'d sqlite \<Rightarrow> (u64 \<Rightarrow> int \<times> int) \<Rightarrow> SequencedEvent \<Rightarrow> 'd db \<Rightarrow> db_error + 'd db" where
  "db_event api clk ev s = (if ev_type ev = Ev_NewOrder \<or> ev_type ev = Ev_CancelOrder then append_order api clk ev s else Inr s)"

definition db_acks :: "'d sqlite \<Rightarrow> (u64 \<Rightarrow> int \<times> int) \<Rightarrow> (u64 \<Rightarrow> u64) \<Rightarrow> int \<times> int \<Rightarrow> OutboundAck list \<Rightarrow> 'd db \<Rightarrow> db_error + 'd db" where
  "db_acks api clk wall t acks s =
     andthen (fold_res (append_execution_report api clk wall) (take 32 acks) s) (maybe_flush api False t)"

definition no_throw :: "'x + 'a \<Rightarrow> 'a option" where
  "no_throw r = (case r of Inl x \<Rightarrow> None | Inr a \<Rightarrow> Some a)"

text \<open>
  The thread. \<open>acks i\<close> is what \<^verbatim>\<open>fills_\<close> holds in round \<open>i\<close> (at most 32 are taken), \<open>final\<close> what the
  final drain finds. An exception leaves the thread and ends the program: \<^const>\<open>None\<close>.
\<close>

definition db_run ::
  "(nat \<Rightarrow> SequencedEvent bring \<Rightarrow> SequencedEvent bring) \<Rightarrow> 'd sqlite \<Rightarrow> (u64 \<Rightarrow> int \<times> int) \<Rightarrow> (u64 \<Rightarrow> u64) \<Rightarrow> (nat \<Rightarrow> int \<times> int)
     \<Rightarrow> (nat \<Rightarrow> OutboundAck list) \<Rightarrow> OutboundAck list \<Rightarrow> nat \<Rightarrow> nat \<Rightarrow> SequencedEvent bring \<Rightarrow> 'd db
     \<Rightarrow> (SequencedEvent bring \<times> 'd db) option" where
  "db_run penv api clk wall poll_clk acks final n cid b s =
     (case consumer_run penv (\<lambda>ev s. no_throw (db_event api clk ev s))
             (\<lambda>i s. no_throw (db_acks api clk wall (poll_clk i) (acks i) s)) n cid b s of
        None \<Rightarrow> None
      | Some (b', s') \<Rightarrow>
          map_option (Pair b') (no_throw
            (andthen (fold_res (append_execution_report api clk wall) final s') (db_close api (poll_clk n)))))"

section \<open>The documented behaviour of the library\<close>

type_synonym tables = "int list list \<times> int list list"

text \<open>An insert into a table whose first column is the primary key.\<close>

definition keyed_insert :: "int list \<Rightarrow> int list list \<Rightarrow> int list list" where
  "keyed_insert row rows = (if hd row \<in> hd ` set rows then rows else rows @ [row])"

text \<open>
  A connection \<open>d\<close> has the tables \<open>view d\<close> it sees, the tables \<open>disk d\<close> that are committed, and
  is inside a transaction or not. A database is usable from \<open>d\<close> on when opening, the schema
  statements and preparing succeed without changing the tables; inserts inside a transaction
  change the view only, and fail exactly when the primary key exists; \<^verbatim>\<open>COMMIT\<close> makes the view
  durable and \<^verbatim>\<open>BEGIN\<close> opens a transaction.
\<close>

definition sqlite_ok :: "'d sqlite \<Rightarrow> ('d \<Rightarrow> tables) \<Rightarrow> ('d \<Rightarrow> tables) \<Rightarrow> ('d \<Rightarrow> bool) \<Rightarrow> bool" where
  "sqlite_ok api view disk txn \<longleftrightarrow>
     (\<forall>d. \<not> txn d \<longrightarrow> (\<exists>d'. sq_open api d = (True, d') \<and> view d' = view d \<and> disk d' = disk d \<and> \<not> txn d')) \<and>
     (\<forall>d sql. sql \<in> set schema_sql \<longrightarrow> \<not> txn d \<longrightarrow>
        (\<exists>d'. sq_exec api sql d = (True, d') \<and> view d' = view d \<and> disk d' = disk d \<and> \<not> txn d')) \<and>
     (\<forall>d. sq_prepare api insert_orders_sql d \<and> sq_prepare api insert_exec_sql d) \<and>
     (\<forall>d. \<not> txn d \<longrightarrow> (\<exists>d'. sq_exec api ''BEGIN;'' d = (True, d') \<and> view d' = view d \<and> disk d' = disk d \<and> txn d')) \<and>
     (\<forall>d. txn d \<longrightarrow> (\<exists>d'. sq_exec api ''COMMIT;'' d = (True, d') \<and> view d' = view d \<and> disk d' = view d \<and> \<not> txn d')) \<and>
     (\<forall>d row. txn d \<longrightarrow> (\<exists>d'. sq_step api insert_orders_sql row d = (hd row \<notin> hd ` set (fst (view d)), d') \<and>
        view d' = (keyed_insert row (fst (view d)), snd (view d)) \<and> disk d' = disk d \<and> txn d')) \<and>
     (\<forall>d row. txn d \<longrightarrow> (\<exists>d'. sq_step api insert_exec_sql row d = (True, d') \<and>
        view d' = (fst (view d), snd (view d) @ [row]) \<and> disk d' = disk d \<and> txn d'))"

lemma sqlite_open: "sqlite_ok api view disk txn \<Longrightarrow> \<not> txn d \<Longrightarrow>
    \<exists>d'. sq_open api d = (True, d') \<and> view d' = view d \<and> disk d' = disk d \<and> \<not> txn d'"
  unfolding sqlite_ok_def by (elim conjE allE) (erule (1) mp)

lemma sqlite_schema: "sqlite_ok api view disk txn \<Longrightarrow> sql \<in> set schema_sql \<Longrightarrow> \<not> txn d \<Longrightarrow>
    \<exists>d'. sq_exec api sql d = (True, d') \<and> view d' = view d \<and> disk d' = disk d \<and> \<not> txn d'"
  unfolding sqlite_ok_def by (elim conjE) simp

lemma sqlite_prepare: "sqlite_ok api view disk txn \<Longrightarrow> sq_prepare api insert_orders_sql d \<and> sq_prepare api insert_exec_sql d"
  unfolding sqlite_ok_def by (elim conjE) simp

lemma sqlite_begin: "sqlite_ok api view disk txn \<Longrightarrow> \<not> txn d \<Longrightarrow>
    \<exists>d'. sq_exec api ''BEGIN;'' d = (True, d') \<and> view d' = view d \<and> disk d' = disk d \<and> txn d'"
  unfolding sqlite_ok_def by (elim conjE) simp

lemma sqlite_commit: "sqlite_ok api view disk txn \<Longrightarrow> txn d \<Longrightarrow>
    \<exists>d'. sq_exec api ''COMMIT;'' d = (True, d') \<and> view d' = view d \<and> disk d' = view d \<and> \<not> txn d'"
  unfolding sqlite_ok_def by (elim conjE) simp

lemma sqlite_insert_order: "sqlite_ok api view disk txn \<Longrightarrow> txn d \<Longrightarrow>
    \<exists>d'. sq_step api insert_orders_sql row d = (hd row \<notin> hd ` set (fst (view d)), d') \<and>
      view d' = (keyed_insert row (fst (view d)), snd (view d)) \<and> disk d' = disk d \<and> txn d'"
  unfolding sqlite_ok_def by (elim conjE) simp

lemma sqlite_insert_exec: "sqlite_ok api view disk txn \<Longrightarrow> txn d \<Longrightarrow>
    \<exists>d'. sq_step api insert_exec_sql row d = (True, d') \<and> view d' = (fst (view d), snd (view d) @ [row]) \<and> disk d' = disk d \<and> txn d'"
  unfolding sqlite_ok_def by (elim conjE) simp

section \<open>What the tables hold\<close>

text \<open>
  \<open>db_holds\<close>: the writer is inside a transaction that sees the tables \<open>T\<close>, of which at most
  \<open>pending\<close> rows at the end are not committed.
\<close>

definition uncommitted :: "tables \<Rightarrow> tables \<Rightarrow> nat \<Rightarrow> bool" where
  "uncommitted D T n \<longleftrightarrow> prefix (fst D) (fst T) \<and> prefix (snd D) (snd T) \<and>
     length (fst T) + length (snd T) \<le> length (fst D) + length (snd D) + n"

definition db_holds :: "'d sqlite \<Rightarrow> ('d \<Rightarrow> tables) \<Rightarrow> ('d \<Rightarrow> tables) \<Rightarrow> ('d \<Rightarrow> bool) \<Rightarrow> tables \<Rightarrow> 'd db \<Rightarrow> bool" where
  "db_holds api view disk txn T s \<longleftrightarrow> sqlite_ok api view disk txn \<and> db_opened s \<and> in_txn s \<and> txn (db_conn s) \<and>
     view (db_conn s) = T \<and> uncommitted (disk (db_conn s)) T (pending s)"

definition in_window :: "'d db \<Rightarrow> bool" where
  "in_window s \<longleftrightarrow> pending s < max 1 (batch_every_n s)"

lemma uncommitted_refl [simp]: "uncommitted T T n"
  by (simp add: uncommitted_def)

lemma uncommitted_insert:
  assumes "uncommitted D T n"
  shows "uncommitted D (keyed_insert row (fst T), snd T) (Suc n)" and "uncommitted D (fst T, snd T @ [row]) (Suc n)"
  using assms by (auto simp: uncommitted_def keyed_insert_def)

lemma commit_begin:
  assumes "db_holds api view disk txn T s"
  shows "\<exists>s1. db_exec api ''COMMIT;'' s = Inr s1 \<and> s1 = s\<lparr>db_conn := db_conn s1\<rparr> \<and> view (db_conn s1) = T \<and> disk (db_conn s1) = T \<and> \<not> txn (db_conn s1)"
proof -
  obtain d where "sq_exec api ''COMMIT;'' (db_conn s) = (True, d)" "view d = T" "disk d = T" "\<not> txn d"
    using assms sqlite_commit [of api view disk txn "db_conn s"] by (auto simp: db_holds_def)
  then show ?thesis
    by (intro exI [of _ "s\<lparr>db_conn := d\<rparr>"]) (simp add: db_exec_def)
qed

lemma begin_txn:
  assumes "sqlite_ok api view disk txn" and "\<not> txn (db_conn s)"
  shows "\<exists>s1. db_exec api ''BEGIN;'' s = Inr s1 \<and> s1 = s\<lparr>db_conn := db_conn s1\<rparr> \<and> view (db_conn s1) = view (db_conn s) \<and>
    disk (db_conn s1) = disk (db_conn s) \<and> txn (db_conn s1)"
proof -
  obtain d where "sq_exec api ''BEGIN;'' (db_conn s) = (True, d)" "view d = view (db_conn s)" "disk d = disk (db_conn s)" "txn d"
    using sqlite_begin [OF assms] by auto
  then show ?thesis
    by (intro exI [of _ "s\<lparr>db_conn := d\<rparr>"]) (simp add: db_exec_def)
qed

text \<open>A flush keeps the tables and the counters; afterwards fewer than a batch of rows is uncommitted.\<close>

lemma maybe_flush_holds:
  assumes "db_holds api view disk txn T s"
  shows "\<exists>s'. maybe_flush api False t s = Inr s' \<and> db_holds api view disk txn T s' \<and> in_window s' \<and>
    orders_written s' = orders_written s \<and> execs_written s' = execs_written s \<and> batch_every_n s' = batch_every_n s"
proof (cases "pending s = 0 \<or> pending s < batch_every_n s \<and> fst t - last_flush s < batch_interval s")
  case True
  with assms show ?thesis by (auto simp: maybe_flush_def in_window_def)
next
  case False
  have ok: "sqlite_ok api view disk txn" "in_txn s"
    using assms by (simp_all add: db_holds_def)
  obtain s1 where s1: "db_exec api ''COMMIT;'' s = Inr s1" "s1 = s\<lparr>db_conn := db_conn s1\<rparr>" "view (db_conn s1) = T"
    "disk (db_conn s1) = T" "\<not> txn (db_conn s1)"
    using commit_begin [OF assms] by blast
  define s2 where "s2 = s\<lparr>db_conn := db_conn s1, in_txn := False, pending := 0, last_flush := snd t\<rparr>"
  have s2': "s1\<lparr>in_txn := False, pending := 0, last_flush := snd t\<rparr> = s2"
    by (subst s1(2)) (simp add: s2_def)
  obtain s3 where s3: "db_exec api ''BEGIN;'' s2 = Inr s3" "s3 = s2\<lparr>db_conn := db_conn s3\<rparr>" "view (db_conn s3) = T"
    "disk (db_conn s3) = T" "txn (db_conn s3)"
    using begin_txn [OF ok(1), of s2] s1(3-5) by (auto simp: s2_def)
  have "maybe_flush api False t s = Inr (s3\<lparr>in_txn := True\<rparr>)"
    using False ok(2) s1(1) s3(1) by (auto simp: maybe_flush_def Let_def s2')
  moreover have "pending s3 = 0" "orders_written s3 = orders_written s" "execs_written s3 = execs_written s"
    "batch_every_n s3 = batch_every_n s" "db_opened s3 = db_opened s"
    by (subst s3(2), simp add: s2_def)+
  ultimately show ?thesis
    using assms s3(3-5) by (auto simp: db_holds_def in_window_def)
qed

lemma insert_order_holds:
  assumes "db_holds api view disk txn T s"
  shows "db_holds api view disk txn (keyed_insert row (fst T), snd T)
    ((step_checked api insert_orders_sql row s)\<lparr>orders_written := w, pending := pending s + 1\<rparr>)"
proof -
  obtain d where "sq_step api insert_orders_sql row (db_conn s) = (hd row \<notin> hd ` set (fst T), d)"
    "view d = (keyed_insert row (fst T), snd T)" "disk d = disk (db_conn s)" "txn d"
    using assms sqlite_insert_order [of api view disk txn "db_conn s" row] by (auto simp: db_holds_def)
  then show ?thesis
    using assms by (simp add: db_holds_def step_checked_def uncommitted_insert)
qed

lemma insert_exec_holds:
  assumes "db_holds api view disk txn T s"
  shows "db_holds api view disk txn (fst T, snd T @ [row])
    ((step_checked api insert_exec_sql row s)\<lparr>execs_written := w, pending := pending s + 1\<rparr>)"
proof -
  obtain d where "sq_step api insert_exec_sql row (db_conn s) = (True, d)"
    "view d = (fst T, snd T @ [row])" "disk d = disk (db_conn s)" "txn d"
    using assms sqlite_insert_exec [of api view disk txn "db_conn s" row] by (auto simp: db_holds_def)
  then show ?thesis
    using assms by (simp add: db_holds_def step_checked_def uncommitted_insert)
qed

lemma append_order_holds:
  assumes "db_holds api view disk txn T s"
  shows "\<exists>s'. append_order api clk ev s = Inr s' \<and> db_holds api view disk txn (keyed_insert (order_row ev) (fst T), snd T) s' \<and>
    in_window s' \<and> orders_written s' = orders_written s + 1 \<and> execs_written s' = execs_written s \<and> batch_every_n s' = batch_every_n s"
  using maybe_flush_holds [OF insert_order_holds [OF assms]] by (simp add: append_order_def step_checked_def)

lemma append_exec_holds:
  assumes "db_holds api view disk txn T s"
  shows "\<exists>s'. append_execution_report api clk wall ack s = Inr s' \<and>
    db_holds api view disk txn (fst T, snd T @ [exec_row (wall (execs_written s)) ack]) s' \<and> in_window s' \<and>
    orders_written s' = orders_written s \<and> execs_written s' = execs_written s + 1 \<and> batch_every_n s' = batch_every_n s"
  using maybe_flush_holds [OF insert_exec_holds [OF assms]] by (simp add: append_execution_report_def step_checked_def)

text \<open>The rows of a list of acknowledgements, the first being execution report number \<open>n\<close>.\<close>

fun exec_rows :: "(u64 \<Rightarrow> u64) \<Rightarrow> u64 \<Rightarrow> OutboundAck list \<Rightarrow> int list list" where
  "exec_rows wall n [] = []"
| "exec_rows wall n (a # as) = exec_row (wall n) a # exec_rows wall (n + 1) as"

lemma exec_rows_append:
  "exec_rows wall n (as @ bs) = exec_rows wall n as @ exec_rows wall (n + of_nat (length as)) bs"
  by (induction as arbitrary: n) (simp_all add: ac_simps)

lemma append_execs_holds:
  assumes "db_holds api view disk txn T s" and "in_window s"
  shows "\<exists>s'. fold_res (append_execution_report api clk wall) as s = Inr s' \<and>
    db_holds api view disk txn (fst T, snd T @ exec_rows wall (execs_written s) as) s' \<and> in_window s' \<and>
    orders_written s' = orders_written s \<and> execs_written s' = execs_written s + of_nat (length as) \<and> batch_every_n s' = batch_every_n s"
  using assms
proof (induction as arbitrary: s T)
  case (Cons a as)
  from append_exec_holds [OF Cons.prems(1), of clk wall a] obtain s1 where
    1: "append_execution_report api clk wall a s = Inr s1" and
    2: "db_holds api view disk txn (fst T, snd T @ [exec_row (wall (execs_written s)) a]) s1" "in_window s1" and
    3: "orders_written s1 = orders_written s" "execs_written s1 = execs_written s + 1" "batch_every_n s1 = batch_every_n s"
    by blast
  from Cons.IH [OF 2] 1 3 show ?case by (simp add: ac_simps)
qed simp

section \<open>The run of the thread\<close>

definition is_request :: "SequencedEvent \<Rightarrow> bool" where
  "is_request ev \<longleftrightarrow> ev_type ev = Ev_NewOrder \<or> ev_type ev = Ev_CancelOrder"

definition order_rows :: "SequencedEvent list \<Rightarrow> int list list \<Rightarrow> int list list" where
  "order_rows es rows = fold keyed_insert (map order_row (filter is_request es)) rows"

text \<open>The acknowledgements taken from the queue in the rounds \<open>n - 1\<close> down to \<open>k\<close>.\<close>

definition taken :: "(nat \<Rightarrow> OutboundAck list) \<Rightarrow> nat \<Rightarrow> nat \<Rightarrow> OutboundAck list" where
  "taken acks n k = concat (map (\<lambda>i. take 32 (acks i)) (rev [k..<n]))"

lemma taken_simps [simp]: "taken acks n n = []" "k < n \<Longrightarrow> taken acks n k = taken acks n (Suc k) @ take 32 (acks k)"
  by (simp_all add: taken_def upt_conv_Cons)

definition db_log ::
  "'d sqlite \<Rightarrow> ('d \<Rightarrow> tables) \<Rightarrow> ('d \<Rightarrow> tables) \<Rightarrow> ('d \<Rightarrow> bool) \<Rightarrow> tables \<Rightarrow> nat \<Rightarrow> (u64 \<Rightarrow> u64) \<Rightarrow> (nat \<Rightarrow> OutboundAck list) \<Rightarrow> nat
     \<Rightarrow> nat \<Rightarrow> SequencedEvent list \<Rightarrow> 'd db \<Rightarrow> bool" where
  "db_log api view disk txn T every wall acks n k es s \<longleftrightarrow> k \<le> n \<and>
     db_holds api view disk txn (order_rows es (fst T), snd T @ exec_rows wall 0 (taken acks n k)) s \<and> in_window s \<and>
     batch_every_n s = every \<and> orders_written s = of_nat (length (filter is_request es)) \<and> execs_written s = of_nat (length (taken acks n k))"

lemma db_log_event:
  assumes "db_log api view disk txn T every wall acks n k es s"
  shows "\<exists>s'. no_throw (db_event api clk ev s) = Some s' \<and> db_log api view disk txn T every wall acks n k (es @ [ev]) s'"
proof (cases "is_request ev")
  case True
  from assms have "db_holds api view disk txn (order_rows es (fst T), snd T @ exec_rows wall 0 (taken acks n k)) s"
    by (simp add: db_log_def)
  from append_order_holds [OF this, of clk ev] True assms show ?thesis
    by (auto simp: db_event_def is_request_def [symmetric] no_throw_def db_log_def order_rows_def)
next
  case False
  with assms show ?thesis
    by (simp add: db_event_def is_request_def [symmetric] no_throw_def db_log_def order_rows_def)
qed

lemma db_log_acks:
  assumes "db_log api view disk txn T every wall acks n (Suc k) es s"
  shows "\<exists>s'. no_throw (db_acks api clk wall t (acks k) s) = Some s' \<and> db_log api view disk txn T every wall acks n k es s'"
proof -
  let ?as = "take 32 (acks k)"
  have s: "db_holds api view disk txn (order_rows es (fst T), snd T @ exec_rows wall 0 (taken acks n (Suc k))) s" "in_window s"
    "execs_written s = of_nat (length (taken acks n (Suc k)))" "k < n"
    using assms by (simp_all add: db_log_def)
  from append_execs_holds [OF s(1,2), of clk wall ?as] obtain s1 where
    1: "fold_res (append_execution_report api clk wall) ?as s = Inr s1" and
    2: "db_holds api view disk txn (order_rows es (fst T), snd T @ exec_rows wall 0 (taken acks n k)) s1" and
    3: "orders_written s1 = orders_written s" "execs_written s1 = of_nat (length (taken acks n k))" "batch_every_n s1 = batch_every_n s"
    using s(3,4) by (auto simp: exec_rows_append)
  from maybe_flush_holds [OF 2, of t] 1 3 assms show ?thesis
    by (auto simp: db_acks_def no_throw_def db_log_def)
qed

interpretation dl: log_consumer "\<lambda>ev s. no_throw (db_event api clk ev s)"
    "\<lambda>i s. no_throw (db_acks api clk wall (poll_clk i) (acks i) s)" "db_log api view disk txn T every wall acks n"
  for api :: "'d sqlite" and clk wall poll_clk acks view disk txn T every n
  by unfold_locales ((rule db_log_event | rule db_log_acks), assumption)+

section \<open>Opening and closing\<close>

lemma schema_holds:
  assumes "sqlite_ok api view disk txn" and "\<not> txn (db_conn s)" and "set sqls \<subseteq> set schema_sql"
  shows "\<exists>d. fold_res (db_exec api) sqls s = Inr (s\<lparr>db_conn := d\<rparr>) \<and> view d = view (db_conn s) \<and> disk d = disk (db_conn s) \<and> \<not> txn d"
  using assms(2,3)
proof (induction sqls arbitrary: s)
  case Nil
  then show ?case by (intro exI [of _ "db_conn s"]) simp
next
  case (Cons sql sqls)
  then have "sql \<in> set schema_sql" by simp
  with sqlite_schema [OF assms(1) _ Cons.prems(1)] obtain d where "sq_exec api sql (db_conn s) = (True, d)"
    "view d = view (db_conn s)" "disk d = disk (db_conn s)" "\<not> txn d"
    by blast
  with Cons.IH [of "s\<lparr>db_conn := d\<rparr>"] Cons.prems(2) show ?case
    by (auto simp: db_exec_def)
qed

lemma db_open_holds:
  assumes "sqlite_ok api view disk txn" and "\<not> txn d" and "view d = disk d"
  shows "\<exists>s. db_open api now (db_init d every iv) = Inr (True, s) \<and> db_log api view disk txn (disk d) every wall acks n n [] s"
proof -
  from sqlite_open [OF assms(1,2)] obtain d1 where d1: "sq_open api d = (True, d1)" "view d1 = view d" "disk d1 = disk d" "\<not> txn d1"
    by blast
  let ?s1 = "(db_init d every iv)\<lparr>db_conn := d1, db_opened := True\<rparr>"
  from schema_holds [OF assms(1), of ?s1 schema_sql] d1 obtain d2 where
    d2: "fold_res (db_exec api) schema_sql ?s1 = Inr (?s1\<lparr>db_conn := d2\<rparr>)" "view d2 = disk d" "disk d2 = disk d" "\<not> txn d2"
    using assms(3) by auto
  from sqlite_begin [OF assms(1) d2(4)] d2 obtain d3 where d3: "sq_exec api ''BEGIN;'' d2 = (True, d3)" "view d3 = disk d" "disk d3 = disk d" "txn d3"
    by auto
  have "sq_prepare api insert_orders_sql d2" "sq_prepare api insert_exec_sql d2"
    using sqlite_prepare [OF assms(1)] by blast+
  then have "db_open api now (db_init d every iv) = Inr (True, ?s1\<lparr>db_conn := d3, last_flush := now, in_txn := True\<rparr>)"
    using d1(1) d2(1) d3(1) by (simp add: db_open_def Let_def db_init_def) (simp add: db_prepare_def db_exec_def)
  moreover have "db_holds api view disk txn (disk d) (?s1\<lparr>db_conn := d3, last_flush := now, in_txn := True\<rparr>)"
    unfolding db_holds_def using assms(1) d3(2-4) by (intro conjI) simp_all
  ultimately show ?thesis
    by (intro exI conjI) (assumption, simp add: db_log_def order_rows_def in_window_def db_init_def)
qed

lemma db_close_holds:
  assumes "db_holds api view disk txn T s"
  shows "\<exists>s'. db_close api t s = Inr s' \<and> disk (db_conn s') = T \<and> \<not> txn (db_conn s') \<and> \<not> db_opened s' \<and> \<not> in_txn s' \<and>
    orders_written s' = orders_written s \<and> execs_written s' = execs_written s"
proof -
  obtain s1 where s1: "db_exec api ''COMMIT;'' s = Inr s1" "s1 = s\<lparr>db_conn := db_conn s1\<rparr>" "disk (db_conn s1) = T" "\<not> txn (db_conn s1)"
    using commit_begin [OF assms] by blast
  have "orders_written s1 = orders_written s" "execs_written s1 = execs_written s"
    by (subst s1(2), simp)+
  with s1 assms show ?thesis
    by (simp add: db_close_def maybe_flush_def db_holds_def Let_def)
qed

section \<open>Properties\<close>

lemma sint_eq_iff: "sint (a :: u64) = sint b \<longleftrightarrow> a = b"
  by (simp add: signed_word_eqI [THEN iffI] inj_eq)

lemma keyed_inserts_fresh:
  "distinct (map hd rs) \<Longrightarrow> hd ` set rs \<inter> hd ` set rows = {} \<Longrightarrow> fold keyed_insert rs rows = rows @ rs"
  by (induction rs arbitrary: rows) (auto simp: keyed_insert_def)

lemma order_rows_fresh:
  assumes "distinct (map ev_seq_num es)" and "\<forall>ev \<in> set es. sint (ev_seq_num ev) \<notin> hd ` set rows"
  shows "order_rows es rows = rows @ map order_row (filter is_request es)"
proof -
  have key: "map hd (map order_row fs) = map sint (map ev_seq_num fs)" for fs
    by (simp add: order_row_def)
  have "distinct (map hd (map order_row (filter is_request es)))"
    unfolding key distinct_map [of sint] using assms(1) by (auto simp: inj_on_def sint_eq_iff distinct_map_filter)
  then show ?thesis
    unfolding order_rows_def using assms(2) by (intro keyed_inserts_fresh) (auto simp: order_row_def)
qed

text \<open>
  The tables after shutdown. With a database that behaves as documented, opening succeeds and
  however the run interleaves with the sequencer and the matching engine, the thread ends with
  everything committed: the order table got one row per new-order or cancel event, in order,
  leaving out rows whose sequence number is already in the table, and the execution-report table
  one row per acknowledgement, in order.
\<close>
lemma db_run_complete:
  assumes "sqlite_ok api view disk txn" and "\<not> txn d" and "view d = disk d"
    and "publishes penv" and "bring_hist b es" and "cid < consumer_count b" and "reader_pos b cid = 0"
  shows "\<exists>s0 b' s' es'. db_open api now (db_init d every iv) = Inr (True, s0) \<and>
    db_run penv api clk wall poll_clk acks final n cid b s0 = Some (b', s') \<and>
    bring_hist b' (es @ es') \<and> reader_pos b' cid = length (es @ es') \<and> \<not> in_txn s' \<and> \<not> db_opened s' \<and>
    disk (db_conn s') = (order_rows (es @ es') (fst (disk d)), snd (disk d) @ exec_rows wall 0 (taken acks n 0 @ final)) \<and>
    orders_written s' = of_nat (length (filter is_request (es @ es')))"
proof -
  from db_open_holds [OF assms(1-3), of now every iv wall acks n] obtain s0 where
    s0: "db_open api now (db_init d every iv) = Inr (True, s0)" "db_log api view disk txn (disk d) every wall acks n n [] s0"
    by blast
  from dl.run_seen [OF assms(4-7) s0(2), where clk = clk and poll_clk = poll_clk] obtain b1 s1 es1 where
    1: "consumer_run penv (\<lambda>ev s. no_throw (db_event api clk ev s))
        (\<lambda>i s. no_throw (db_acks api clk wall (poll_clk i) (acks i) s)) n cid b s0 = Some (b1, s1)"
      "bring_hist b1 (es @ es1)" "reader_pos b1 cid = length (es @ es1)"
      "db_log api view disk txn (disk d) every wall acks n 0 (es @ es1) s1"
    by auto
  let ?T = "(order_rows (es @ es1) (fst (disk d)), snd (disk d) @ exec_rows wall 0 (taken acks n 0))"
  have h: "db_holds api view disk txn ?T s1" "in_window s1" "execs_written s1 = of_nat (length (taken acks n 0))"
    "orders_written s1 = of_nat (length (filter is_request (es @ es1)))"
    using 1(4) by (simp_all add: db_log_def)
  from append_execs_holds [OF h(1,2), of clk wall final] h(3) obtain s2 where
    2: "fold_res (append_execution_report api clk wall) final s1 = Inr s2" "orders_written s2 = orders_written s1"
      "db_holds api view disk txn (order_rows (es @ es1) (fst (disk d)), snd (disk d) @ exec_rows wall 0 (taken acks n 0 @ final)) s2"
    by (auto simp: exec_rows_append)
  from db_close_holds [OF 2(3), of "poll_clk n"] obtain s3 where
    3: "db_close api (poll_clk n) s2 = Inr s3" "\<not> db_opened s3" "\<not> in_txn s3" "orders_written s3 = orders_written s2"
      "disk (db_conn s3) = (order_rows (es @ es1) (fst (disk d)), snd (disk d) @ exec_rows wall 0 (taken acks n 0 @ final))"
    by blast
  have "db_run penv api clk wall poll_clk acks final n cid b s0 = Some (b1, s3)"
    using 1(1) 2(1) 3(1) by (simp add: db_run_def no_throw_def [of "Inr s3"])
  with s0(1) 1(2,3) 3 2(2) h(4) show ?thesis by metis
qed

text \<open>A small database that has the documented behaviour: tables, committed tables, transaction flag.\<close>

definition lite :: "(tables \<times> tables \<times> bool) sqlite" where
  "lite = \<lparr>sq_open = (\<lambda>d. (True, d)),
     sq_exec = (\<lambda>sql (v, k, t). if sql = ''BEGIN;'' then (\<not> t, v, k, True) else if sql = ''COMMIT;'' then (t, v, v, False) else (True, v, k, t)),
     sq_prepare = (\<lambda>sql d. True),
     sq_step = (\<lambda>sql row (v, k, t). if sql = insert_orders_sql
        then (hd row \<notin> hd ` set (fst v), (keyed_insert row (fst v), snd v), k, t)
        else (True, (fst v, snd v @ [row]), k, t))\<rparr>"

lemma lite_ok: "sqlite_ok lite fst (\<lambda>d. fst (snd d)) (\<lambda>d. snd (snd d))"
proof -
  have "insert_exec_sql \<noteq> insert_orders_sql"
    by (simp add: insert_exec_sql_def insert_orders_sql_def)
  moreover have "sql \<noteq> ''BEGIN;'' \<and> sql \<noteq> ''COMMIT;''" if "sql \<in> set schema_sql" for sql
    using that by (auto simp: schema_sql_def)
  ultimately show ?thesis
    unfolding sqlite_ok_def by (auto simp: lite_def)
qed

text \<open>
  The loss window of the database: after any appended events fewer than
  \<^verbatim>\<open>batch_every_n\<close> rows are uncommitted, and what is committed is a prefix of what was written.
\<close>
lemma db_crash_loss_window:
  assumes "sqlite_ok api view disk txn" and "\<not> txn d" and "view d = disk d"
  shows "\<exists>s0 s. db_open api now (db_init d every iv) = Inr (True, s0) \<and>
    fold_opt (\<lambda>ev s. no_throw (db_event api clk ev s)) evs s0 = Some s \<and>
    view (db_conn s) = (order_rows evs (fst (disk d)), snd (disk d)) \<and>
    (\<exists>k < max 1 every. uncommitted (disk (db_conn s)) (view (db_conn s)) k)"
proof -
  from db_open_holds [OF assms, of now every iv "\<lambda>n. n" "\<lambda>n. []" 0] obtain s0 where
    s0: "db_open api now (db_init d every iv) = Inr (True, s0)" "db_log api view disk txn (disk d) every (\<lambda>n. n) (\<lambda>n. []) 0 0 [] s0"
    by blast
  from dl.reader.handle_all [OF TrueI s0(2), where clk = clk and fs = evs] obtain s where
    "fold_opt (\<lambda>ev s. no_throw (db_event api clk ev s)) evs s0 = Some s" "db_log api view disk txn (disk d) every (\<lambda>n. n) (\<lambda>n. []) 0 0 evs s"
    by auto
  with s0(1) show ?thesis
    by (intro exI [of _ s0] exI [of _ s]) (auto simp: db_log_def db_holds_def in_window_def)
qed

text \<open>
  A reused sequence number. When a row with the event's sequence number already exists,
  appending the event returns normally and counts the row as written, but the order table stays
  as it was. Sequence numbers start from 1 in every process and the file is kept, so this is
  what happens to the orders of a second run.
\<close>
lemma db_reused_seq_num_dropped:
  assumes "db_holds api view disk txn T s" and "sint (ev_seq_num ev) \<in> hd ` set (fst T)"
  shows "\<exists>s'. append_order api clk ev s = Inr s' \<and> view (db_conn s') = T \<and> orders_written s' = orders_written s + 1"
proof -
  have "keyed_insert (order_row ev) (fst T) = fst T"
    using assms(2) by (simp add: keyed_insert_def order_row_def)
  with append_order_holds [OF assms(1), of clk ev] show ?thesis
    by (auto simp: db_holds_def)
qed

end
