(* ===== verification/Exchange.thy ===== *)
theory Exchange
  imports Engine_Properties Sequencer Db_Consumer
begin

text \<open>
  The gateway program of \<^verbatim>\<open>src/gateway_main.cpp\<close>: one sequencer and the three consumers of its ring, the
  matching engine, the write-ahead log and the database. Every thread moves by steps of its own, in any order;
  the gateway's part is to push requests and to take acknowledgements. The theory defines start-up, the steps
  and the shutdown, and shows that every consumer is at all times a reader of the same history.
\<close>

section \<open>State, start-up and shutdown\<close>

record 'd exchange =
  x_seq :: sequencer
  x_pushed :: "(nat \<times> SequencedEvent) list"
  x_engine :: engine
  x_wal :: wal
  x_db :: "'d db"

datatype start_error = Wal_open_failed | Db_open_failed | Db_threw db_error

text \<open>The consumers register in the order matching engine, log, database, before anything is published.\<close>

definition exchange_init ::
  "nat \<Rightarrow> nat \<Rightarrow> nat \<Rightarrow> nat \<Rightarrow> nat \<Rightarrow> SequencedEvent \<Rightarrow> OutboundAck \<Rightarrow> wal \<Rightarrow> 'd db \<Rightarrow> 'd exchange" where
  "exchange_init in_cap maxc out_cap ack_cap pool_cap dev dack w d =
     (let s = sequencer_init in_cap maxc out_cap dev;
          (matcher_id, b1) = register_consumer (seq_output s);
          (wal_id, b2) = register_consumer b1;
          (db_id, b3) = register_consumer b2
      in \<lparr>x_seq = s\<lparr>seq_output := b3\<rparr>, x_pushed = [],
          x_engine = engine_init pool_cap (spsc_init ack_cap dack) (Some (spsc_init ack_cap dack)), x_wal = w, x_db = d\<rparr>)"

definition exchange_start :: "'d sqlite \<Rightarrow> bool \<Rightarrow> int \<Rightarrow> int \<Rightarrow> 'd exchange \<Rightarrow> start_error + 'd exchange" where
  "exchange_start api can_open wal_now db_now x =
     (case wal_open can_open wal_now (x_wal x) of
        (False, w) \<Rightarrow> Inl Wal_open_failed
      | (True, w) \<Rightarrow>
          (case db_open api db_now (x_db x) of
             Inl err \<Rightarrow> Inl (Db_threw err)
           | Inr (False, d) \<Rightarrow> Inl Db_open_failed
           | Inr (True, d) \<Rightarrow> Inr (x\<lparr>x_wal := w, x_db := d, x_seq := seq_start (x_seq x)\<rparr>)))"

text \<open>The final loop of the database thread over the mirrored acknowledgements.\<close>

partial_function (option) drain_fills ::
  "(OutboundAck \<Rightarrow> 'd db \<Rightarrow> 'd db option) \<Rightarrow> OutboundAck spsc \<Rightarrow> 'd db \<Rightarrow> (OutboundAck spsc \<times> 'd db) option" where
  "drain_fills f q s =
     (case spsc_pop q of
        None \<Rightarrow> Some (q, s)
      | Some (ack, q') \<Rightarrow> (case f ack s of None \<Rightarrow> None | Some s' \<Rightarrow> drain_fills f q' s'))"

text \<open>What the environment provides: the database library, the clocks, what \<^verbatim>\<open>fwrite\<close> accepts and the padding bytes.\<close>

record 'd surroundings =
  en_api :: "'d sqlite"
  en_fw :: "u64 \<Rightarrow> nat"
  en_pad :: "u64 \<Rightarrow> u8 list"
  en_wal_clk :: "u64 \<Rightarrow> int \<times> int"
  en_db_clk :: "u64 \<Rightarrow> int \<times> int"
  en_wall :: "u64 \<Rightarrow> u64"

definition on_log :: "'d surroundings \<Rightarrow> SequencedEvent \<Rightarrow> wal \<Rightarrow> wal option" where
  "on_log en = wal_append (en_fw en) (en_pad en) (en_wal_clk en)"

definition on_store :: "'d surroundings \<Rightarrow> SequencedEvent \<Rightarrow> 'd db \<Rightarrow> 'd db option" where
  "on_store en ev s = no_throw (db_event (en_api en) (en_db_clk en) ev s)"

definition on_report :: "'d surroundings \<Rightarrow> OutboundAck \<Rightarrow> 'd db \<Rightarrow> 'd db option" where
  "on_report en ack s = no_throw (append_execution_report (en_api en) (en_db_clk en) (en_wall en) ack s)"

text \<open>The consumers stop one after the other once the sequencer thread has ended.\<close>

definition exchange_shutdown :: "'d surroundings \<Rightarrow> drain \<Rightarrow> int \<times> int \<Rightarrow> int \<times> int \<Rightarrow> 'd exchange \<Rightarrow> 'd exchange option" where
  "exchange_shutdown en env wal_t db_t x =
     (case consume_all try_consume 0 (engine_apply env) (seq_output (x_seq x)) (x_engine x) of
        None \<Rightarrow> None
      | Some (b1, e) \<Rightarrow>
     (case consume_all try_consume 1 (on_log en) b1 (x_wal x) of
        None \<Rightarrow> None
      | Some (b2, w) \<Rightarrow>
     (case wal_close wal_t w of
        None \<Rightarrow> None
      | Some w' \<Rightarrow>
     (case consume_all try_consume 2 (on_store en) b2 (x_db x) of
        None \<Rightarrow> None
      | Some (b3, d) \<Rightarrow>
     (case (case fills e of None \<Rightarrow> Some (None, d) | Some q \<Rightarrow> map_option (apfst Some) (drain_fills (on_report en) q d)) of
        None \<Rightarrow> None
      | Some (fq, d') \<Rightarrow>
     (case no_throw (db_close (en_api en) db_t d') of
        None \<Rightarrow> None
      | Some d'' \<Rightarrow>
          Some (x\<lparr>x_seq := (x_seq x)\<lparr>seq_output := b3\<rparr>, x_engine := e\<lparr>fills := fq\<rparr>, x_wal := w', x_db := d''\<rparr>)))))))"

section \<open>The steps of the threads\<close>

datatype x_action =
    X_seq seq_action                \<comment> \<open>a push, a step of the sequencer thread, or its stop\<close>
  | X_match drain                   \<comment> \<open>the engine handles one event\<close>
  | X_ack                           \<comment> \<open>the gateway takes one acknowledgement\<close>
  | X_log                           \<comment> \<open>the log appends one event\<close>
  | X_sync "int \<times> int"              \<comment> \<open>the log's check between two batches\<close>
  | X_store                         \<comment> \<open>the database stores one event\<close>
  | X_report                        \<comment> \<open>the database stores one mirrored acknowledgement\<close>
  | X_flush "int \<times> int"             \<comment> \<open>the database's check between two batches\<close>

definition set_output :: "SequencedEvent bring \<Rightarrow> 'd exchange \<Rightarrow> 'd exchange" where
  "set_output b x = x\<lparr>x_seq := (x_seq x)\<lparr>seq_output := b\<rparr>\<rparr>"

fun x_act :: "'d surroundings \<Rightarrow> x_action \<Rightarrow> 'd exchange \<Rightarrow> 'd exchange option" where
  "x_act en (X_seq a) x = map_option (\<lambda>(s, acc). x\<lparr>x_seq := s, x_pushed := acc\<rparr>) (seq_act a (x_seq x, x_pushed x))"
| "x_act en (X_match env) x =
     map_option (\<lambda>(b, e). set_output b (x\<lparr>x_engine := e\<rparr>)) (consume_one (engine_apply env) 0 (seq_output (x_seq x)) (x_engine x))"
| "x_act en X_ack x =
     (case spsc_pop (acks (x_engine x)) of None \<Rightarrow> Some x | Some (ack, q) \<Rightarrow> Some (x\<lparr>x_engine := (x_engine x)\<lparr>acks := q\<rparr>\<rparr>))"
| "x_act en X_log x =
     map_option (\<lambda>(b, w). set_output b (x\<lparr>x_wal := w\<rparr>)) (consume_one (on_log en) 1 (seq_output (x_seq x)) (x_wal x))"
| "x_act en (X_sync t) x = map_option (\<lambda>w. x\<lparr>x_wal := w\<rparr>) (maybe_fsync False t (x_wal x))"
| "x_act en X_store x =
     map_option (\<lambda>(b, d). set_output b (x\<lparr>x_db := d\<rparr>)) (consume_one (on_store en) 2 (seq_output (x_seq x)) (x_db x))"
| "x_act en X_report x =
     (case fills (x_engine x) of
        None \<Rightarrow> Some x
      | Some q \<Rightarrow>
          (case spsc_pop q of
             None \<Rightarrow> Some x
           | Some (ack, q') \<Rightarrow>
               map_option (\<lambda>d. x\<lparr>x_engine := (x_engine x)\<lparr>fills := Some q'\<rparr>, x_db := d\<rparr>) (on_report en ack (x_db x))))"
| "x_act en (X_flush t) x = map_option (\<lambda>d. x\<lparr>x_db := d\<rparr>) (no_throw (maybe_flush (en_api en) False t (x_db x)))"

section \<open>The engine does not depend on how its queues are emptied\<close>

definition same_core :: "engine \<Rightarrow> engine \<Rightarrow> bool" where
  "same_core e e' \<longleftrightarrow> eng_book e = eng_book e' \<and> by_client e = by_client e' \<and> resting e = resting e' \<and> eng_trades e = eng_trades e'"

text \<open>The mirrored acknowledgements the database has not taken yet.\<close>

definition mirrored :: "engine \<Rightarrow> OutboundAck set" where
  "mirrored e = (case fills e of None \<Rightarrow> {} | Some q \<Rightarrow> set (spsc_list q))"

definition fills_ok :: "engine \<Rightarrow> bool" where
  "fills_ok e \<longleftrightarrow> (\<forall>q. fills e = Some q \<longrightarrow> spsc_inv q)"

lemma push_ack_fills: "fills_ok e \<Longrightarrow> fills_ok (push_ack env a e)"
  using sq.push_Some by (fastforce simp: fills_ok_def push_ack_def split: prod.splits bool.splits option.splits)

lemma fills_ok_update [simp]:
  "fills_ok (e\<lparr>eng_book := b\<rparr>) = fills_ok e" "fills_ok (e\<lparr>by_client := m\<rparr>) = fills_ok e"
  "fills_ok (e\<lparr>resting := r\<rparr>) = fills_ok e" "fills_ok (e\<lparr>eng_trades := t\<rparr>) = fills_ok e"
  "fills_ok (e\<lparr>acks := q\<rparr>) = fills_ok e"
  by (simp_all add: fills_ok_def)

lemma apply_trades_core:
  assumes "same_core e e'"
  shows "same_core (fst (apply_trades env x ts e n)) (fst (apply_trades env' x ts e' n)) \<and>
    snd (apply_trades env x ts e n) = snd (apply_trades env' x ts e' n)"
  using assms
proof (induction ts arbitrary: e e' n)
  case (Cons t ts)
  let ?c = "if tr_buy_order_id t = x then tr_sell_order_id t else tr_buy_order_id t"
  have rest: "resting e = resting e'"
    using Cons.prems by (simp add: same_core_def)
  show ?case
  proof (cases "map_of (resting e') ?c")
    case None
    with Cons.IH [OF Cons.prems] rest show ?thesis by (simp add: Let_def)
  next
    case (Some info)
    with Cons.prems rest show ?thesis
      by (simp only: apply_trades.simps Let_def option.case) (rule Cons.IH, simp add: same_core_def)
  qed
qed simp

lemma apply_trades_fills: "fills_ok e \<Longrightarrow> fills_ok (fst (apply_trades env x ts e n))"
  by (induction ts arbitrary: e n) (auto simp: Let_def push_ack_fills split: option.splits)

lemma apply_new_order_core:
  assumes "same_core e e'" and "apply_new_order env ev e = Some f"
  shows "\<exists>f'. apply_new_order env' ev e' = Some f' \<and> same_core f f'"
proof -
  let ?add = "\<lambda>e. add_limit_order (eng_book e) (ev_seq_num ev) (ev_side ev) (uint (ev_price ev)) (ev_quantity ev) (ev_sequence_ts_ns ev) []"
  obtain b trs where add: "?add e = Some (b, trs)"
    using assms(2) by (auto simp: apply_new_order_def Let_def split: option.splits)
  then have add': "?add e' = Some (b, trs)"
    using assms(1) by (simp add: same_core_def)
  obtain e1 n e1' where
    t: "apply_trades env (ev_seq_num ev) trs (e\<lparr>eng_book := b, eng_trades := trs\<rparr>) 0 = (e1, n)"
      "apply_trades env' (ev_seq_num ev) trs (e'\<lparr>eng_book := b, eng_trades := trs\<rparr>) 0 = (e1', n)" and "same_core e1 e1'"
    using apply_trades_core [of "e\<lparr>eng_book := b, eng_trades := trs\<rparr>" "e'\<lparr>eng_book := b, eng_trades := trs\<rparr>" env "ev_seq_num ev" trs 0 env']
      assms(1) by (auto simp: same_core_def) (metis prod.collapse)
  with assms(2) show ?thesis
    by (auto simp: apply_new_order_def add add' t Let_def same_core_def)
qed

lemma apply_cancel_order_core:
  assumes "same_core e e'" and "apply_cancel_order env ev e = Some f"
  shows "\<exists>f'. apply_cancel_order env' ev e' = Some f' \<and> same_core f f'"
  using assms by (auto simp: apply_cancel_order_def same_core_def Let_def split: option.splits)

lemma engine_apply_core:
  assumes "same_core e e'" and "engine_apply env ev e = Some f"
  shows "\<exists>f'. engine_apply env' ev e' = Some f' \<and> same_core f f'"
  using assms apply_new_order_core apply_cancel_order_core
  by (cases "ev_type ev") (simp_all add: engine_apply_def)

lemma engine_apply_fills:
  assumes "fills_ok e" and "engine_apply env ev e = Some f"
  shows "fills_ok f"
proof (cases "ev_type ev")
  case Ev_NewOrder
  with assms show ?thesis
    by (auto simp: engine_apply_def apply_new_order_def Let_def split: option.splits prod.splits
        intro!: push_ack_fills apply_trades_fills dest!: arg_cong [of _ _ fst])
next
  case Ev_CancelOrder
  with assms show ?thesis
    by (auto simp: engine_apply_def apply_cancel_order_def Let_def push_ack_fills split: option.splits prod.splits)
qed (use assms in \<open>simp_all add: engine_apply_def\<close>)

section \<open>Three readers of one history\<close>

definition engine_seen :: "drain \<Rightarrow> engine \<Rightarrow> SequencedEvent list \<Rightarrow> engine \<Rightarrow> bool" where
  "engine_seen env0 e0 es e \<longleftrightarrow> engine_inv 0 e0 \<and> fills_ok e \<and> (\<exists>e1. fold_opt (engine_apply env0) es e0 = Some e1 \<and> same_core e1 e)"

definition db_has ::
  "'d sqlite \<Rightarrow> ('d \<Rightarrow> tables) \<Rightarrow> ('d \<Rightarrow> tables) \<Rightarrow> ('d \<Rightarrow> bool) \<Rightarrow> tables \<Rightarrow> (u64 \<Rightarrow> u64) \<Rightarrow> OutboundAck list \<Rightarrow> SequencedEvent list \<Rightarrow> 'd db \<Rightarrow> bool" where
  "db_has api view disk txn T wall as es s \<longleftrightarrow>
     db_holds api view disk txn (order_rows es (fst T), snd T @ exec_rows wall 0 as) s \<and> in_window s \<and>
     orders_written s = of_nat (length (filter is_request es)) \<and> execs_written s = of_nat (length as)"

lemma seq_log_prefix: "seq_log (es @ fs) \<Longrightarrow> seq_log es"
  by (simp add: seq_log_def sorted_wrt_append)

lemma engine_seen_handle:
  assumes "seq_log (es @ [ev])" and "engine_seen env0 e0 es e"
  shows "\<exists>e'. engine_apply env ev e = Some e' \<and> engine_seen env0 e0 (es @ [ev]) e'"
proof -
  from assms(2) obtain e1 where e1: "engine_inv 0 e0" "fills_ok e" "fold_opt (engine_apply env0) es e0 = Some e1" "same_core e1 e"
    by (auto simp: engine_seen_def)
  obtain e2 where e2: "fold_opt (engine_apply env0) (es @ [ev]) e0 = Some e2"
    using engine_total [OF e1(1) assms(1)] .
  then have "engine_apply env0 ev e1 = Some e2"
    using e1(3) by (simp add: fold_opt_append split: option.splits)
  from engine_apply_core [OF e1(4) this] obtain e' where e': "engine_apply env ev e = Some e'" "same_core e2 e'"
    by blast
  with e1(1) e2 engine_apply_fills [OF e1(2) e'(1)] show ?thesis
    by (auto simp: engine_seen_def)
qed

lemma db_has_handle:
  assumes "db_has (en_api en) view disk txn T wall as es s"
  shows "\<exists>s'. on_store en ev s = Some s' \<and> db_has (en_api en) view disk txn T wall as (es @ [ev]) s'"
proof (cases "is_request ev")
  case True
  from assms have "db_holds (en_api en) view disk txn (order_rows es (fst T), snd T @ exec_rows wall 0 as) s"
    by (simp add: db_has_def)
  from append_order_holds [OF this, of "en_db_clk en" ev] True assms show ?thesis
    by (auto simp: on_store_def db_event_def is_request_def [symmetric] no_throw_def db_has_def order_rows_def)
next
  case False
  with assms show ?thesis
    by (simp add: on_store_def db_event_def is_request_def [symmetric] no_throw_def db_has_def order_rows_def)
qed

lemma db_has_report:
  assumes "db_has (en_api en) view disk txn T (en_wall en) as es s"
  shows "\<exists>s'. on_report en ack s = Some s' \<and> db_has (en_api en) view disk txn T (en_wall en) (as @ [ack]) es s'"
proof -
  from assms have "db_holds (en_api en) view disk txn (order_rows es (fst T), snd T @ exec_rows (en_wall en) 0 as) s"
    by (simp add: db_has_def)
  from append_exec_holds [OF this, of "en_db_clk en" "en_wall en" ack] assms show ?thesis
    by (auto simp: on_report_def no_throw_def db_has_def exec_rows_append)
qed

interpretation er: ring_reader "engine_apply env" seq_log "engine_seen env0 e0" for env env0 e0
  by unfold_locales (use seq_log_prefix engine_seen_handle in blast)+

interpretation lr: ring_reader "on_log en" "\<lambda>_. True" "wal_log (en_fw en) (en_pad en) disk every" for en :: "'d surroundings" and disk every
  by unfold_locales (use wal_log_append in \<open>auto simp: on_log_def\<close>)

interpretation dr: ring_reader "on_store en" "\<lambda>_. True" "db_has (en_api en) view disk txn T wall as"
  for en :: "'d surroundings" and view disk txn T wall as
  by unfold_locales (simp, rule db_has_handle, assumption)

definition x_inv ::
  "'d surroundings \<Rightarrow> ('d \<Rightarrow> tables) \<Rightarrow> ('d \<Rightarrow> tables) \<Rightarrow> ('d \<Rightarrow> bool) \<Rightarrow> tables \<Rightarrow> u8 list \<Rightarrow> nat \<Rightarrow> drain \<Rightarrow> engine
     \<Rightarrow> SequencedEvent list \<Rightarrow> OutboundAck list \<Rightarrow> 'd exchange \<Rightarrow> bool" where
  "x_inv en view disk txn T wdisk every env0 e0 hist as x \<longleftrightarrow>
     (let b = seq_output (x_seq x)
      in seq_inv (x_seq x) (x_pushed x) hist \<and> consumer_count b = 3 \<and>
         engine_seen env0 e0 (take (reader_pos b 0) hist) (x_engine x) \<and>
         wal_log (en_fw en) (en_pad en) wdisk every (take (reader_pos b 1) hist) (x_wal x) \<and>
         db_has (en_api en) view disk txn T (en_wall en) as (take (reader_pos b 2) hist) (x_db x))"

lemma numbered_seq_log:
  assumes "numbered hist" and "length hist < 2 ^ 64"
  shows "seq_log hist"
proof -
  have "(of_nat i :: u64) < of_nat j" if "i < j" "j \<le> length hist" for i j :: nat
    using that assms(2) by (simp add: word_less_nat_alt unat_of_nat)
  then have "sorted_wrt (<) (map (of_nat :: nat \<Rightarrow> u64) [1..<Suc (length hist)])"
    unfolding sorted_wrt_map by (intro sorted_wrt_mono_rel [OF _ sorted_wrt_upt]) auto
  with assms(1) show ?thesis
    unfolding seq_log_def numbered_def by metis
qed

text \<open>A consumer's step moves its own cursor; the other readers and the sequencer do not notice.\<close>

lemma x_inv_reader:
  assumes "x_inv en view disk txn T wdisk every env0 e0 hist as x" and "bring_hist b hist"
    and "consumer_count b = consumer_count (seq_output (x_seq x))"
    and "engine_seen env0 e0 (take (reader_pos b 0) hist) e"
    and "wal_log (en_fw en) (en_pad en) wdisk every (take (reader_pos b 1) hist) w"
    and "db_has (en_api en) view disk txn T (en_wall en) as (take (reader_pos b 2) hist) d"
  shows "x_inv en view disk txn T wdisk every env0 e0 hist as (set_output b (x\<lparr>x_engine := e, x_wal := w, x_db := d\<rparr>))"
  using assms seq_inv_output [of "x_seq x" "x_pushed x" hist b] by (simp add: x_inv_def set_output_def Let_def)

fun x_act_ok :: "x_action \<Rightarrow> bool" where
  "x_act_ok (X_seq (Produce p ev)) \<longleftrightarrow> p < producer_count"
| "x_act_ok (X_seq (Read cid)) \<longleftrightarrow> False"
| "x_act_ok _ \<longleftrightarrow> True"

lemma x_inv_parts:
  assumes "x_inv en view disk txn T wdisk every env0 e0 hist as x"
  defines "b \<equiv> seq_output (x_seq x)"
  shows "seq_inv (x_seq x) (x_pushed x) hist" and "consumer_count b = 3" and "bring_hist b hist" and "seq_log hist"
    and "engine_seen env0 e0 (take (reader_pos b 0) hist) (x_engine x)"
    and "wal_log (en_fw en) (en_pad en) wdisk every (take (reader_pos b 1) hist) (x_wal x)"
    and "db_has (en_api en) view disk txn T (en_wall en) as (take (reader_pos b 2) hist) (x_db x)"
proof -
  show inv: "seq_inv (x_seq x) (x_pushed x) hist" and "consumer_count b = 3"
    and "engine_seen env0 e0 (take (reader_pos b 0) hist) (x_engine x)"
    and "wal_log (en_fw en) (en_pad en) wdisk every (take (reader_pos b 1) hist) (x_wal x)"
    and "db_has (en_api en) view disk txn T (en_wall en) as (take (reader_pos b 2) hist) (x_db x)"
    using assms(1) by (simp_all add: x_inv_def b_def Let_def)
  show h: "bring_hist b hist"
    using seq_inv_log(1) [OF inv] by (simp add: b_def)
  then have "length hist < 2 ^ 64"
    by (simp add: bring_hist_def)
  with seq_inv_log(2) [OF inv] show "seq_log hist"
    by (rule numbered_seq_log)
qed

lemma x_seq_step:
  assumes inv: "x_inv en view disk txn T wdisk every env0 e0 hist as x" and fits: "Suc (length hist) < 2 ^ 64"
    and ok: "x_act_ok (X_seq a)"
  shows "\<exists>x' es. x_act en (X_seq a) x = Some x' \<and> x_inv en view disk txn T wdisk every env0 e0 (hist @ es) as x' \<and> length es \<le> 1"
proof -
  note parts = x_inv_parts [OF inv]
  have keep: "x_inv en view disk txn T wdisk every env0 e0 (hist @ es) as (x\<lparr>x_seq := s, x_pushed := acc\<rparr>)"
    if "seq_inv s acc (hist @ es)" "reader_pos (seq_output s) = reader_pos (seq_output (x_seq x))"
      "consumer_count (seq_output s) = consumer_count (seq_output (x_seq x))" for s acc es
    using that parts bl.pos_le [OF parts(3)] by (simp add: x_inv_def)
  show ?thesis
  proof (cases a)
    case (Thread now)
    from seq_thread_inv [OF parts(1) fits, of now] obtain s es where
      "seq_thread now (x_seq x) = Some s" "seq_inv s (x_pushed x) (hist @ es)" "length es \<le> 1"
      "reader_pos (seq_output s) = reader_pos (seq_output (x_seq x))"
      "consumer_count (seq_output s) = consumer_count (seq_output (x_seq x))"
      by metis
    with keep Thread show ?thesis by fastforce
  next
    case (Read cid)
    with ok show ?thesis by simp
  next
    case (Produce p ev)
    have "act_ok (consumer_count (seq_output (x_seq x))) a"
      using ok Produce by simp
    from seq_act_inv [OF parts(1) fits this] obtain s acc es where
      s: "seq_act a (x_seq x, x_pushed x) = Some (s, acc)" "seq_inv s acc (hist @ es)" "length es \<le> 1"
      by metis
    moreover have "seq_output s = seq_output (x_seq x)"
      using s(1) by (auto simp: Produce split: option.splits)
    ultimately show ?thesis
      using keep [of s acc es] by auto
  next
    case Stop
    have "seq_inv (seq_stop (x_seq x)) (x_pushed x) (hist @ [])"
      using parts(1) by (simp add: seq_inv_def seq_stop_def)
    then show ?thesis
      using keep [of "seq_stop (x_seq x)" "x_pushed x" "[]"] Stop by (auto simp: seq_stop_def intro!: exI [of _ "[]"])
  qed
qed

text \<open>The three steps that take an event off the ring.\<close>

lemma x_match_step:
  assumes inv: "x_inv en view disk txn T wdisk every env0 e0 hist as x"
  shows "\<exists>x'. x_act en (X_match env) x = Some x' \<and> x_inv en view disk txn T wdisk every env0 e0 hist as x'"
proof -
  let ?b = "seq_output (x_seq x)"
  note parts = x_inv_parts [OF inv]
  have "0 < consumer_count ?b"
    using parts(2) by simp
  from er.one_seen [OF parts(3) this parts(4,5), of env] obtain b e where
    "consume_one (engine_apply env) 0 ?b (x_engine x) = Some (b, e)" "bring_hist b hist" "consumer_count b = consumer_count ?b"
    "engine_seen env0 e0 (take (reader_pos b 0) hist) e" "\<forall>i. i \<noteq> 0 \<longrightarrow> reader_pos b i = reader_pos ?b i"
    by blast
  with x_inv_reader [OF inv, of b e "x_wal x" "x_db x"] parts show ?thesis by simp
qed

lemma x_log_step:
  assumes inv: "x_inv en view disk txn T wdisk every env0 e0 hist as x"
  shows "\<exists>x'. x_act en X_log x = Some x' \<and> x_inv en view disk txn T wdisk every env0 e0 hist as x'"
proof -
  let ?b = "seq_output (x_seq x)"
  note parts = x_inv_parts [OF inv]
  have "1 < consumer_count ?b"
    using parts(2) by simp
  from lr.one_seen [OF parts(3) this TrueI parts(6)] obtain b w where
    "consume_one (on_log en) 1 ?b (x_wal x) = Some (b, w)" "bring_hist b hist" "consumer_count b = consumer_count ?b"
    "wal_log (en_fw en) (en_pad en) wdisk every (take (reader_pos b 1) hist) w" "\<forall>i. i \<noteq> 1 \<longrightarrow> reader_pos b i = reader_pos ?b i"
    by blast
  with x_inv_reader [OF inv, of b "x_engine x" w "x_db x"] parts show ?thesis by simp
qed

lemma x_store_step:
  assumes inv: "x_inv en view disk txn T wdisk every env0 e0 hist as x"
  shows "\<exists>x'. x_act en X_store x = Some x' \<and> x_inv en view disk txn T wdisk every env0 e0 hist as x'"
proof -
  let ?b = "seq_output (x_seq x)"
  note parts = x_inv_parts [OF inv]
  have "2 < consumer_count ?b"
    using parts(2) by simp
  from dr.one_seen [OF parts(3) this TrueI parts(7)] obtain b d where
    "consume_one (on_store en) 2 ?b (x_db x) = Some (b, d)" "bring_hist b hist" "consumer_count b = consumer_count ?b"
    "db_has (en_api en) view disk txn T (en_wall en) as (take (reader_pos b 2) hist) d" "\<forall>i. i \<noteq> 2 \<longrightarrow> reader_pos b i = reader_pos ?b i"
    by blast
  with x_inv_reader [OF inv, of b "x_engine x" "x_wal x" d] parts show ?thesis by simp
qed

lemma x_report_step:
  assumes inv: "x_inv en view disk txn T wdisk every env0 e0 hist as x"
  shows "\<exists>x' as'. x_act en X_report x = Some x' \<and> x_inv en view disk txn T wdisk every env0 e0 hist (as @ as') x' \<and> set as' \<subseteq> mirrored (x_engine x)"
proof (cases "\<exists>q ack q'. fills (x_engine x) = Some q \<and> spsc_pop q = Some (ack, q')")
  case False
  with inv show ?thesis by (auto split: option.splits intro!: exI [of _ "[]"])
next
  case True
  note parts = x_inv_parts [OF inv]
  from True obtain q ack q' where q: "fills (x_engine x) = Some q" "spsc_pop q = Some (ack, q')"
    by blast
  have "spsc_inv q"
    using parts(5) q(1) by (simp add: engine_seen_def fills_ok_def)
  from sq.pop_Some [OF this q(2)] have "spsc_inv q'" "ack \<in> mirrored (x_engine x)"
    using q(1) by (simp_all add: mirrored_def)
  moreover obtain d where "on_report en ack (x_db x) = Some d"
      "db_has (en_api en) view disk txn T (en_wall en) (as @ [ack]) (take (reader_pos (seq_output (x_seq x)) 2) hist) d"
    using db_has_report [OF parts(7)] by blast
  ultimately show ?thesis
    using inv q
    by (intro exI [of _ "x\<lparr>x_engine := (x_engine x)\<lparr>fills := Some q'\<rparr>, x_db := d\<rparr>"] exI [of _ "[ack]"])
      (auto simp: x_inv_def Let_def engine_seen_def same_core_def fills_ok_def)
qed

lemma x_flush_step:
  assumes inv: "x_inv en view disk txn T wdisk every env0 e0 hist as x"
  shows "\<exists>x'. x_act en (X_flush t) x = Some x' \<and> x_inv en view disk txn T wdisk every env0 e0 hist as x'"
proof -
  from x_inv_parts(7) [OF inv] have "db_holds (en_api en) view disk txn
      (order_rows (take (reader_pos (seq_output (x_seq x)) 2) hist) (fst T), snd T @ exec_rows (en_wall en) 0 as) (x_db x)"
    by (simp add: db_has_def)
  from maybe_flush_holds [OF this, of t] inv show ?thesis
    by (auto simp: x_inv_def Let_def no_throw_def db_has_def)
qed

lemma x_consumer_step:
  assumes inv: "x_inv en view disk txn T wdisk every env0 e0 hist as x" and "\<nexists>s. a = X_seq s"
  shows "\<exists>x' as'. x_act en a x = Some x' \<and> x_inv en view disk txn T wdisk every env0 e0 hist (as @ as') x' \<and> set as' \<subseteq> mirrored (x_engine x)"
proof (cases "a = X_report")
  case True
  with x_report_step [OF inv] show ?thesis by blast
next
  case False
  then have "\<exists>x'. x_act en a x = Some x' \<and> x_inv en view disk txn T wdisk every env0 e0 hist as x'"
  proof (cases a)
    case (X_sync t)
    with wal_log_fsync [OF x_inv_parts(6) [OF inv], of False t] inv show ?thesis
      by (auto simp: x_inv_def Let_def)
  next
    case X_ack
    with inv show ?thesis
      by (auto simp: x_inv_def Let_def engine_seen_def same_core_def split: option.splits)
  qed (use assms(2) x_match_step [OF inv] x_log_step [OF inv] x_store_step [OF inv] x_flush_step [OF inv] in blast)+
  then obtain x' where "x_act en a x = Some x'" "x_inv en view disk txn T wdisk every env0 e0 hist as x'"
    by blast
  then show ?thesis
    by (intro exI [of _ x'] exI [of _ "[]"]) simp
qed

lemma x_step:
  assumes "x_inv en view disk txn T wdisk every env0 e0 hist as x" and "Suc (length hist) < 2 ^ 64" and "x_act_ok a"
  shows "\<exists>x1 es as1. x_act en a x = Some x1 \<and> x_inv en view disk txn T wdisk every env0 e0 (hist @ es) as1 x1 \<and> length es \<le> 1 \<and>
    set as1 \<subseteq> set as \<union> mirrored (x_engine x)"
proof (cases "\<exists>s. a = X_seq s")
  case True
  then obtain s where "a = X_seq s" ..
  with x_seq_step [OF assms(1,2)] assms(3) show ?thesis by blast
next
  case False
  with x_consumer_step [OF assms(1)] obtain x' as' where
    "x_act en a x = Some x'" "x_inv en view disk txn T wdisk every env0 e0 hist (as @ as') x'" "set as' \<subseteq> mirrored (x_engine x)"
    by blast
  then show ?thesis
    by (intro exI [of _ x'] exI [of _ "[]"] exI [of _ "as @ as'"]) auto
qed

lemma x_acts_inv:
  assumes "x_inv en view disk txn T wdisk every env0 e0 hist as x" and "Suc (length hist + length acts) < 2 ^ 64"
    and "\<forall>a \<in> set acts. x_act_ok a"
  shows "\<exists>x' hist' as'. fold_opt (x_act en) acts x = Some x' \<and> x_inv en view disk txn T wdisk every env0 e0 hist' as' x'"
  using assms
proof (induction acts arbitrary: x hist as)
  case Nil
  then show ?case by auto
next
  case (Cons a acts)
  have "Suc (length hist) < 2 ^ 64" "x_act_ok a"
    using Cons.prems(2,3) by simp_all
  from x_step [OF Cons.prems(1) this] obtain x1 es as1 where
    1: "x_act en a x = Some x1" "x_inv en view disk txn T wdisk every env0 e0 (hist @ es) as1 x1" "length es \<le> 1"
    by blast
  from Cons.IH [OF 1(2)] Cons.prems(2,3) 1(1,3) show ?case by simp
qed

section \<open>Start-up\<close>

lemma exchange_init_ring:
  assumes "pow2 in_cap" and "pow2 out_cap" and "out_cap < 2 ^ 64" and "3 \<le> maxc"
    and x0: "x0 = exchange_init in_cap maxc out_cap ack_cap pool_cap dev dack w d"
  shows "seq_inv (seq_start (x_seq x0)) [] []" and "consumer_count (seq_output (x_seq x0)) = 3"
    and "i < 3 \<Longrightarrow> reader_pos (seq_output (x_seq x0)) i = 0" and "x_pushed x0 = []"
    and "x_engine x0 = engine_init pool_cap (spsc_init ack_cap dack) (Some (spsc_init ack_cap dack))" and "x_wal x0 = w" and "x_db x0 = d"
proof -
  let ?r = "\<lambda>b. snd (register_consumer b)" and ?b = "bring_init maxc out_cap dev"
  have out: "seq_output (x_seq x0) = ?r (?r (?r ?b))"
    by (simp add: x0 exchange_init_def Let_def sequencer_init_def split: prod.splits)
  have reg: "consumer_count (?r b) = Suc (consumer_count b)" "cursors (?r b) = cursors b" "cached_min (?r b) = cached_min b" for b :: "SequencedEvent bring"
    by (simp_all add: register_consumer_def)
  have init: "consumer_count ?b = 0" "cursors ?b = replicate maxc 0" "cached_min ?b = 0"
    by (simp_all add: bring_init_def)
  have "bring_hist (?r (?r (?r ?b))) []"
    using assms(4) by (intro bring_hist_register bring_hist_init assms(2,3)) (simp_all add: reg init)
  with seq_inv_init [OF assms(1-3), of maxc dev] show "seq_inv (seq_start (x_seq x0)) [] []"
    unfolding out [symmetric]
    by (simp add: x0 exchange_init_def Let_def seq_inv_def seq_start_def sequencer_init_def split: prod.splits)
  show "consumer_count (seq_output (x_seq x0)) = 3" "i < 3 \<Longrightarrow> reader_pos (seq_output (x_seq x0)) i = 0"
    using assms(4) by (simp_all add: out reader_pos_def reg init)
  show "x_pushed x0 = []" "x_wal x0 = w" "x_db x0 = d"
    "x_engine x0 = engine_init pool_cap (spsc_init ack_cap dack) (Some (spsc_init ack_cap dack))"
    by (simp_all add: x0 exchange_init_def Let_def split: prod.splits)
qed

lemma exchange_start_inv:
  assumes "pow2 in_cap" and "pow2 out_cap" and "out_cap < 2 ^ 64" and "3 \<le> maxc" and "pow2 ack_cap" and "pool_cap \<le> 2 ^ 31"
    and "sqlite_ok (en_api en) view disk txn" and "\<not> txn d" and "view d = disk d"
  shows "\<exists>x. exchange_start (en_api en) True wal_now db_now
      (exchange_init in_cap maxc out_cap ack_cap pool_cap dev dack (wal_init wdisk wn wiv) (db_init d dn iv)) = Inr x \<and>
    x_inv en view disk txn (disk d) wdisk wn env0 (engine_init pool_cap (spsc_init ack_cap dack) (Some (spsc_init ack_cap dack))) [] [] x"
proof -
  let ?w = "wal_init wdisk wn wiv" and ?d = "db_init d dn iv"
  let ?x = "exchange_init in_cap maxc out_cap ack_cap pool_cap dev dack ?w ?d"
  note init = exchange_init_ring [OF assms(1-4) refl, where ack_cap = ack_cap and pool_cap = pool_cap and dev = dev and dack = dack
      and w = ?w and d = ?d]
  obtain w where w: "wal_open True wal_now ?w = (True, w)" "wal_log (en_fw en) (en_pad en) wdisk wn [] w"
    using wal_log_opened [of "en_fw en" "en_pad en" wdisk wn wal_now wiv] by (auto simp: wal_open_def)
  from db_open_holds [OF assms(7-9), of db_now dn iv "en_wall en" "\<lambda>n. []" 0] obtain s where
    s: "db_open (en_api en) db_now ?d = Inr (True, s)" "db_log (en_api en) view disk txn (disk d) dn (en_wall en) (\<lambda>n. []) 0 0 [] s"
    by blast
  have "exchange_start (en_api en) True wal_now db_now ?x = Inr (?x\<lparr>x_wal := w, x_db := s, x_seq := seq_start (x_seq ?x)\<rparr>)"
    by (simp add: exchange_start_def init(6,7) w(1) s(1))
  moreover have "engine_seen env0 (engine_init pool_cap (spsc_init ack_cap dack) (Some (spsc_init ack_cap dack))) [] (x_engine ?x)"
    using engine_inv_init [OF assms(6)] spsc_init_inv [OF assms(5), of dack]
    by (simp add: init(5) engine_seen_def fills_ok_def same_core_def) (simp add: engine_init_def)
  moreover have "db_has (en_api en) view disk txn (disk d) (en_wall en) [] [] s"
    using s(2) by (simp add: db_log_def db_has_def)
  ultimately show ?thesis
    using init(1-4) w(2) by (simp add: x_inv_def Let_def) (simp add: seq_start_def)
qed

section \<open>Shutdown\<close>

lemma drain_fills_all:
  assumes "spsc_inv q" and "db_has (en_api en) view disk txn T (en_wall en) as es s"
  shows "\<exists>q' s' as'. drain_fills (on_report en) q s = Some (q', s') \<and> spsc_list q' = [] \<and> as' = as @ spsc_list q \<and>
    db_has (en_api en) view disk txn T (en_wall en) as' es s'"
  using assms
proof (induction "spsc_list q" arbitrary: q s as)
  case Nil
  then show ?case
    using sq.pop_None [of q] by (subst drain_fills.simps) auto
next
  case (Cons ack acks)
  from sq.pop_Cons [OF Cons.prems(1) Cons.hyps(2) [symmetric]] obtain q1 where
    q1: "spsc_pop q = Some (ack, q1)" "spsc_inv q1" "spsc_list q1 = acks"
    by blast
  from db_has_report [OF Cons.prems(2), of ack] obtain s1 where
    s1: "on_report en ack s = Some s1" "db_has (en_api en) view disk txn T (en_wall en) (as @ [ack]) es s1"
    by blast
  from Cons.hyps(1) [OF q1(3) [symmetric] q1(2) s1(2)] q1 s1(1) Cons.hyps(2) show ?case
    by (subst drain_fills.simps) auto
qed

lemma log_stops:
  assumes "bring_hist b hist" and "1 < consumer_count b"
    and "wal_log (en_fw en) (en_pad en) wdisk every (take (reader_pos b 1) hist) w"
  shows "\<exists>b' w' w''. consume_all try_consume 1 (on_log en) b w = Some (b', w') \<and> wal_close t w' = Some w'' \<and>
    bring_hist b' hist \<and> consumer_count b' = consumer_count b \<and> reader_pos b' = (reader_pos b)(1 := length hist) \<and>
    durable w'' = wdisk @ wal_bytes (en_fw en) (en_pad en) 0 hist \<and> written w'' = [] \<and> \<not> file_open w''"
proof -
  from lr.drain_seen [OF assms(1,2) TrueI assms(3)] obtain b' w' where
    1: "consume_all try_consume 1 (on_log en) b w = Some (b', w')" "bring_hist b' hist" "consumer_count b' = consumer_count b"
      "wal_log (en_fw en) (en_pad en) wdisk every hist w'" "reader_pos b' = (reader_pos b)(1 := length hist)"
    by blast
  from wal_log_fsync [OF 1(4), of True t] obtain w1 where
    w1: "maybe_fsync True t w' = Some w1" "wal_log (en_fw en) (en_pad en) wdisk every hist w1" "written w1 = []"
    by blast
  have "wal_close t w' = Some (w1\<lparr>file_open := False\<rparr>)"
    using w1(1) 1(4) by (simp add: wal_close_def wal_log_def)
  moreover have "durable w1 = wdisk @ wal_bytes (en_fw en) (en_pad en) 0 hist"
    using wal_log_bytes [OF w1(2)] w1(3) by simp
  ultimately show ?thesis
    using 1 w1(3) by auto
qed

lemma fills_drained:
  assumes "fills_ok e" and "db_has (en_api en) view disk txn T (en_wall en) as es d"
  obtains fq d' as' where
    "(case fills e of None \<Rightarrow> Some (None, d) | Some q \<Rightarrow> map_option (apfst Some) (drain_fills (on_report en) q d)) = Some (fq, d')"
    and "\<forall>q. fq = Some q \<longrightarrow> spsc_list q = []" and "db_has (en_api en) view disk txn T (en_wall en) as' es d'"
    and "set as' \<subseteq> set as \<union> mirrored e"
proof (cases "fills e")
  case None
  with assms(2) that [of None d as] show thesis by simp
next
  case (Some q)
  with assms(1) have "spsc_inv q"
    by (simp add: fills_ok_def)
  from drain_fills_all [OF this assms(2)] obtain q' d' where
    "drain_fills (on_report en) q d = Some (q', d')" "spsc_list q' = []" "db_has (en_api en) view disk txn T (en_wall en) (as @ spsc_list q) es d'"
    by blast
  with Some show thesis
    by (intro that [of "Some q'" d' "as @ spsc_list q"]) (simp_all add: mirrored_def)
qed

lemma db_stops:
  assumes "bring_hist b hist" and "2 < consumer_count b" and "fills_ok e"
    and "db_has (en_api en) view disk txn T (en_wall en) as (take (reader_pos b 2) hist) d"
  shows "\<exists>b' d' fq d'' as' d3. consume_all try_consume 2 (on_store en) b d = Some (b', d') \<and>
    (case fills e of None \<Rightarrow> Some (None, d') | Some q \<Rightarrow> map_option (apfst Some) (drain_fills (on_report en) q d')) = Some (fq, d'') \<and>
    no_throw (db_close (en_api en) t d'') = Some d3 \<and> bring_hist b' hist \<and> reader_pos b' = (reader_pos b)(2 := length hist) \<and>
    (\<forall>q. fq = Some q \<longrightarrow> spsc_list q = []) \<and>
    disk (db_conn d3) = (order_rows hist (fst T), snd T @ exec_rows (en_wall en) 0 as') \<and> \<not> db_opened d3 \<and> set as' \<subseteq> set as \<union> mirrored e"
proof -
  from dr.drain_seen [OF assms(1,2) TrueI assms(4)] obtain b' d' where
    1: "consume_all try_consume 2 (on_store en) b d = Some (b', d')" "bring_hist b' hist"
      "db_has (en_api en) view disk txn T (en_wall en) as hist d'" "reader_pos b' = (reader_pos b)(2 := length hist)"
    by blast
  from fills_drained [OF assms(3) 1(3)] obtain fq d'' as' where
    2: "(case fills e of None \<Rightarrow> Some (None, d') | Some q \<Rightarrow> map_option (apfst Some) (drain_fills (on_report en) q d')) = Some (fq, d'')"
      "\<forall>q. fq = Some q \<longrightarrow> spsc_list q = []" "db_has (en_api en) view disk txn T (en_wall en) as' hist d''"
      "set as' \<subseteq> set as \<union> mirrored e"
    by blast
  from 2(3) have "db_holds (en_api en) view disk txn (order_rows hist (fst T), snd T @ exec_rows (en_wall en) 0 as') d''"
    by (simp add: db_has_def)
  from db_close_holds [OF this, of t] obtain d3 where
    "no_throw (db_close (en_api en) t d'') = Some d3" "\<not> db_opened d3"
    "disk (db_conn d3) = (order_rows hist (fst T), snd T @ exec_rows (en_wall en) 0 as')"
    by (auto simp: no_throw_def)
  with 1 2(1,2,4) show ?thesis by metis
qed

lemma exchange_shutdown_inv:
  assumes "x_inv en view disk txn T wdisk every env0 e0 hist as x"
  shows "\<exists>x' as'. exchange_shutdown en env wal_t db_t x = Some x' \<and> bring_hist (seq_output (x_seq x')) hist \<and>
    (\<forall>i < 3. reader_pos (seq_output (x_seq x')) i = length hist) \<and>
    inputs (x_seq x') = inputs (x_seq x) \<and> x_pushed x' = x_pushed x \<and>
    (\<exists>e. fold_opt (engine_apply env0) hist e0 = Some e \<and> same_core e (x_engine x')) \<and>
    (\<forall>q. fills (x_engine x') = Some q \<longrightarrow> spsc_list q = []) \<and>
    durable (x_wal x') = wdisk @ wal_bytes (en_fw en) (en_pad en) 0 hist \<and> written (x_wal x') = [] \<and> \<not> file_open (x_wal x') \<and>
    disk (db_conn (x_db x')) = (order_rows hist (fst T), snd T @ exec_rows (en_wall en) 0 as') \<and> \<not> db_opened (x_db x') \<and>
    (\<exists>b e. consume_all try_consume 0 (engine_apply env) (seq_output (x_seq x)) (x_engine x) = Some (b, e) \<and> set as' \<subseteq> set as \<union> mirrored e)"
proof -
  let ?b = "seq_output (x_seq x)"
  note parts = x_inv_parts [OF assms]
  have "0 < consumer_count ?b"
    using parts(2) by simp
  from er.drain_seen [OF parts(3) this parts(4,5), of env] obtain b1 e where
    1: "consume_all try_consume 0 (engine_apply env) ?b (x_engine x) = Some (b1, e)" "bring_hist b1 hist"
      "consumer_count b1 = consumer_count ?b" "engine_seen env0 e0 hist e" "reader_pos b1 = (reader_pos ?b)(0 := length hist)"
    by blast
  have "1 < consumer_count b1" "wal_log (en_fw en) (en_pad en) wdisk every (take (reader_pos b1 1) hist) (x_wal x)"
    using parts(2,6) 1(3,5) by simp_all
  from log_stops [OF 1(2) this, of wal_t] obtain b2 w w' where
    2: "consume_all try_consume 1 (on_log en) b1 (x_wal x) = Some (b2, w)" "wal_close wal_t w = Some w'" "bring_hist b2 hist"
      "consumer_count b2 = consumer_count b1" "reader_pos b2 = (reader_pos b1)(1 := length hist)"
      "durable w' = wdisk @ wal_bytes (en_fw en) (en_pad en) 0 hist" "written w' = []" "\<not> file_open w'"
    by blast
  have "2 < consumer_count b2" "fills_ok e"
    "db_has (en_api en) view disk txn T (en_wall en) as (take (reader_pos b2 2) hist) (x_db x)"
    using parts(2,7) 1(3-5) 2(4,5) by (simp_all add: engine_seen_def)
  from db_stops [OF 2(3) this, of db_t] obtain b3 d fq d' as' d'' where
    3: "consume_all try_consume 2 (on_store en) b2 (x_db x) = Some (b3, d)"
      "(case fills e of None \<Rightarrow> Some (None, d) | Some q \<Rightarrow> map_option (apfst Some) (drain_fills (on_report en) q d)) = Some (fq, d')"
      "no_throw (db_close (en_api en) db_t d') = Some d''" "bring_hist b3 hist" "reader_pos b3 = (reader_pos b2)(2 := length hist)"
      "\<forall>q. fq = Some q \<longrightarrow> spsc_list q = []"
      "disk (db_conn d'') = (order_rows hist (fst T), snd T @ exec_rows (en_wall en) 0 as')" "\<not> db_opened d''" "set as' \<subseteq> set as \<union> mirrored e"
    by blast
  let ?x = "x\<lparr>x_seq := (x_seq x)\<lparr>seq_output := b3\<rparr>, x_engine := e\<lparr>fills := fq\<rparr>, x_wal := w', x_db := d''\<rparr>"
  have "exchange_shutdown en env wal_t db_t x = Some ?x"
    by (simp add: exchange_shutdown_def 1(1) 2(1,2) 3(1-3) del: One_nat_def)
  moreover have "\<forall>i < 3. reader_pos b3 i = length hist"
    by (auto simp: 3(5) 2(5) 1(5))
  moreover have "\<exists>f. fold_opt (engine_apply env0) hist e0 = Some f \<and> same_core f (e\<lparr>fills := fq\<rparr>)"
    using 1(4) by (auto simp: engine_seen_def same_core_def)
  ultimately show ?thesis
    using 1(1) 2(6-8) 3(4,6-9) by (intro exI [of _ ?x] exI [of _ as']) simp
qed

section \<open>A small exchange\<close>

definition demo_surroundings :: "(tables \<times> tables \<times> bool) surroundings" where
  "demo_surroundings = \<lparr>en_api = lite, en_fw = (\<lambda>n. 56), en_pad = (\<lambda>n. replicate 9 0), en_wal_clk = (\<lambda>n. (0, 0)),
     en_db_clk = (\<lambda>n. (0, 0)), en_wall = (\<lambda>n. n)\<rparr>"

definition demo_ack :: OutboundAck where
  "demo_ack = \<lparr>ack_session_id = 0, ack_client_order_id = 0, ack_exchange_order_id = 0, ack_status = Accepted, ack_fill_price = 0,
     ack_fill_quantity = 0, ack_leaves_quantity = 0\<rparr>"

definition demo_exchange :: "(tables \<times> tables \<times> bool) exchange" where
  "demo_exchange = exchange_init 4 8 4 4 16 idle_event demo_ack (wal_init [] 256 50) (db_init (([], []), ([], []), False) 256 50)"

lemma exchange_start_seq: "exchange_start api c t u x = Inr x0 \<Longrightarrow> x_seq x0 = seq_start (x_seq x) \<and> x_pushed x0 = x_pushed x \<and> x_engine x0 = x_engine x"
  by (auto simp: exchange_start_def split: prod.splits bool.splits sum.splits)

lemma x_act_seq:
  "fold_opt (x_act en) (map X_seq sacts) x =
    map_option (\<lambda>(s, acc). x\<lparr>x_seq := s, x_pushed := acc\<rparr>) (fold_opt seq_act sacts (x_seq x, x_pushed x))"
  by (induction sacts arbitrary: x) (auto split: option.splits)

end
