(* ===== verification/Session_State.thy ===== *)
theory Session_State
  imports Wire_Protocol
begin

text \<open>
  The session protocol of \<^verbatim>\<open>include/session_state.hpp\<close>: logon, sequence-gap detection,
  heartbeats and liveness of one gateway connection. Time is in nanoseconds; the value
  \<open>now\<close> that each operation reads from \<^verbatim>\<open>steady_clock\<close> is an argument. The theory shows
  that a session logs on at most once and that the reported gaps are exactly the
  sequence numbers that never arrived.
\<close>

section \<open>The session\<close>

datatype SessionStatus = AwaitingLogon | LoggedOn | LoggedOut | Disconnected

record SessionState =
  status :: SessionStatus
  sess_client_id :: u64
  heartbeat_interval :: int       \<comment> \<open>nanoseconds\<close>
  expected_peer_seq :: u32
  outbound_seq :: u32
  last_peer_activity :: int
  last_outbound_activity :: int

definition session_init :: SessionState where
  "session_init = \<lparr>status = AwaitingLogon, sess_client_id = 0, heartbeat_interval = 1000 * 1000000,
     expected_peer_seq = 0, outbound_seq = 0, last_peer_activity = 0, last_outbound_activity = 0\<rparr>"

definition handle_logon :: "int \<Rightarrow> u64 \<Rightarrow> u32 \<Rightarrow> u32 \<Rightarrow> SessionState \<Rightarrow> bool \<times> SessionState" where
  "handle_logon now cid interval_ms peer_starting_seq s =
     (if status s \<noteq> AwaitingLogon then (False, s)
      else (True, s\<lparr>sess_client_id := cid, heartbeat_interval := uint interval_ms * 1000000,
              expected_peer_seq := peer_starting_seq + 1, last_peer_activity := now, status := LoggedOn\<rparr>))"

definition track_inbound_seq :: "int \<Rightarrow> u32 \<Rightarrow> SessionState \<Rightarrow> (u32 \<times> u32) option \<times> SessionState" where
  "track_inbound_seq now seq s =
     (let s1 = s\<lparr>last_peer_activity := now\<rparr>
      in if seq = expected_peer_seq s1 then (None, s1\<lparr>expected_peer_seq := expected_peer_seq s1 + 1\<rparr>)
         else if expected_peer_seq s1 < seq
         then (Some (expected_peer_seq s1, seq - 1), s1\<lparr>expected_peer_seq := seq + 1\<rparr>)
         else (None, s1))"

definition next_outbound_seq :: "SessionState \<Rightarrow> u32 \<times> SessionState" where
  "next_outbound_seq s = (outbound_seq s, s\<lparr>outbound_seq := outbound_seq s + 1\<rparr>)"

definition should_send_heartbeat :: "int \<Rightarrow> SessionState \<Rightarrow> bool" where
  "should_send_heartbeat now s \<longleftrightarrow> heartbeat_interval s \<le> now - last_outbound_activity s"

definition is_peer_dead :: "int \<Rightarrow> int \<Rightarrow> SessionState \<Rightarrow> bool" where
  "is_peer_dead missed_intervals_allowed now s \<longleftrightarrow>
     heartbeat_interval s * missed_intervals_allowed < now - last_peer_activity s"

definition mark_outbound_activity :: "int \<Rightarrow> SessionState \<Rightarrow> SessionState" where
  "mark_outbound_activity now s = s\<lparr>last_outbound_activity := now\<rparr>"

definition logout :: "SessionState \<Rightarrow> SessionState" where
  "logout s = s\<lparr>status := LoggedOut\<rparr>"

definition disconnect :: "SessionState \<Rightarrow> SessionState" where
  "disconnect s = s\<lparr>status := Disconnected\<rparr>"

section \<open>The life of a session\<close>

text \<open>The calls the gateway makes on a session, in any order and at any time.\<close>

datatype session_call = Call_logon u64 u32 u32 | Call_seq u32 | Call_out | Call_mark | Call_logout | Call_disconnect

fun session_step :: "session_call \<times> int \<Rightarrow> SessionState \<Rightarrow> SessionState" where
  "session_step (Call_logon c h p, now) s = snd (handle_logon now c h p s)"
| "session_step (Call_seq q, now) s = snd (track_inbound_seq now q s)"
| "session_step (Call_out, now) s = snd (next_outbound_seq s)"
| "session_step (Call_mark, now) s = mark_outbound_activity now s"
| "session_step (Call_logout, now) s = logout s"
| "session_step (Call_disconnect, now) s = disconnect s"

lemma status_other [simp]:
  "status (snd (track_inbound_seq now q s)) = status s" "status (snd (next_outbound_seq s)) = status s"
  "status (mark_outbound_activity now s) = status s"
  by (simp_all add: track_inbound_seq_def next_outbound_seq_def mark_outbound_activity_def Let_def)

lemma session_step_left:
  assumes "status s \<noteq> AwaitingLogon"
  shows "status (session_step c s) \<noteq> AwaitingLogon"
  using assms by (cases "(c, s)" rule: session_step.cases) (auto simp: handle_logon_def logout_def disconnect_def)

lemma session_run_left:
  "status s \<noteq> AwaitingLogon \<Longrightarrow> status (fold session_step cs s) \<noteq> AwaitingLogon"
  by (induction cs arbitrary: s) (simp_all add: session_step_left)

text \<open>
  A session logs on at most once: after the first accepted logon, after a logout or
  after a disconnect, no later sequence of calls makes another logon succeed.
\<close>
lemma session_logs_on_once:
  assumes "fst (handle_logon now c h p s) \<or> status s = LoggedOut \<or> status s = Disconnected"
  shows "\<not> fst (handle_logon now' c' h' p' (fold session_step calls (snd (handle_logon now c h p s))))"
proof -
  have "status (snd (handle_logon now c h p s)) \<noteq> AwaitingLogon"
    using assms by (auto simp: handle_logon_def split: if_splits)
  then show ?thesis
    using session_run_left by (simp add: handle_logon_def)
qed

section \<open>Gap detection\<close>

text \<open>The gaps reported while the messages with the given sequence numbers arrive.\<close>

fun track_all :: "(u32 \<times> int) list \<Rightarrow> SessionState \<Rightarrow> (u32 \<times> u32) list \<times> SessionState" where
  "track_all [] s = ([], s)"
| "track_all ((q, now) # qs) s =
     (let (gap, s1) = track_inbound_seq now q s; (gaps, s2) = track_all qs s1
      in (case gap of None \<Rightarrow> gaps | Some g \<Rightarrow> g # gaps, s2))"

definition gap_set :: "(u32 \<times> u32) list \<Rightarrow> nat set" where
  "gap_set gaps = (\<Union>(lo, hi) \<in> set gaps. {unat lo..unat hi})"

lemma gap_set_simps [simp]: "gap_set [] = {}" "gap_set ((lo, hi) # gaps) = {unat lo..unat hi} \<union> gap_set gaps"
  by (auto simp: gap_set_def)

lemma gap_below:
  fixes e q :: u32
  assumes "e < q"
  shows "{unat e..unat (q - 1)} = {unat e..<unat q}"
proof -
  have "unat (q - 1) = unat q - 1"
    using assms by (subst unat_sub) (auto simp: word_le_nat_alt word_less_nat_alt)
  then show ?thesis
    using assms by (auto simp: word_less_nat_alt)
qed

lemma track_all_gaps:
  assumes "sorted_wrt (<) (map fst qs)" and "\<forall>(q, now) \<in> set qs. expected_peer_seq s \<le> q \<and> q \<noteq> - 1"
  shows "gap_set (fst (track_all qs s)) = {unat (expected_peer_seq s)..<unat (expected_peer_seq (snd (track_all qs s)))} -
      (unat ` fst ` set qs) \<and>
    unat ` fst ` set qs \<subseteq> {unat (expected_peer_seq s)..<unat (expected_peer_seq (snd (track_all qs s)))} \<and>
    expected_peer_seq s \<le> expected_peer_seq (snd (track_all qs s))"
  using assms
proof (induction qs arbitrary: s)
  case Nil
  then show ?case by simp
next
  case (Cons qn qs)
  obtain q now where qn: "qn = (q, now)" by (cases qn)
  define s1 where "s1 = snd (track_inbound_seq now q s)"
  have le: "expected_peer_seq s \<le> q" and max: "q \<noteq> - 1"
    using Cons.prems(2) by (auto simp: qn)
  have s1: "expected_peer_seq s1 = q + 1"
    using le by (auto simp: s1_def track_inbound_seq_def Let_def)
  have "1 + q \<noteq> 0"
    using max by (metis add.commute add_eq_0_iff2)
  then have suc: "unat (q + 1) = Suc (unat q)"
    using unatSuc [of q] by (simp add: add.commute)
  have later: "q < q'" if "(q', t) \<in> set qs" for q' t
    using Cons.prems(1) that by (force simp: qn)
  have "\<forall>(q', t) \<in> set qs. expected_peer_seq s1 \<le> q' \<and> q' \<noteq> - 1"
    using later Cons.prems(2) suc by (fastforce simp: s1 word_le_nat_alt word_less_nat_alt)
  note IH = Cons.IH [OF _ this, unfolded s1 suc]
  define e where "e = unat (expected_peer_seq (snd (track_all qs s1)))"
  define Q where "Q = unat ` fst ` set qs"
  have tail: "gap_set (fst (track_all qs s1)) = {Suc (unat q)..<e} - Q" "Q \<subseteq> {Suc (unat q)..<e}" "Suc (unat q) \<le> e"
    using IH Cons.prems(1) by (simp_all add: e_def Q_def qn word_le_nat_alt suc)
  have head: "gap_set (fst (track_all (qn # qs) s)) =
      {unat (expected_peer_seq s)..<unat q} \<union> gap_set (fst (track_all qs s1))"
    using le by (simp add: qn s1_def track_inbound_seq_def Let_def split_beta gap_below)
  have "snd (track_all (qn # qs) s) = snd (track_all qs s1)"
    by (simp add: qn s1_def split_beta Let_def)
  moreover have "unat (expected_peer_seq s) \<le> unat q"
    using le by (simp add: word_le_nat_alt)
  ultimately show ?case
    using tail unfolding head by (auto simp: qn word_le_nat_alt simp flip: e_def Q_def)
qed

lemma track_all_append:
  "snd (track_all (qs @ rs) s) = snd (track_all rs (snd (track_all qs s)))"
  by (induction qs arbitrary: s) (auto simp: split_beta Let_def)

lemma track_all_below:
  assumes "expected_peer_seq s \<le> b" and "\<forall>(q, t) \<in> set qs. q < b"
  shows "expected_peer_seq (snd (track_all qs s)) \<le> b"
  using assms
proof (induction qs arbitrary: s)
  case (Cons qn qs)
  obtain q now where qn: "qn = (q, now)" by (cases qn)
  define s1 where "s1 = snd (track_inbound_seq now q s)"
  have "q + 1 \<le> b"
    using Cons.prems(2) by (auto simp: qn intro: inc_le)
  then have "expected_peer_seq s1 \<le> b"
    using Cons.prems(1) by (auto simp: s1_def track_inbound_seq_def Let_def)
  then show ?case
    using Cons.IH Cons.prems(2) by (simp add: qn split_beta Let_def s1_def)
qed simp

text \<open>
  (C31) Gap detection is exact. While messages with increasing sequence numbers arrive on a
  session, the ranges reported as gaps together are precisely the numbers from the first
  expected one up to the last one received that were never received, and the session then
  expects the successor of the last one.
\<close>
theorem gaps_are_the_missing_numbers:
  assumes "sorted_wrt (<) (map fst (qs @ [(lst, now)]))"
    and "\<forall>(q, t) \<in> set (qs @ [(lst, now)]). expected_peer_seq s \<le> q" and "lst \<noteq> - 1"
  shows "gap_set (fst (track_all (qs @ [(lst, now)]) s)) =
      {unat (expected_peer_seq s)..unat lst} - unat ` fst ` set (qs @ [(lst, now)]) \<and>
    expected_peer_seq (snd (track_all (qs @ [(lst, now)]) s)) = lst + 1"
proof -
  have below: "q < lst" if "(q, t) \<in> set qs" for q t
    using assms(1) that by (force simp: sorted_wrt_append)
  then have "expected_peer_seq (snd (track_all qs s)) \<le> lst"
    using assms(2) by (intro track_all_below) auto
  then have last: "expected_peer_seq (snd (track_all (qs @ [(lst, now)]) s)) = lst + 1"
    by (auto simp: track_all_append track_inbound_seq_def Let_def)
  have "1 + lst \<noteq> 0"
    using assms(3) by (metis add.commute add_eq_0_iff2)
  then have suc: "unat (lst + 1) = Suc (unat lst)"
    using unatSuc [of lst] by (simp add: add.commute)
  have "\<forall>(q, t) \<in> set (qs @ [(lst, now)]). expected_peer_seq s \<le> q \<and> q \<noteq> - 1"
    using assms(2,3) below by (force simp: word_order.extremum_strict)
  from track_all_gaps [OF assms(1) this] show ?thesis
    using last suc by (simp add: atLeastLessThanSuc_atLeastAtMost)
qed

theorem gaps_are_the_missing_numbers_witness:
  "gap_set (fst (track_all ([(3, 10), (4, 11)] @ [(9, 12)]) session_init)) =
      {unat (expected_peer_seq session_init)..unat (9 :: u32)} - unat ` fst ` set ([(3, 10), (4, 11)] @ [(9 :: u32, 12 :: int)])"
  by (rule gaps_are_the_missing_numbers [THEN conjunct1]) (simp_all add: session_init_def)

end
