(* ===== verification/Frame_Reader.thy ===== *)
theory Frame_Reader
  imports Wire_Protocol
begin

text \<open>
  The stream reassembly of \<^verbatim>\<open>include/frame_reader.hpp\<close>: a buffer that is fed with chunks of
  the TCP stream and gives back complete frames (header and body).
\<close>

section \<open>The reader\<close>

record frame_reader =
  fr_buffer :: "u8 list"

definition feed :: "u8 list \<Rightarrow> frame_reader \<Rightarrow> frame_reader" where
  "feed data r = r\<lparr>fr_buffer := fr_buffer r @ data\<rparr>"

definition next_frame :: "frame_reader \<Rightarrow> (u8 list \<times> frame_reader) option" where
  "next_frame r =
     (if length (fr_buffer r) < sizeof_MsgHeader then None
      else let header = decode_MsgHeader (fr_buffer r);
               total_len = sizeof_MsgHeader + unat (body_length header)
           in if length (fr_buffer r) < total_len then None
              else Some (take total_len (fr_buffer r), r\<lparr>fr_buffer := drop total_len (fr_buffer r)\<rparr>))"

text \<open>Calling \<^verbatim>\<open>next_frame\<close> until it returns nothing, as its callers do.\<close>

lemma next_frame_shrinks: "next_frame r = Some (f, r') \<Longrightarrow> length (fr_buffer r') < length (fr_buffer r)"
  by (auto simp: next_frame_def sizeof_MsgHeader_def Let_def split: if_splits)

function drain_frames :: "frame_reader \<Rightarrow> u8 list list \<times> frame_reader" where
  "drain_frames r =
     (case next_frame r of
        None \<Rightarrow> ([], r)
      | Some (f, r') \<Rightarrow> let (fs, r'') = drain_frames r' in (f # fs, r''))"
  by pat_completeness auto
termination by (relation "measure (\<lambda>r. length (fr_buffer r))") (auto dest: next_frame_shrinks)

declare drain_frames.simps [simp del]

text \<open>Feeding the chunks one after the other and draining after each.\<close>

fun read_chunks :: "u8 list list \<Rightarrow> frame_reader \<Rightarrow> u8 list list \<times> frame_reader" where
  "read_chunks [] r = ([], r)"
| "read_chunks (c # cs) r =
     (let (fs, r') = drain_frames (feed c r); (gs, r'') = read_chunks cs r' in (fs @ gs, r''))"

section \<open>Chunking does not matter\<close>

lemma decode_header_prefix:
  "sizeof_MsgHeader \<le> length xs \<Longrightarrow> decode_MsgHeader (xs @ ys) = decode_MsgHeader xs"
  by (simp add: decode_MsgHeader_def field_def sizeof_MsgHeader_def nth_append)

lemma next_frame_more:
  assumes "next_frame r = Some (f, r')"
  shows "next_frame (feed ys r) = Some (f, feed ys r')"
  using assms by (auto simp: next_frame_def feed_def Let_def decode_header_prefix split: if_splits)

lemma drain_frames_feed:
  "drain_frames (feed ys r) =
     (let (fs, r') = drain_frames r; (gs, r'') = drain_frames (feed ys r') in (fs @ gs, r''))"
proof (induction r rule: drain_frames.induct)
  case (1 r)
  show ?case
  proof (cases "next_frame r")
    case None
    then show ?thesis by (subst (2) drain_frames.simps) (simp add: Let_def)
  next
    case (Some fr)
    obtain f r1 where fr: "fr = (f, r1)" by (cases fr)
    have IH: "drain_frames (feed ys r1) =
        (let (fs, r') = drain_frames r1; (gs, r'') = drain_frames (feed ys r') in (fs @ gs, r''))"
      using 1 Some fr by simp
    have "drain_frames (feed ys r) = (let (fs, r'') = drain_frames (feed ys r1) in (f # fs, r''))"
      using next_frame_more [of r f r1 ys] Some fr by (subst drain_frames.simps) simp
    moreover have "drain_frames r = (let (fs, r'') = drain_frames r1 in (f # fs, r''))"
      using Some fr by (subst drain_frames.simps) simp
    ultimately show ?thesis
      by (simp add: IH Let_def split_beta)
  qed
qed

lemma drain_drained: "drain_frames r = (fs, r') \<Longrightarrow> next_frame r' = None"
proof (induction r arbitrary: fs rule: drain_frames.induct)
  case (1 r)
  then show ?case
    by (subst (asm) (2) drain_frames.simps) (auto split: option.splits prod.splits)
qed

lemma feed_Nil [simp]: "feed [] r = r"
  by (simp add: feed_def)

lemma feed_feed [simp]: "feed ys (feed xs r) = feed (xs @ ys) r"
  by (simp add: feed_def)

text \<open>A frame as a peer sends it: the header counts the bytes of the body.\<close>

definition frame_ok :: "u8 list \<Rightarrow> bool" where
  "frame_ok f \<longleftrightarrow> sizeof_MsgHeader \<le> length f \<and>
     length f = sizeof_MsgHeader + unat (body_length (decode_MsgHeader f))"

lemma next_frame_ok:
  assumes "frame_ok f"
  shows "next_frame \<lparr>fr_buffer = f @ left\<rparr> = Some (f, \<lparr>fr_buffer = left\<rparr>)"
proof -
  have dec: "decode_MsgHeader (f @ left) = decode_MsgHeader f"
    using assms by (intro decode_header_prefix) (simp add: frame_ok_def)
  have "sizeof_MsgHeader + unat (body_length (decode_MsgHeader (f @ left))) = length f"
    using assms unfolding dec frame_ok_def by simp
  then show ?thesis
    by (simp add: next_frame_def Let_def)
qed

lemma drain_frames_ok:
  assumes "\<forall>f \<in> set fs. frame_ok f" and "next_frame \<lparr>fr_buffer = left\<rparr> = None"
  shows "drain_frames \<lparr>fr_buffer = concat fs @ left\<rparr> = (fs, \<lparr>fr_buffer = left\<rparr>)"
  using assms(1)
proof (induction fs)
  case Nil
  with assms(2) show ?case by (subst drain_frames.simps) simp
next
  case (Cons f fs)
  then show ?case
    using next_frame_ok [of f "concat fs @ left"] by (subst drain_frames.simps) simp
qed

lemma read_chunks_concat:
  "read_chunks cs r = (if cs = [] then ([], r) else drain_frames (feed (concat cs) r))"
proof (induction cs arbitrary: r)
  case Nil
  then show ?case by simp
next
  case (Cons c cs)
  then show ?case
    using drain_frames_feed [of "concat cs" "feed c r"] by (cases "cs = []") (simp_all add: split_beta Let_def)
qed

text \<open>
  Reassembly is independent of the chunking: two ways to cut the same stream into
  chunks yield the same frames and leave the same bytes buffered.
\<close>
lemma frames_independent_of_chunks:
  assumes "concat cs = concat ds" and "cs \<noteq> []" and "ds \<noteq> []"
  shows "read_chunks cs r = read_chunks ds r"
  using assms by (simp add: read_chunks_concat)

text \<open>
  (C32) No frame is lost, split or merged: whatever the chunks, if the stream is a sequence of
  well-formed frames followed by an incomplete one, the reader yields exactly these
  frames in order and keeps the incomplete rest.
\<close>
theorem frames_recovered:
  assumes "concat cs = concat fs @ left" and "\<forall>f \<in> set fs. frame_ok f" and "next_frame \<lparr>fr_buffer = left\<rparr> = None"
    and "cs \<noteq> []"
  shows "read_chunks cs \<lparr>fr_buffer = []\<rparr> = (fs, \<lparr>fr_buffer = left\<rparr>)"
proof -
  have "feed (concat cs) \<lparr>fr_buffer = []\<rparr> = \<lparr>fr_buffer = concat fs @ left\<rparr>"
    by (simp add: feed_def assms(1))
  then show ?thesis
    using drain_frames_ok [OF assms(2,3)] assms(4) by (simp add: read_chunks_concat)
qed

theorem frames_recovered_witness:
  "read_chunks [[1, 0, 3, 9], [0, 0, 0, 42, 0]] \<lparr>fr_buffer = []\<rparr> = ([[1, 0, 3, 9, 0, 0, 0, 42]], \<lparr>fr_buffer = [0]\<rparr>)"
  by (rule frames_recovered) (simp_all, code_simp+)

section \<open>The buffer is bounded\<close>

lemma next_frame_None_bound: "next_frame r = None \<Longrightarrow> length (fr_buffer r) < sizeof_MsgHeader + 2 ^ 16"
proof -
  assume "next_frame r = None"
  moreover have "unat (body_length (decode_MsgHeader (fr_buffer r))) < 2 ^ 16"
    by (rule order_less_le_trans [OF unsigned_less]) simp
  ultimately show ?thesis
    by (auto simp: next_frame_def Let_def split: if_splits)
qed

text \<open>
  Between two reads a connection buffers less than one header and one maximal body,
  however the peer cuts or crafts the stream.
\<close>
lemma frame_buffer_bounded:
  assumes "cs \<noteq> []"
  shows "length (fr_buffer (snd (read_chunks cs r))) < 7 + 65536"
proof -
  have "next_frame (snd (drain_frames r')) = None" for r'
    by (rule drain_drained) (rule surjective_pairing)
  then show ?thesis
    using assms next_frame_None_bound by (simp add: read_chunks_concat sizeof_MsgHeader_def)
qed

end
