(* ===== verification/Gateway_Server.thy ===== *)
theory Gateway_Server
  imports Session_State Frame_Reader Spsc_Ring
begin

text \<open>
  The TCP gateway of \<^verbatim>\<open>include/gateway_server.hpp\<close>: connections, their frame readers and sessions,
  the dispatch of messages to the sequencer's queue, heartbeats and the routing of
  acknowledgements. The kernel is the environment: \<open>net k fd n\<close> is what the \<open>k\<close>-th call of \<^verbatim>\<open>send\<close>
  returns for \<open>n\<close> bytes on \<open>fd\<close>, the results of \<^verbatim>\<open>recv\<close> and \<^verbatim>\<open>kevent\<close> are lists, and \<open>now\<close> is the clock
  read by a handler. \<open>wire\<close> records the bytes handed to the kernel. Using a connection
  after it was erased, or a read beyond the end of a frame, is \<^const>\<open>None\<close>.
\<close>

section \<open>State\<close>

record ConnectionState =
  reader :: frame_reader
  session :: SessionState

record gateway =
  listen_fd :: int
  connections :: "(int, ConnectionState) umap"
  sequencer_input :: "SequencedEvent spsc"
  ack_queue :: "OutboundAck spsc"
  wire :: "(int \<times> u8 list) list"
  send_calls :: nat

type_synonym net = "nat \<Rightarrow> int \<Rightarrow> nat \<Rightarrow> int"

definition risk_check :: "int \<Rightarrow> NewOrderMsg \<Rightarrow> bool" where
  "risk_check fd order = True"

definition connection_init :: ConnectionState where
  "connection_init = \<lparr>reader = \<lparr>fr_buffer = []\<rparr>, session = session_init\<rparr>"

text \<open>The queues are given to the constructor; \<^verbatim>\<open>kq_\<close> is not looked at again and left out.\<close>

definition server_init :: "SequencedEvent spsc \<Rightarrow> OutboundAck spsc \<Rightarrow> gateway" where
  "server_init inq aq = \<lparr>listen_fd = - 1, connections = [], sequencer_input = inq, ack_queue = aq, wire = [], send_calls = 0\<rparr>"

text \<open>\<^verbatim>\<open>start\<close>, with what \<^verbatim>\<open>socket\<close>, \<^verbatim>\<open>bind\<close>, \<^verbatim>\<open>listen\<close> and \<^verbatim>\<open>kqueue\<close> return.\<close>

definition server_start :: "int \<Rightarrow> int \<Rightarrow> int \<Rightarrow> int \<Rightarrow> gateway \<Rightarrow> bool \<times> gateway" where
  "server_start sock bound listening kq g =
     (let g' = g\<lparr>listen_fd := sock\<rparr>
      in if sock < 0 then (False, g')
         else if bound < 0 then (False, g')
         else if listening < 0 then (False, g')
         else if kq < 0 then (False, g')
         else (True, g'))"

definition set_session :: "int \<Rightarrow> SessionState \<Rightarrow> gateway \<Rightarrow> gateway" where
  "set_session fd s g =
     (case map_of (connections g) fd of
        None \<Rightarrow> g
      | Some c \<Rightarrow> g\<lparr>connections := AList.update fd (c\<lparr>session := s\<rparr>) (connections g)\<rparr>)"

definition close_connection :: "int \<Rightarrow> gateway \<Rightarrow> gateway" where
  "close_connection fd g = g\<lparr>connections := AList.delete fd (connections g)\<rparr>"

text \<open>\<open>client_fd\<close> is the result of \<^verbatim>\<open>accept\<close>.\<close>

definition accept_new_connection :: "int \<Rightarrow> gateway \<Rightarrow> gateway" where
  "accept_new_connection client_fd g =
     (if client_fd < 0 then g else g\<lparr>connections := AList.update client_fd connection_init (connections g)\<rparr>)"

section \<open>Sending\<close>

text \<open>The loop of \<^verbatim>\<open>send_frame\<close>: it gives up for good at the first call that accepts nothing.\<close>

function send_bytes :: "net \<Rightarrow> int \<Rightarrow> u8 list \<Rightarrow> nat \<times> (int \<times> u8 list) list \<Rightarrow> nat \<times> (int \<times> u8 list) list" where
  "send_bytes net fd out (k, w) =
     (if out = [] then (k, w)
      else let n = net k fd (length out)
           in if n \<le> 0 then (k + 1, w)
              else send_bytes net fd (drop (nat n) out) (k + 1, w @ [(fd, take (nat n) out)]))"
  by pat_completeness auto
termination by (relation "measure (\<lambda>(net, fd, out, kw). length out)") auto

declare send_bytes.simps [simp del]

definition frame_bytes :: "MsgType \<Rightarrow> u32 \<Rightarrow> u8 list \<Rightarrow> u8 list" where
  "frame_bytes ty seq body = encode_MsgHeader \<lparr>body_length = of_nat (length body), msg_type = ty, hdr_seq_num = seq\<rparr> @ body"

definition send_frame :: "net \<Rightarrow> int \<Rightarrow> MsgType \<Rightarrow> u32 \<Rightarrow> u8 list \<Rightarrow> gateway \<Rightarrow> gateway" where
  "send_frame net fd ty seq body g =
     (case send_bytes net fd (frame_bytes ty seq body) (send_calls g, wire g) of
        (k, w) \<Rightarrow> g\<lparr>send_calls := k, wire := w\<rparr>)"

text \<open>What all senders do: number the frame, send it and note the activity on the session.\<close>

definition send_on :: "net \<Rightarrow> int \<Rightarrow> int \<Rightarrow> MsgType \<Rightarrow> u8 list \<Rightarrow> gateway \<Rightarrow> gateway" where
  "send_on net now fd ty body g =
     (case map_of (connections g) fd of
        None \<Rightarrow> g
      | Some c \<Rightarrow>
          (case next_outbound_seq (session c) of
             (seq, s) \<Rightarrow> set_session fd (mark_outbound_activity now s) (send_frame net fd ty seq body g)))"

definition send_logon_ack :: "net \<Rightarrow> int \<Rightarrow> int \<Rightarrow> gateway \<Rightarrow> gateway" where
  "send_logon_ack net now fd =
     send_on net now fd Mt_Logon (encode_LogonMsg \<lparr>client_id = 0, heartbeat_interval_ms = 0, starting_seq_num = 0\<rparr>)"

definition send_resend_request :: "net \<Rightarrow> int \<Rightarrow> int \<Rightarrow> u32 \<Rightarrow> u32 \<Rightarrow> gateway \<Rightarrow> gateway" where
  "send_resend_request net now fd from_seq to_seq =
     send_on net now fd Mt_ResendRequest (word_bytes from_seq @ word_bytes to_seq)"

definition send_execution_report :: "net \<Rightarrow> int \<Rightarrow> int \<Rightarrow> u64 \<Rightarrow> ExecStatus \<Rightarrow> u32 \<Rightarrow> u32 \<Rightarrow> u32 \<Rightarrow> gateway \<Rightarrow> gateway" where
  "send_execution_report net now fd coid st px q leaves =
     send_on net now fd Mt_ExecutionReport (encode_ExecutionReportMsg
       \<lparr>er_client_order_id = coid, er_exchange_order_id = 0, er_status = st, er_fill_price = px,
        er_fill_quantity = q, er_leaves_quantity = leaves\<rparr>)"

section \<open>Dispatch\<close>

definition report_seq_gap_if_any :: "net \<Rightarrow> int \<Rightarrow> int \<Rightarrow> u32 \<Rightarrow> gateway \<Rightarrow> gateway" where
  "report_seq_gap_if_any net now fd seq g =
     (case map_of (connections g) fd of
        None \<Rightarrow> g
      | Some c \<Rightarrow>
          (case track_inbound_seq now seq (session c) of
             (None, s) \<Rightarrow> set_session fd s g
           | (Some (lo, hi), s) \<Rightarrow> send_resend_request net now fd lo hi (set_session fd s g)))"

definition event_base :: "EventType \<Rightarrow> int \<Rightarrow> u64 \<Rightarrow> SequencedEvent" where
  "event_base ty fd coid = \<lparr>ev_seq_num = 0, ev_ingress_ts_ns = 0, ev_sequence_ts_ns = 0, ev_type = ty, ev_producer = Gateway,
     ev_session_id = of_int fd, ev_client_order_id = coid, ev_side = Buy, ev_price = 0, ev_quantity = 0\<rparr>"

definition order_event :: "int \<Rightarrow> NewOrderMsg \<Rightarrow> SequencedEvent" where
  "order_event fd m = (event_base Ev_NewOrder fd (no_client_order_id m))
     \<lparr>ev_side := no_side m, ev_price := no_price m, ev_quantity := no_quantity m\<rparr>"

text \<open>Pushing a request to the sequencer, or rejecting it when the queue is full.\<close>

definition push_or_reject :: "net \<Rightarrow> int \<Rightarrow> int \<Rightarrow> SequencedEvent \<Rightarrow> gateway \<Rightarrow> gateway" where
  "push_or_reject net now fd ev g =
     (case spsc_push (sequencer_input g) ev of
        Some q \<Rightarrow> g\<lparr>sequencer_input := q\<rparr>
      | None \<Rightarrow> send_execution_report net now fd (ev_client_order_id ev) Rejected 0 0 0 g)"

definition dispatch_logon :: "net \<Rightarrow> int \<Rightarrow> int \<Rightarrow> MsgHeader \<Rightarrow> u8 list \<Rightarrow> gateway \<Rightarrow> gateway option" where
  "dispatch_logon net now fd header body g =
     (if unat (body_length header) < sizeof_LogonMsg then Some g
      else if length body < sizeof_LogonMsg then None
      else let logon = decode_LogonMsg body
           in case map_of (connections g) fd of
                None \<Rightarrow> None
              | Some c \<Rightarrow>
                  (case handle_logon now (client_id logon) (heartbeat_interval_ms logon) (hdr_seq_num header) (session c) of
                     (True, s) \<Rightarrow> Some (send_logon_ack net now fd (set_session fd s g))
                   | (False, s) \<Rightarrow> Some (close_connection fd (set_session fd s g))))"

definition dispatch_new_order :: "net \<Rightarrow> int \<Rightarrow> int \<Rightarrow> MsgHeader \<Rightarrow> u8 list \<Rightarrow> gateway \<Rightarrow> gateway option" where
  "dispatch_new_order net now fd header body g =
     (let g1 = report_seq_gap_if_any net now fd (hdr_seq_num header) g
      in if unat (body_length header) < sizeof_NewOrderMsg then Some g1
         else if length body < sizeof_NewOrderMsg then None
         else let order = decode_NewOrderMsg body
              in if \<not> risk_check fd order
                 then Some (send_execution_report net now fd (no_client_order_id order) Rejected 0 0 0 g1)
                 else Some (push_or_reject net now fd (order_event fd order) g1))"

definition dispatch_cancel_order :: "net \<Rightarrow> int \<Rightarrow> int \<Rightarrow> MsgHeader \<Rightarrow> u8 list \<Rightarrow> gateway \<Rightarrow> gateway option" where
  "dispatch_cancel_order net now fd header body g =
     (let g1 = report_seq_gap_if_any net now fd (hdr_seq_num header) g
      in if unat (body_length header) < sizeof_CancelOrderMsg then Some g1
         else if length body < sizeof_CancelOrderMsg then None
         else Some (push_or_reject net now fd (event_base Ev_CancelOrder fd (co_client_order_id (decode_CancelOrderMsg body))) g1))"

definition dispatch :: "net \<Rightarrow> int \<Rightarrow> int \<Rightarrow> u8 list \<Rightarrow> gateway \<Rightarrow> gateway option" where
  "dispatch net now fd frame g =
     (if length frame < sizeof_MsgHeader then Some g
      else let header = decode_MsgHeader frame; body = drop sizeof_MsgHeader frame
           in case msg_type header of
                Mt_Logon \<Rightarrow> dispatch_logon net now fd header body g
              | Mt_Heartbeat \<Rightarrow> Some (report_seq_gap_if_any net now fd (hdr_seq_num header) g)
              | Mt_TestRequest \<Rightarrow> Some (report_seq_gap_if_any net now fd (hdr_seq_num header) g)
              | Mt_NewOrder \<Rightarrow> dispatch_new_order net now fd header body g
              | Mt_CancelOrder \<Rightarrow> dispatch_cancel_order net now fd header body g
              | Mt_Logout \<Rightarrow>
                  (case map_of (connections g) fd of
                     None \<Rightarrow> None
                   | Some c \<Rightarrow> Some (close_connection fd (set_session fd (logout (session c)) g)))
              | _ \<Rightarrow> Some g)"

section \<open>What a handler keeps\<close>

lemma set_session_lookup:
  "map_of (connections (set_session fd s g)) fd' =
     (if fd' = fd then map_option (\<lambda>c. c\<lparr>session := s\<rparr>) (map_of (connections g) fd) else map_of (connections g) fd')"
  by (simp add: set_session_def umap_simps split: option.split)

lemma set_session_other [simp]:
  "sequencer_input (set_session fd s g) = sequencer_input g" "ack_queue (set_session fd s g) = ack_queue g"
  "wire (set_session fd s g) = wire g" "send_calls (set_session fd s g) = send_calls g" "listen_fd (set_session fd s g) = listen_fd g"
  by (simp_all add: set_session_def split: option.split)

lemma send_frame_other [simp]:
  "sequencer_input (send_frame net fd ty q body g) = sequencer_input g" "ack_queue (send_frame net fd ty q body g) = ack_queue g"
  "connections (send_frame net fd ty q body g) = connections g" "listen_fd (send_frame net fd ty q body g) = listen_fd g"
  by (simp_all add: send_frame_def split: prod.split)

lemma send_on_other [simp]:
  "sequencer_input (send_on net now fd ty body g) = sequencer_input g" "ack_queue (send_on net now fd ty body g) = ack_queue g"
  "listen_fd (send_on net now fd ty body g) = listen_fd g"
  by (simp_all add: send_on_def split: option.split prod.split)

lemma send_on_lookup:
  "map_of (connections (send_on net now fd ty body g)) fd' =
     (if fd' = fd then map_option (\<lambda>c. c\<lparr>session := mark_outbound_activity now (snd (next_outbound_seq (session c)))\<rparr>) (map_of (connections g) fd)
      else map_of (connections g) fd')"
  by (auto simp: send_on_def set_session_lookup split: option.split prod.split)

lemmas sender_defs = send_logon_ack_def send_resend_request_def send_execution_report_def

definition readers :: "gateway \<Rightarrow> int \<Rightarrow> frame_reader option" where
  "readers g fd = map_option reader (map_of (connections g) fd)"

lemma readers_simps [simp]:
  "readers (set_session fd s g) = readers g" "readers (send_on net now fd ty body g) = readers g"
  "readers (close_connection fd g) = (readers g)(fd := None)" "readers (g\<lparr>sequencer_input := q\<rparr>) = readers g"
  by (auto simp: readers_def fun_eq_iff set_session_lookup send_on_lookup close_connection_def umap_simps option.map_comp o_def)

lemma report_gap_other [simp]:
  "readers (report_seq_gap_if_any net now fd q g) = readers g"
  "sequencer_input (report_seq_gap_if_any net now fd q g) = sequencer_input g"
  by (simp_all add: report_seq_gap_if_any_def sender_defs split: option.split prod.split)

lemma push_or_reject_readers [simp]: "readers (push_or_reject net now fd ev g) = readers g"
  by (simp add: push_or_reject_def sender_defs split: option.split)

text \<open>A handler does not touch the frame reader of a connection it leaves open.\<close>

lemma dispatch_readers:
  assumes "dispatch net now fd f g = Some g'"
  shows "readers g' = readers g \<or> readers g' = (readers g)(fd := None)"
  using assms
  by (auto simp: dispatch_def dispatch_logon_def dispatch_new_order_def dispatch_cancel_order_def Let_def
      sender_defs split: if_splits option.splits prod.splits MsgType.splits bool.splits)

section \<open>Reading\<close>

definition set_reader :: "int \<Rightarrow> frame_reader \<Rightarrow> gateway \<Rightarrow> gateway" where
  "set_reader fd r g =
     (case map_of (connections g) fd of
        None \<Rightarrow> g
      | Some c \<Rightarrow> g\<lparr>connections := AList.update fd (c\<lparr>reader := r\<rparr>) (connections g)\<rparr>)"

lemma set_reader_lookup:
  "map_of (connections (set_reader fd r g)) fd' =
     (if fd' = fd then map_option (\<lambda>c. c\<lparr>reader := r\<rparr>) (map_of (connections g) fd) else map_of (connections g) fd')"
  by (simp add: set_reader_def umap_simps split: option.split)

lemma readers_set_reader [simp]:
  "readers (set_reader fd r g) fd' = (if fd' = fd then map_option (\<lambda>_. r) (readers g fd) else readers g fd')"
  by (simp add: readers_def set_reader_lookup option.map_comp o_def)

definition unread :: "int \<Rightarrow> gateway \<Rightarrow> nat" where
  "unread fd g = (case readers g fd of None \<Rightarrow> 0 | Some r \<Rightarrow> length (fr_buffer r))"

lemma dispatch_unread:
  assumes "map_of (connections g) fd = Some c" and "next_frame (reader c) = Some (f, r)"
    and "dispatch net now fd f (set_reader fd r g) = Some g'"
  shows "unread fd g' < unread fd g"
proof -
  have g: "readers g fd = Some (reader c)"
    using assms(1) by (simp add: readers_def)
  then have "readers g' fd \<in> {None, Some r}"
    using dispatch_readers [OF assms(3)] by auto
  then show ?thesis
    using next_frame_shrinks [OF assms(2)] g by (auto simp: unread_def)
qed

text \<open>
  The inner loop of \<^verbatim>\<open>handle_readable\<close>. It evaluates \<^verbatim>\<open>it->second\<close> before every frame, also when the
  previous frame made \<^verbatim>\<open>dispatch\<close> erase the connection that \<^verbatim>\<open>it\<close> points to.
\<close>

function frames_loop :: "net \<Rightarrow> int \<Rightarrow> int \<Rightarrow> gateway \<Rightarrow> gateway option" where
  "frames_loop net now fd g =
     (case map_of (connections g) fd of
        None \<Rightarrow> None
      | Some c \<Rightarrow>
          (case next_frame (reader c) of
             None \<Rightarrow> Some g
           | Some (frame, r) \<Rightarrow>
               (case dispatch net now fd frame (set_reader fd r g) of
                  None \<Rightarrow> None
                | Some g' \<Rightarrow> frames_loop net now fd g')))"
  by pat_completeness auto

termination
  by (relation "measure (\<lambda>(net, now, fd, g). unread fd g)") (auto intro: dispatch_unread)

declare frames_loop.simps [simp del]

datatype recv_result = Data "u8 list" | Eof | Would_block | Recv_error

fun recv_loop :: "net \<Rightarrow> int \<Rightarrow> int \<Rightarrow> recv_result list \<Rightarrow> gateway \<Rightarrow> gateway option" where
  "recv_loop net now fd [] g = Some g"
| "recv_loop net now fd (Data bs # rs) g =
     (case map_of (connections g) fd of
        None \<Rightarrow> None
      | Some c \<Rightarrow>
          (case frames_loop net now fd (set_reader fd (feed bs (reader c)) g) of
             None \<Rightarrow> None
           | Some g' \<Rightarrow> recv_loop net now fd rs g'))"
| "recv_loop net now fd (Eof # rs) g = Some (close_connection fd g)"
| "recv_loop net now fd (Would_block # rs) g = Some g"
| "recv_loop net now fd (Recv_error # rs) g = Some (close_connection fd g)"

definition handle_readable :: "net \<Rightarrow> int \<Rightarrow> int \<Rightarrow> recv_result list \<Rightarrow> gateway \<Rightarrow> gateway option" where
  "handle_readable net now fd rs g = (if map_of (connections g) fd = None then Some g else recv_loop net now fd rs g)"

section \<open>Heartbeats, acknowledgements and the event loop\<close>

definition check_heartbeat :: "net \<Rightarrow> int \<Rightarrow> int \<Rightarrow> gateway \<Rightarrow> gateway" where
  "check_heartbeat net now fd g =
     (case map_of (connections g) fd of
        None \<Rightarrow> g
      | Some c \<Rightarrow>
          if status (session c) \<noteq> LoggedOn then g
          else if is_peer_dead 2 now (session c)
          then close_connection fd (set_session fd (disconnect (session c)) g)
          else if should_send_heartbeat now (session c) then send_on net now fd Mt_Heartbeat [] g
          else g)"

definition check_heartbeats :: "net \<Rightarrow> int \<Rightarrow> gateway \<Rightarrow> gateway" where
  "check_heartbeats net now g = fold (check_heartbeat net now) (map fst (connections g)) g"

definition ack_report :: "OutboundAck \<Rightarrow> u8 list" where
  "ack_report a = encode_ExecutionReportMsg
     \<lparr>er_client_order_id = ack_client_order_id a, er_exchange_order_id = ack_exchange_order_id a, er_status = ack_status a,
      er_fill_price = ack_fill_price a, er_fill_quantity = ack_fill_quantity a, er_leaves_quantity = ack_leaves_quantity a\<rparr>"

partial_function (option) drain_acks :: "net \<Rightarrow> int \<Rightarrow> gateway \<Rightarrow> gateway option" where
  "drain_acks net now g =
     (case spsc_pop (ack_queue g) of
        None \<Rightarrow> Some g
      | Some (a, q) \<Rightarrow> drain_acks net now (send_on net now (sint (ack_session_id a)) Mt_ExecutionReport (ack_report a) (g\<lparr>ack_queue := q\<rparr>)))"

text \<open>
  One entry of the array \<^verbatim>\<open>kevent\<close> fills: the descriptor and the end-of-file flag, with what
  \<^verbatim>\<open>accept\<close> and the calls of \<^verbatim>\<open>recv\<close> return when the handler makes them.
\<close>

datatype net_event = Kevent (ke_ident: int) (ke_eof: bool) (ke_accept: int) (ke_recv: "recv_result list")

definition handle_event :: "net \<Rightarrow> int \<Rightarrow> net_event \<Rightarrow> gateway \<Rightarrow> gateway option" where
  "handle_event net now e g =
     (if ke_ident e = listen_fd g then Some (accept_new_connection (ke_accept e) g)
      else if ke_eof e then Some (close_connection (ke_ident e) g)
      else handle_readable net now (ke_ident e) (ke_recv e) g)"

definition poll_once :: "net \<Rightarrow> int \<Rightarrow> net_event list \<Rightarrow> gateway \<Rightarrow> gateway option" where
  "poll_once net now events g =
     (case fold_opt (handle_event net now) events g of
        None \<Rightarrow> None
      | Some g' \<Rightarrow> drain_acks net now (check_heartbeats net now g'))"

end
