(* ===== verification/Gateway_Properties.thy ===== *)
theory Gateway_Properties
  imports Gateway_Server
begin

text \<open>
  The properties of the gateway: requests reach the sequencer's queue exactly once and in order
  whatever the chunking, acknowledgements go to the right peer with consecutive numbers,
  dead peers are removed, the connection table keeps its invariant, and a frame that
  makes the gateway close a connection makes it use that connection afterwards.
\<close>

section \<open>Frames that close their connection\<close>

definition closes :: "u8 list \<Rightarrow> SessionState \<Rightarrow> bool" where
  "closes f s \<longleftrightarrow> msg_type (decode_MsgHeader f) = Mt_Logout \<or>
     msg_type (decode_MsgHeader f) = Mt_Logon \<and> sizeof_LogonMsg \<le> unat (body_length (decode_MsgHeader f)) \<and> status s \<noteq> AwaitingLogon"

lemma frame_body: "frame_ok f \<Longrightarrow> length (drop sizeof_MsgHeader f) = unat (body_length (decode_MsgHeader f))"
  by (simp add: frame_ok_def)

lemma dispatch_closes:
  assumes "frame_ok f" and "map_of (connections g) fd = Some c" and "closes f (session c)"
  obtains g' where "dispatch net now fd f g = Some g'" and "map_of (connections g') fd = None"
proof -
  have len: "\<not> length f < sizeof_MsgHeader"
    using assms(1) by (simp add: frame_ok_def)
  show thesis
  proof (cases "msg_type (decode_MsgHeader f) = Mt_Logout")
    case True
    with len assms(2) show thesis
      by (intro that) (auto simp: dispatch_def Let_def close_connection_def umap_simps)
  next
    case False
    with assms(3) have "msg_type (decode_MsgHeader f) = Mt_Logon" "sizeof_LogonMsg \<le> unat (body_length (decode_MsgHeader f))"
      "status (session c) \<noteq> AwaitingLogon"
      by (auto simp: closes_def)
    with len assms(2) frame_body [OF assms(1)] show thesis
      by (intro that) (auto simp: dispatch_def dispatch_logon_def handle_logon_def Let_def close_connection_def umap_simps)
  qed
qed

text \<open>
  (C21) Use after erase. Whenever a connection's stream brings a logout, or a logon on a session
  that is already logged on, \<^verbatim>\<open>dispatch\<close> erases the connection and \<^verbatim>\<open>handle_readable\<close> goes on to
  read the erased connection's frame reader: the handler's behaviour is undefined.
\<close>
theorem closing_frame_uses_erased_connection:
  assumes "map_of (connections g) fd = Some c" and "fr_buffer (reader c) = []"
    and "frame_ok f" and "closes f (session c)"
  shows "handle_readable net now fd (Data (f @ bytes) # rs) g = None"
proof -
  let ?g = "set_reader fd (feed (f @ bytes) (reader c)) g"
  have c: "map_of (connections ?g) fd = Some (c\<lparr>reader := \<lparr>fr_buffer = f @ bytes\<rparr>\<rparr>)"
    using assms(1,2) by (cases "reader c") (simp add: set_reader_lookup feed_def)
  have c': "map_of (connections (set_reader fd \<lparr>fr_buffer = bytes\<rparr> ?g)) fd = Some (c\<lparr>reader := \<lparr>fr_buffer = bytes\<rparr>\<rparr>)"
    using assms(1) by (simp add: set_reader_lookup)
  obtain g' where "dispatch net now fd f (set_reader fd \<lparr>fr_buffer = bytes\<rparr> ?g) = Some g'" "map_of (connections g') fd = None"
    using dispatch_closes [OF assms(3) c'] assms(4) by auto
  then have "frames_loop net now fd ?g = None"
    using c next_frame_ok [OF assms(3), of bytes] by (subst frames_loop.simps) (simp add: frames_loop.simps [of net now fd g'])
  then show ?thesis
    using assms(1) by (simp add: handle_readable_def)
qed

text \<open>A gateway with one connection that has sent nothing yet.\<close>

definition quiet_event :: SequencedEvent where
  "quiet_event = event_base Ev_Admin 0 0"

definition quiet_ack :: OutboundAck where
  "quiet_ack = \<lparr>ack_session_id = 0, ack_client_order_id = 0, ack_exchange_order_id = 0, ack_status = Accepted,
     ack_fill_price = 0, ack_fill_quantity = 0, ack_leaves_quantity = 0\<rparr>"

definition demo_gateway :: gateway where
  "demo_gateway = accept_new_connection 7 \<lparr>listen_fd = 3, connections = [], sequencer_input = spsc_init 4 quiet_event,
     ack_queue = spsc_init 4 quiet_ack, wire = [], send_calls = 0\<rparr>"

lemma demo_gateway [simp]:
  "map_of (connections demo_gateway) 7 = Some connection_init" "sequencer_input demo_gateway = spsc_init 4 quiet_event"
  "ack_queue demo_gateway = spsc_init 4 quiet_ack"
  by (simp_all add: demo_gateway_def accept_new_connection_def)

theorem closing_frame_uses_erased_connection_witness:
  "handle_readable (\<lambda>k fd n. int n) 0 7 [Data ([0, 0, 2, 1, 0, 0, 0] @ [])] demo_gateway = None"
  by (rule closing_frame_uses_erased_connection [OF demo_gateway(1)])
    (simp_all add: connection_init_def frame_ok_def closes_def decode_MsgHeader_def sizeof_MsgHeader_def field_def
      bytes_word_def msg_type_of_byte_def)

section \<open>Requests\<close>

text \<open>What a frame asks the sequencer to do.\<close>

definition request_of :: "int \<Rightarrow> u8 list \<Rightarrow> SequencedEvent list" where
  "request_of fd f =
     (let h = decode_MsgHeader f; body = drop sizeof_MsgHeader f
      in if msg_type h = Mt_NewOrder \<and> sizeof_NewOrderMsg \<le> length body then [order_event fd (decode_NewOrderMsg body)]
         else if msg_type h = Mt_CancelOrder \<and> sizeof_CancelOrderMsg \<le> length body
         then [event_base Ev_CancelOrder fd (co_client_order_id (decode_CancelOrderMsg body))] else [])"

definition stays_open :: "u8 list \<Rightarrow> bool" where
  "stays_open f \<longleftrightarrow> frame_ok f \<and> msg_type (decode_MsgHeader f) \<notin> {Mt_Logon, Mt_Logout}"

definition queue_ready :: "nat \<Rightarrow> gateway \<Rightarrow> bool" where
  "queue_ready n g \<longleftrightarrow> spsc_inv (sequencer_input g) \<and>
     length (spsc_list (sequencer_input g)) + n \<le> length (buffer (sequencer_input g)) - 1"

lemma push_request:
  assumes "queue_ready (Suc n) g"
  shows "spsc_list (sequencer_input (push_or_reject net now fd ev g)) = spsc_list (sequencer_input g) @ [ev]"
    and "queue_ready n (push_or_reject net now fd ev g)"
proof -
  have "spsc_inv (sequencer_input g)" "length (spsc_list (sequencer_input g)) < length (buffer (sequencer_input g)) - 1"
    using assms by (simp_all add: queue_ready_def)
  then obtain q where "spsc_push (sequencer_input g) ev = Some q" "spsc_inv q" "spsc_list q = spsc_list (sequencer_input g) @ [ev]"
    "length (buffer q) - 1 = length (buffer (sequencer_input g)) - 1"
    by (rule sq.push_room)
  with assms show "spsc_list (sequencer_input (push_or_reject net now fd ev g)) = spsc_list (sequencer_input g) @ [ev]"
    "queue_ready n (push_or_reject net now fd ev g)"
    by (simp_all add: push_or_reject_def queue_ready_def)
qed

lemma dispatch_request:
  assumes "stays_open f" and "queue_ready (length (request_of fd f) + n) g"
  shows "\<exists>g'. dispatch net now fd f g = Some g' \<and> readers g' = readers g \<and> queue_ready n g' \<and>
    spsc_list (sequencer_input g') = spsc_list (sequencer_input g) @ request_of fd f"
proof -
  let ?h = "decode_MsgHeader f" and ?body = "drop sizeof_MsgHeader f"
  let ?g = "report_seq_gap_if_any net now fd (hdr_seq_num ?h) g"
  have f: "\<not> length f < sizeof_MsgHeader" "length ?body = unat (body_length ?h)"
    using assms(1) frame_body by (auto simp: stays_open_def frame_ok_def)
  have ready: "queue_ready k ?g = queue_ready k g" for k
    by (simp add: queue_ready_def)
  consider (order) "msg_type ?h = Mt_NewOrder" "sizeof_NewOrderMsg \<le> length ?body"
    | (cancel) "msg_type ?h = Mt_CancelOrder" "sizeof_CancelOrderMsg \<le> length ?body"
    | (other) "request_of fd f = []" "msg_type ?h = Mt_NewOrder \<longrightarrow> length ?body < sizeof_NewOrderMsg"
        "msg_type ?h = Mt_CancelOrder \<longrightarrow> length ?body < sizeof_CancelOrderMsg"
    by (fastforce simp: request_of_def Let_def not_le)
  then show ?thesis
  proof cases
    case order
    then have r: "request_of fd f = [order_event fd (decode_NewOrderMsg ?body)]"
      by (simp add: request_of_def Let_def)
    with assms(2) ready push_request [of n ?g net now fd "order_event fd (decode_NewOrderMsg ?body)"] order f show ?thesis
      by (simp add: dispatch_def dispatch_new_order_def risk_check_def Let_def)
  next
    case cancel
    then have r: "request_of fd f = [event_base Ev_CancelOrder fd (co_client_order_id (decode_CancelOrderMsg ?body))]"
      by (simp add: request_of_def Let_def)
    with assms(2) ready push_request [of n ?g net now fd "event_base Ev_CancelOrder fd (co_client_order_id (decode_CancelOrderMsg ?body))"] cancel f
    show ?thesis
      by (simp add: dispatch_def dispatch_cancel_order_def Let_def)
  next
    case other
    have "dispatch net now fd f g \<in> {Some g, Some ?g}"
      using assms(1) f other(2,3)
      by (auto simp: dispatch_def dispatch_new_order_def dispatch_cancel_order_def stays_open_def Let_def split: MsgType.split)
    with other(1) assms(2) ready show ?thesis by auto
  qed
qed

lemma queue_ready_set_reader [simp]:
  "queue_ready n (set_reader fd r g) = queue_ready n g" "sequencer_input (set_reader fd r g) = sequencer_input g"
  by (simp_all add: queue_ready_def set_reader_def split: option.split)

definition requests_of :: "int \<Rightarrow> u8 list list \<Rightarrow> SequencedEvent list" where
  "requests_of fd fs = concat (map (request_of fd) fs)"

lemma requests_of_simps [simp]:
  "requests_of fd [] = []" "requests_of fd (f # fs) = request_of fd f @ requests_of fd fs"
  "requests_of fd (fs @ hs) = requests_of fd fs @ requests_of fd hs"
  by (simp_all add: requests_of_def)

text \<open>
  Reading frames, once for every property that is about them: \<open>J fs g\<close> says what holds while the frames \<open>fs\<close> are
  still to come. It must be kept by the handler of each frame and must not look at the reader.
\<close>

locale frame_handler =
  fixes net :: net and now fd :: int and J :: "u8 list list \<Rightarrow> gateway \<Rightarrow> bool"
  assumes handle: "J (f # fs) g \<Longrightarrow> \<exists>g'. dispatch net now fd f g = Some g' \<and> readers g' = readers g \<and> J fs g'"
    and any_reader: "J fs (set_reader fd r g) = J fs g"
begin

lemma frames_loop_run:
  assumes "readers g fd = Some r" and "drain_frames r = (fs, r')" and "J (fs @ hs) g"
  shows "\<exists>g'. frames_loop net now fd g = Some g' \<and> readers g' fd = Some r' \<and> J hs g'"
  using assms
proof (induction fs arbitrary: g r)
  case Nil
  obtain c where c: "map_of (connections g) fd = Some c" "reader c = r"
    using Nil.prems(1) by (auto simp: readers_def)
  have "next_frame r = None" "r' = r"
    using Nil.prems(2) by (subst (asm) drain_frames.simps; auto split: option.splits prod.splits)+
  with c Nil.prems show ?case by (subst frames_loop.simps) simp
next
  case (Cons f fs)
  obtain c where c: "map_of (connections g) fd = Some c" "reader c = r"
    using Cons.prems(1) by (auto simp: readers_def)
  obtain r1 where r1: "next_frame r = Some (f, r1)" "drain_frames r1 = (fs, r')"
    using Cons.prems(2) by (subst (asm) drain_frames.simps) (auto split: option.splits prod.splits)
  have "J (f # fs @ hs) (set_reader fd r1 g)"
    using Cons.prems(3) by (simp add: any_reader)
  from handle [OF this] obtain g1 where
    g1: "dispatch net now fd f (set_reader fd r1 g) = Some g1" "readers g1 = readers (set_reader fd r1 g)" "J (fs @ hs) g1"
    by blast
  then have "readers g1 fd = Some r1"
    using Cons.prems(1) by simp
  from Cons.IH [OF this r1(2) g1(3)] g1(1) r1(1) c show ?case
    by (subst frames_loop.simps) simp
qed

lemma recv_loop_run:
  assumes "readers g fd = Some r" and "read_chunks cs r = (fs, r')" and "J (fs @ hs) g"
  shows "\<exists>g'. recv_loop net now fd (map Data cs) g = Some g' \<and> readers g' fd = Some r' \<and> J hs g'"
  using assms
proof (induction cs arbitrary: g r fs)
  case Nil
  then show ?case by simp
next
  case (Cons ch cs)
  obtain c where c: "map_of (connections g) fd = Some c" "reader c = r"
    using Cons.prems(1) by (auto simp: readers_def)
  obtain fs1 r1 fs2 where d: "drain_frames (feed ch r) = (fs1, r1)" "read_chunks cs r1 = (fs2, r')" "fs = fs1 @ fs2"
    using Cons.prems(2) by (auto split: prod.splits)
  have "readers (set_reader fd (feed ch r) g) fd = Some (feed ch r)" "J (fs1 @ fs2 @ hs) (set_reader fd (feed ch r) g)"
    using Cons.prems(1,3) d(3) by (simp_all add: any_reader)
  from frames_loop_run [OF this(1) d(1) this(2)] obtain g1 where
    g1: "frames_loop net now fd (set_reader fd (feed ch r) g) = Some g1" "readers g1 fd = Some r1" "J (fs2 @ hs) g1"
    by blast
  from Cons.IH [OF g1(2) d(2) g1(3)] g1(1) c show ?case
    by auto
qed

lemma handle_readable_run:
  assumes "map_of (connections g) fd = Some c" and "fr_buffer (reader c) = []" and "concat cs = concat fs @ left" and "cs \<noteq> []"
    and "\<forall>f \<in> set fs. frame_ok f" and "next_frame \<lparr>fr_buffer = left\<rparr> = None" and "J fs g"
  shows "\<exists>g'. handle_readable net now fd (map Data cs) g = Some g' \<and> readers g' fd = Some \<lparr>fr_buffer = left\<rparr> \<and> J [] g'"
proof -
  have r: "reader c = \<lparr>fr_buffer = []\<rparr>"
    using assms(2) by (cases "reader c") simp
  have "feed (concat cs) \<lparr>fr_buffer = []\<rparr> = \<lparr>fr_buffer = concat fs @ left\<rparr>"
    by (simp add: feed_def assms(3))
  then have "read_chunks cs (reader c) = (fs, \<lparr>fr_buffer = left\<rparr>)"
    using drain_frames_ok [OF assms(5,6)] assms(4) by (simp add: read_chunks_concat r)
  moreover have "readers g fd = Some (reader c)"
    using assms(1) by (simp add: readers_def)
  ultimately show ?thesis
    using recv_loop_run [of g "reader c" cs fs _ "[]"] assms(1,7) by (auto simp: handle_readable_def)
qed

end

text \<open>While frames are handled, the queue holds what it held and the requests handled so far.\<close>

definition requests_left :: "int \<Rightarrow> SequencedEvent list \<Rightarrow> u8 list list \<Rightarrow> gateway \<Rightarrow> bool" where
  "requests_left fd evs fs g \<longleftrightarrow> (\<forall>f \<in> set fs. stays_open f) \<and> queue_ready (length (requests_of fd fs)) g \<and>
     spsc_list (sequencer_input g) @ requests_of fd fs = evs"

lemma requests_left_step:
  assumes "requests_left fd evs (f # fs) g"
  shows "\<exists>g'. dispatch net now fd f g = Some g' \<and> readers g' = readers g \<and> requests_left fd evs fs g'"
proof -
  have "stays_open f" "queue_ready (length (request_of fd f) + length (requests_of fd fs)) g"
    using assms by (simp_all add: requests_left_def)
  from dispatch_request [OF this, of net now] assms show ?thesis
    by (auto simp: requests_left_def)
qed

interpretation rq: frame_handler net now fd "requests_left fd evs" for net now fd evs
  by unfold_locales (rule requests_left_step, assumption, simp add: requests_left_def)

text \<open>
  (C22) Requests reach the sequencer. When a client sends frames that do not end its session,
  in any chunks, and the queue has room, the gateway appends to the sequencer's queue exactly
  one event per well-formed new order or cancel, in the order sent and tagged with the
  connection, and keeps the incomplete rest of the stream.
\<close>
theorem requests_reach_sequencer:
  assumes "map_of (connections g) fd = Some c" and "fr_buffer (reader c) = []"
    and "concat cs = concat fs @ left" and "cs \<noteq> []" and "next_frame \<lparr>fr_buffer = left\<rparr> = None"
    and "\<forall>f \<in> set fs. stays_open f" and "queue_ready (length (requests_of fd fs)) g"
  shows "\<exists>g'. handle_readable net now fd (map Data cs) g = Some g' \<and> readers g' fd = Some \<lparr>fr_buffer = left\<rparr> \<and>
    spsc_list (sequencer_input g') = spsc_list (sequencer_input g) @ requests_of fd fs"
proof -
  have "\<forall>f \<in> set fs. frame_ok f" "requests_left fd (spsc_list (sequencer_input g) @ requests_of fd fs) fs g"
    using assms(6,7) by (simp_all add: stays_open_def requests_left_def)
  from rq.handle_readable_run [OF assms(1-4) this(1) assms(5) this(2), of net now] show ?thesis
    by (auto simp: requests_left_def)
qed

text \<open>
  The hypotheses ask neither for a logon nor for fresh sequence numbers. Here a client that never
  logged on sends the same cancel twice with the same sequence number; both are passed on.
\<close>

definition demo_cancel :: "u8 list" where
  "demo_cancel = [8, 0, 11, 0, 0, 0, 0, 42, 0, 0, 0, 0, 0, 0, 0]"

lemma demo_cancel:
  "stays_open demo_cancel" "request_of 7 demo_cancel = [event_base Ev_CancelOrder 7 42]"
  by (simp_all add: demo_cancel_def stays_open_def frame_ok_def decode_MsgHeader_def sizeof_MsgHeader_def field_def bytes_word_def
      msg_type_of_byte_def request_of_def Let_def decode_CancelOrderMsg_def sizeof_CancelOrderMsg_def)

theorem requests_reach_sequencer_witness:
  "status (session connection_init) = AwaitingLogon \<and>
   (\<exists>g'. handle_readable (\<lambda>k fd n. int n) 0 7 (map Data [demo_cancel, demo_cancel]) demo_gateway = Some g' \<and>
     spsc_list (sequencer_input g') = [event_base Ev_CancelOrder 7 42, event_base Ev_CancelOrder 7 42])"
proof -
  have q: "spsc_inv (spsc_init 4 quiet_event)" "spsc_list (spsc_init 4 quiet_event) = []"
    using spsc_init_inv [OF pow2_4, of quiet_event] by simp_all
  then have ready: "queue_ready (length (requests_of 7 [demo_cancel, demo_cancel])) demo_gateway"
    by (simp add: queue_ready_def demo_cancel(2)) (simp add: spsc_init_def)
  have "next_frame \<lparr>fr_buffer = []\<rparr> = None"
    by (simp add: next_frame_def sizeof_MsgHeader_def)
  from requests_reach_sequencer [OF demo_gateway(1) _ _ _ this _ ready, of "[demo_cancel, demo_cancel]" "\<lambda>k fd n. int n" 0]
  show ?thesis
    using q by (auto simp: demo_cancel connection_init_def session_init_def)
qed

section \<open>Sending\<close>

definition sent_to :: "int \<Rightarrow> (int \<times> u8 list) list \<Rightarrow> u8 list" where
  "sent_to fd w = concat (map snd (filter (\<lambda>x. fst x = fd) w))"

text \<open>A kernel that accepts part of what it is offered each time, but always something.\<close>

definition delivers :: "net \<Rightarrow> bool" where
  "delivers net \<longleftrightarrow> (\<forall>k fd n. 0 < n \<longrightarrow> 0 < net k fd n \<and> net k fd n \<le> int n)"

lemma sent_to_append [simp]: "sent_to fd (w @ [(fd', bs)]) = sent_to fd w @ (if fd' = fd then bs else [])"
  by (simp add: sent_to_def)

lemma send_bytes_delivers:
  assumes "delivers net"
  shows "sent_to fd' (snd (send_bytes net fd out (k, w))) = sent_to fd' w @ (if fd = fd' then out else [])"
proof (induction "length out" arbitrary: out k w rule: less_induct)
  case less
  show ?case
  proof (cases "out = []")
    case True
    then show ?thesis by (simp add: send_bytes.simps)
  next
    case False
    let ?n = "net k fd (length out)"
    have n: "0 < ?n"
      using assms False by (simp add: delivers_def)
    then have "length (drop (nat ?n) out) < length out"
      using False by simp
    from less [OF this] n False show ?thesis
      by (subst send_bytes.simps) (simp add: Let_def)
  qed
qed

lemma send_on_delivers:
  assumes "delivers net" and "map_of (connections g) fd = Some c"
  shows "sent_to fd' (wire (send_on net now fd ty body g)) =
    sent_to fd' (wire g) @ (if fd = fd' then frame_bytes ty (outbound_seq (session c)) body else [])"
  using send_bytes_delivers [OF assms(1), of fd' fd "frame_bytes ty (outbound_seq (session c)) body" "send_calls g" "wire g"] assms(2)
  by (simp add: send_on_def send_frame_def next_outbound_seq_def split_beta)

text \<open>
  A full queue is reported, not swallowed. A well-formed new order in sequence that finds
  the sequencer's queue full changes nothing there, and the client is sent exactly one
  rejection with its order id and the session's next outbound number, even if the kernel takes
  the bytes in pieces.
\<close>
lemma full_queue_rejects:
  assumes "delivers net" and "map_of (connections g) fd = Some c" and "frame_ok f"
    and "msg_type (decode_MsgHeader f) = Mt_NewOrder" and "sizeof_NewOrderMsg \<le> unat (body_length (decode_MsgHeader f))"
    and "hdr_seq_num (decode_MsgHeader f) = expected_peer_seq (session c)"
    and "spsc_inv (sequencer_input g)" and "length (spsc_list (sequencer_input g)) = length (buffer (sequencer_input g)) - 1"
  shows "\<exists>g'. dispatch net now fd f g = Some g' \<and> sequencer_input g' = sequencer_input g \<and>
    sent_to fd (wire g') = sent_to fd (wire g) @ frame_bytes Mt_ExecutionReport (outbound_seq (session c))
      (encode_ExecutionReportMsg \<lparr>er_client_order_id = no_client_order_id (decode_NewOrderMsg (drop sizeof_MsgHeader f)),
         er_exchange_order_id = 0, er_status = Rejected, er_fill_price = 0, er_fill_quantity = 0, er_leaves_quantity = 0\<rparr>)"
proof -
  let ?body = "drop sizeof_MsgHeader f"
  define s where "s = (session c)\<lparr>last_peer_activity := now, expected_peer_seq := expected_peer_seq (session c) + 1\<rparr>"
  have gap: "report_seq_gap_if_any net now fd (hdr_seq_num (decode_MsgHeader f)) g = set_session fd s g"
    using assms(2,6) by (simp add: report_seq_gap_if_any_def track_inbound_seq_def Let_def s_def)
  have c: "map_of (connections (set_session fd s g)) fd = Some (c\<lparr>session := s\<rparr>)"
    using assms(2) by (simp add: set_session_lookup)
  have full: "spsc_push (sequencer_input g) ev = None" for ev
    using sq.push_None [OF assms(7)] assms(8) by simp
  have f: "\<not> length f < sizeof_MsgHeader" "\<not> length ?body < sizeof_NewOrderMsg"
    using assms(3,5) frame_body [OF assms(3)] by (auto simp: frame_ok_def)
  let ?order = "order_event fd (decode_NewOrderMsg ?body)"
  have "dispatch net now fd f g = Some (push_or_reject net now fd ?order (set_session fd s g))"
    using f assms(4,5) by (simp add: dispatch_def dispatch_new_order_def gap risk_check_def Let_def)
  then show ?thesis
    using send_on_delivers [OF assms(1) c, of fd now] full
    by (simp add: push_or_reject_def send_execution_report_def s_def order_event_def event_base_def)
qed

definition demo_order :: "u8 list" where
  "demo_order = [25, 0, 10, 0, 0, 0, 0] @ [42, 0, 0, 0, 0, 0, 0, 0] @ replicate 8 65 @ [0] @ [100, 0, 0, 0] @ [5, 0, 0, 0]"

lemma demo_order:
  "frame_ok demo_order" "decode_MsgHeader demo_order = \<lparr>body_length = 25, msg_type = Mt_NewOrder, hdr_seq_num = 0\<rparr>"
  "no_client_order_id (decode_NewOrderMsg (drop sizeof_MsgHeader demo_order)) = 42"
  by (simp_all add: demo_order_def frame_ok_def decode_MsgHeader_def sizeof_MsgHeader_def field_def bytes_word_def
      msg_type_of_byte_def decode_NewOrderMsg_def)

text \<open>A frame the kernel takes only the beginning of is cut off there for good; the next frame follows it.\<close>

lemma truncated_frame_stays_truncated:
  assumes "net k fd (length out) = int m" and "0 < m" and "m < length out" and "net (k + 1) fd (length out - m) \<le> 0"
  shows "send_bytes net fd out (k, w) = (k + 2, w @ [(fd, take m out)])"
proof -
  have "out \<noteq> []" "drop m out \<noteq> []" "length (drop m out) = length out - m"
    using assms(3) by auto
  with assms show ?thesis
    by (subst send_bytes.simps) (simp add: Let_def send_bytes.simps [of net fd "drop m out"])
qed

section \<open>Acknowledgements\<close>

text \<open>The execution reports for a list of acknowledgements, numbered from \<open>q\<close> on.\<close>

fun report_frames :: "u32 \<Rightarrow> OutboundAck list \<Rightarrow> u8 list" where
  "report_frames q [] = []"
| "report_frames q (a # as) = frame_bytes Mt_ExecutionReport q (ack_report a) @ report_frames (q + 1) as"

definition acks_for :: "int \<Rightarrow> OutboundAck list \<Rightarrow> OutboundAck list" where
  "acks_for fd as = filter (\<lambda>a. sint (ack_session_id a) = fd) as"

definition reports_to :: "gateway \<Rightarrow> int \<Rightarrow> OutboundAck list \<Rightarrow> u8 list" where
  "reports_to g fd as =
     (case map_of (connections g) fd of None \<Rightarrow> [] | Some c \<Rightarrow> report_frames (outbound_seq (session c)) (acks_for fd as))"

lemma reports_to_step:
  fixes a :: OutboundAck and g :: gateway and now :: int
  assumes "delivers net"
  defines "g1 \<equiv> send_on net now (sint (ack_session_id a)) Mt_ExecutionReport (ack_report a) g"
  shows "sent_to fd (wire g1) @ reports_to g1 fd as = sent_to fd (wire g) @ reports_to g fd (a # as)"
proof (cases "map_of (connections g) (sint (ack_session_id a))")
  case None
  then have "g1 = g"
    by (simp add: g1_def send_on_def)
  with None show ?thesis by (auto simp: reports_to_def acks_for_def split: option.split)
next
  case (Some c)
  have "map_of (connections g1) fd = (if fd = sint (ack_session_id a)
      then Some (c\<lparr>session := mark_outbound_activity now (snd (next_outbound_seq (session c)))\<rparr>) else map_of (connections g) fd)"
    using Some by (simp add: g1_def send_on_lookup)
  then show ?thesis
    using send_on_delivers [OF assms(1) Some, of fd now Mt_ExecutionReport "ack_report a"] Some
    by (cases "sint (ack_session_id a) = fd")
      (auto simp: reports_to_def acks_for_def next_outbound_seq_def mark_outbound_activity_def simp flip: g1_def split: option.split)
qed

lemma drain_acks_reports:
  assumes "delivers net" and "spsc_inv (ack_queue g)" and "spsc_list (ack_queue g) = as"
  shows "\<exists>g'. drain_acks net now g = Some g' \<and> spsc_inv (ack_queue g') \<and> spsc_list (ack_queue g') = [] \<and>
    sequencer_input g' = sequencer_input g \<and> (\<forall>fd. sent_to fd (wire g') = sent_to fd (wire g) @ reports_to g fd as)"
  using assms(2,3)
proof (induction as arbitrary: g)
  case Nil
  then have "spsc_pop (ack_queue g) = None"
    using sq.pop_None by blast
  with Nil show ?case
    by (subst drain_acks.simps) (simp add: reports_to_def acks_for_def split: option.split)
next
  case (Cons a as)
  from sq.pop_Cons [OF Cons.prems] obtain q where
    q: "spsc_pop (ack_queue g) = Some (a, q)" "spsc_inv q" "spsc_list q = as"
    by blast
  let ?g = "g\<lparr>ack_queue := q\<rparr>"
  let ?g1 = "send_on net now (sint (ack_session_id a)) Mt_ExecutionReport (ack_report a) ?g"
  have "spsc_inv (ack_queue ?g1)" "spsc_list (ack_queue ?g1) = as"
    using q by simp_all
  from Cons.IH [OF this] obtain g' where
    g': "drain_acks net now ?g1 = Some g'" "spsc_inv (ack_queue g')" "spsc_list (ack_queue g') = []"
      "sequencer_input g' = sequencer_input ?g1" "\<forall>fd. sent_to fd (wire g') = sent_to fd (wire ?g1) @ reports_to ?g1 fd as"
    by blast
  have "sent_to fd (wire g') = sent_to fd (wire g) @ reports_to g fd (a # as)" for fd
    using g'(5) reports_to_step [OF assms(1), of fd now a ?g as] by (simp add: reports_to_def)
  with g' q(1) show ?case
    by (subst drain_acks.simps) simp
qed

text \<open>
  (C23) Acknowledgements are routed. \<^verbatim>\<open>drain_acks\<close> empties the queue, and every peer that is still
  connected is sent its own acknowledgements as execution reports, in order and with
  consecutive sequence numbers; a peer that is gone is sent nothing and nobody receives
  another peer's reports.
\<close>
theorem acks_routed_in_order:
  assumes "delivers net" and "spsc_inv (ack_queue g)"
  shows "\<exists>g'. drain_acks net now g = Some g' \<and> spsc_list (ack_queue g') = [] \<and>
    (\<forall>fd. sent_to fd (wire g') = sent_to fd (wire g) @
      (case map_of (connections g) fd of
         None \<Rightarrow> []
       | Some c \<Rightarrow> report_frames (outbound_seq (session c)) (acks_for fd (spsc_list (ack_queue g)))))"
  using drain_acks_reports [OF assms refl, of now] by (auto simp: reports_to_def)

theorem acks_routed_in_order_witness:
  "\<exists>q g'. spsc_push (ack_queue demo_gateway) (quiet_ack\<lparr>ack_session_id := 7\<rparr>) = Some q \<and>
    drain_acks (\<lambda>k fd n. int n) 0 (demo_gateway\<lparr>ack_queue := q\<rparr>) = Some g' \<and>
    sent_to 7 (wire g') = frame_bytes Mt_ExecutionReport 0 (ack_report (quiet_ack\<lparr>ack_session_id := 7\<rparr>))"
proof -
  let ?a = "quiet_ack\<lparr>ack_session_id := 7\<rparr>"
  have q0: "spsc_inv (ack_queue demo_gateway)" "spsc_list (ack_queue demo_gateway) = []"
    using spsc_init_inv [OF pow2_4, of quiet_ack] by simp_all
  moreover have "length (spsc_list (ack_queue demo_gateway)) < length (buffer (ack_queue demo_gateway)) - 1"
    using q0(2) by (simp add: spsc_init_def)
  ultimately obtain q where q: "spsc_push (ack_queue demo_gateway) ?a = Some q" "spsc_inv q" "spsc_list q = [?a]"
    using sq.push_room [of "ack_queue demo_gateway" ?a] by (metis append_Nil)
  have net: "delivers (\<lambda>k fd n. int n)"
    by (simp add: delivers_def)
  from acks_routed_in_order [OF net, of "demo_gateway\<lparr>ack_queue := q\<rparr>" 0] q obtain g' where
    "drain_acks (\<lambda>k fd n. int n) 0 (demo_gateway\<lparr>ack_queue := q\<rparr>) = Some g'"
    "sent_to 7 (wire g') = sent_to 7 (wire demo_gateway) @ report_frames (outbound_seq (session connection_init)) (acks_for 7 [?a])"
    by (metis (no_types, lifting) demo_gateway(1) gateway.select_convs(2,4,5) gateway.surjective gateway.update_convs(4) option.case(2))
  with q(1) show ?thesis
    by (intro exI [of _ q] exI [of _ g']) (simp add: acks_for_def connection_init_def session_init_def demo_gateway_def
        accept_new_connection_def sent_to_def)
qed

section \<open>Heartbeats\<close>

definition after_heartbeat :: "int \<Rightarrow> ConnectionState \<Rightarrow> ConnectionState option" where
  "after_heartbeat now c =
     (if status (session c) \<noteq> LoggedOn then Some c
      else if is_peer_dead 2 now (session c) then None
      else if should_send_heartbeat now (session c)
      then Some (c\<lparr>session := mark_outbound_activity now (snd (next_outbound_seq (session c)))\<rparr>)
      else Some c)"

lemma check_heartbeat_lookup:
  "map_of (connections (check_heartbeat net now fd g)) fd' =
     (if fd' = fd then Option.bind (map_of (connections g) fd) (after_heartbeat now) else map_of (connections g) fd')"
  by (auto simp: check_heartbeat_def after_heartbeat_def close_connection_def umap_simps set_session_lookup send_on_lookup
      split: option.split)

lemma check_heartbeat_fold:
  "distinct fds \<Longrightarrow> map_of (connections (fold (check_heartbeat net now) fds g)) fd =
     (if fd \<in> set fds then Option.bind (map_of (connections g) fd) (after_heartbeat now) else map_of (connections g) fd)"
  by (induction fds arbitrary: g) (auto simp: check_heartbeat_lookup)

text \<open>
  Heartbeats treat every connection on its own: a logged-on peer that was silent for more
  than two intervals is removed, one that is owed a heartbeat has it numbered and noted, and
  every other connection is exactly as before.
\<close>
lemma check_heartbeats_lookup:
  assumes "umap_ok (connections g)"
  shows "map_of (connections (check_heartbeats net now g)) fd = Option.bind (map_of (connections g) fd) (after_heartbeat now)"
proof (cases "map_of (connections g) fd")
  case None
  then show ?thesis
    using assms check_heartbeat_fold [of "map fst (connections g)" net now g fd]
    by (simp add: check_heartbeats_def umap_ok_def)
next
  case (Some c)
  then have "fd \<in> set (map fst (connections g))"
    by (metis domI dom_map_of_conv_image_fst set_map)
  then show ?thesis
    using assms check_heartbeat_fold [of "map fst (connections g)" net now g fd]
    by (simp add: check_heartbeats_def umap_ok_def)
qed

section \<open>The invariant of the connection table\<close>

text \<open>
  Descriptors are unique; every session in the table waits for its logon or is logged on; no
  connection outside \<open>E\<close> holds a complete frame that was not dispatched; the queues are sound.
\<close>

definition live_status :: "SessionStatus \<Rightarrow> bool" where
  "live_status st \<longleftrightarrow> st = AwaitingLogon \<or> st = LoggedOn"

definition inv_except :: "int set \<Rightarrow> gateway \<Rightarrow> bool" where
  "inv_except E g \<longleftrightarrow> umap_ok (connections g) \<and> spsc_inv (sequencer_input g) \<and> spsc_inv (ack_queue g) \<and>
     (\<forall>fd c. map_of (connections g) fd = Some c \<longrightarrow> live_status (status (session c)) \<and> (fd \<notin> E \<longrightarrow> next_frame (reader c) = None))"

lemma inv_session:
  assumes "inv_except E g" and "live_status (status s)"
  shows "inv_except E (set_session fd s g)"
proof -
  have "umap_ok (connections (set_session fd s g))"
    using assms(1) by (simp add: inv_except_def set_session_def split: option.split)
  with assms show ?thesis
    by (auto simp: inv_except_def set_session_lookup split: if_splits)
qed

lemma inv_send:
  assumes "inv_except E g"
  shows "inv_except E (send_on net now fd ty body g)"
proof -
  have "umap_ok (connections (send_on net now fd ty body g))"
    using assms by (simp add: inv_except_def send_on_def set_session_def split: option.split prod.split)
  with assms show ?thesis
    by (auto simp: inv_except_def send_on_lookup split: if_splits)
qed

lemma inv_close: "inv_except (insert fd E) g \<Longrightarrow> inv_except E (close_connection fd (set_session fd s g))"
  by (auto simp: inv_except_def close_connection_def umap_simps set_session_lookup set_session_def split: option.split if_splits)

lemma inv_close_plain: "inv_except (insert fd E) g \<Longrightarrow> inv_except E (close_connection fd g)"
  by (auto simp: inv_except_def close_connection_def umap_simps split: if_splits)

lemma inv_mono: "inv_except E g \<Longrightarrow> E \<subseteq> F \<Longrightarrow> inv_except F g"
  unfolding inv_except_def by blast

lemma inv_gap:
  assumes "inv_except E g"
  shows "inv_except E (report_seq_gap_if_any net now fd q g)"
proof (cases "map_of (connections g) fd")
  case None
  with assms show ?thesis by (simp add: report_seq_gap_if_any_def)
next
  case (Some c)
  then have "live_status (status (session c))"
    using assms by (simp add: inv_except_def)
  then have "inv_except E (set_session fd (snd (track_inbound_seq now q (session c))) g)"
    using assms by (intro inv_session) simp_all
  with Some show ?thesis
    by (auto simp: report_seq_gap_if_any_def send_resend_request_def intro: inv_send split: option.split prod.split)
qed

lemma inv_push:
  assumes "inv_except E g"
  shows "inv_except E (push_or_reject net now fd ev g)"
proof (cases "spsc_push (sequencer_input g) ev")
  case None
  with assms show ?thesis by (simp add: push_or_reject_def send_execution_report_def inv_send)
next
  case (Some q)
  then have "spsc_inv q"
    using assms sq.push_Some [of "sequencer_input g" ev q] by (simp add: inv_except_def)
  with Some assms show ?thesis by (simp add: push_or_reject_def inv_except_def)
qed

lemma inv_dispatch:
  assumes "inv_except (insert fd E) g" and "dispatch net now fd f g = Some g'"
  shows "inv_except (insert fd E) g'"
proof -
  note push = inv_push [OF inv_gap [OF assms(1)], of net now fd _ net now fd "hdr_seq_num (decode_MsgHeader f)"]
  have close: "inv_except (insert fd E) (close_connection fd (set_session fd s g))" for s
    using inv_close [OF assms(1)] by (rule inv_mono) blast
  have logon: "inv_except (insert fd E) (send_logon_ack net now fd (set_session fd s g))" if "handle_logon t c h q s0 = (True, s)" for t c h q s0 s
    using that inv_send [OF inv_session [OF assms(1)], of s net now fd] by (auto simp: send_logon_ack_def handle_logon_def live_status_def split: if_splits)
  show ?thesis
    using assms(2) assms(1) inv_gap [OF assms(1), of net now fd "hdr_seq_num (decode_MsgHeader f)"] push close logon
    by (auto simp: dispatch_def dispatch_logon_def dispatch_new_order_def dispatch_cancel_order_def Let_def risk_check_def
        split: if_splits option.splits prod.splits MsgType.splits bool.splits)
qed

lemma inv_reader:
  assumes "inv_except (insert fd E) g"
  shows "inv_except (insert fd E) (set_reader fd r g)"
proof -
  have "umap_ok (connections (set_reader fd r g))" "ack_queue (set_reader fd r g) = ack_queue g"
    using assms by (simp_all add: inv_except_def set_reader_def split: option.split)
  with assms show ?thesis
    by (auto simp: inv_except_def set_reader_lookup split: if_splits)
qed

lemma inv_frames_loop:
  "inv_except (insert fd E) g \<Longrightarrow> frames_loop net now fd g = Some g' \<Longrightarrow> inv_except E g'"
proof (induction net now fd g rule: frames_loop.induct)
  case (1 net now fd g)
  obtain c where c: "map_of (connections g) fd = Some c"
    using 1(3) by (subst (asm) frames_loop.simps) (auto split: option.splits)
  show ?case
  proof (cases "next_frame (reader c)")
    case None
    with 1(3) c have "g' = g"
      by (subst (asm) frames_loop.simps) simp
    with None c 1(2) show ?thesis
      unfolding inv_except_def by (metis insertE option.inject)
  next
    case (Some x)
    obtain f r where x: "x = (f, r)" by (cases x)
    obtain g1 where g1: "dispatch net now fd f (set_reader fd r g) = Some g1" "frames_loop net now fd g1 = Some g'"
      using 1(3) c Some x by (subst (asm) frames_loop.simps) (auto split: option.splits)
    have "inv_except (insert fd E) g1"
      using inv_reader [OF 1(2)] g1(1) by (rule inv_dispatch)
    with 1(1) [OF c Some x [symmetric] g1(1)] g1(2) show ?thesis
      by blast
  qed
qed

lemma inv_recv_loop:
  "inv_except E g \<Longrightarrow> recv_loop net now fd rs g = Some g' \<Longrightarrow> inv_except E g'"
proof (induction net now fd rs g rule: recv_loop.induct)
  case (2 net now fd bs rs g)
  obtain c g1 where c: "map_of (connections g) fd = Some c"
    and g1: "frames_loop net now fd (set_reader fd (feed bs (reader c)) g) = Some g1" "recv_loop net now fd rs g1 = Some g'"
    using 2(3) by (auto split: option.splits)
  have "inv_except (insert fd E) g"
    using 2(2) by (rule inv_mono) blast
  then have "inv_except E g1"
    using inv_frames_loop [OF inv_reader g1(1)] by blast
  with 2(1) [OF c g1(1)] g1(2) show ?case
    by blast
qed (auto intro: inv_close_plain inv_mono)

lemma inv_accept:
  assumes "inv_except E g"
  shows "inv_except E (accept_new_connection fd g)"
proof -
  have "next_frame \<lparr>fr_buffer = []\<rparr> = None"
    by (simp add: next_frame_def sizeof_MsgHeader_def)
  then show ?thesis
    using assms by (auto simp: accept_new_connection_def inv_except_def umap_simps connection_init_def session_init_def live_status_def
        split: if_splits)
qed

lemma inv_handle_event:
  assumes "inv_except {} g" and "handle_event net now e g = Some g'"
  shows "inv_except {} g'"
proof -
  have "inv_except {} (close_connection fd g)" for fd
    using assms(1) by (intro inv_close_plain) (rule inv_mono, auto)
  then show ?thesis
    using assms inv_accept inv_recv_loop by (auto simp: handle_event_def handle_readable_def split: if_splits)
qed

lemma inv_check_heartbeat:
  assumes "inv_except {} g"
  shows "inv_except {} (check_heartbeat net now fd g)"
proof -
  have "inv_except {fd} g"
    using assms by (rule inv_mono) simp
  then have "inv_except {} (close_connection fd (set_session fd s g))" for s
    by (rule inv_close)
  then show ?thesis
    using assms inv_send [OF assms] by (auto simp: check_heartbeat_def split: option.split)
qed

lemma inv_drain_acks:
  assumes "inv_except {} g" and "spsc_list (ack_queue g) = as" and "drain_acks net now g = Some g'"
  shows "inv_except {} g'"
  using assms
proof (induction as arbitrary: g)
  case Nil
  then have "spsc_pop (ack_queue g) = None"
    using sq.pop_None by (auto simp: inv_except_def)
  with Nil show ?case by (subst (asm) drain_acks.simps) simp
next
  case (Cons a as)
  have "spsc_inv (ack_queue g)"
    using Cons.prems(1) by (simp add: inv_except_def)
  from sq.pop_Cons [OF this Cons.prems(2)] obtain q where
    q: "spsc_pop (ack_queue g) = Some (a, q)" "spsc_inv q" "spsc_list q = as"
    by blast
  let ?g1 = "send_on net now (sint (ack_session_id a)) Mt_ExecutionReport (ack_report a) (g\<lparr>ack_queue := q\<rparr>)"
  have "inv_except {} (g\<lparr>ack_queue := q\<rparr>)"
    using Cons.prems(1) q(2) by (simp add: inv_except_def)
  then have "inv_except {} ?g1"
    by (rule inv_send)
  moreover have "drain_acks net now ?g1 = Some g'"
    using Cons.prems(3) q(1) by (subst (asm) drain_acks.simps) simp
  ultimately show ?case
    using q(3) by (intro Cons.IH) simp_all
qed

lemma inv_events:
  "inv_except {} g \<Longrightarrow> fold_opt (handle_event net now) events g = Some g' \<Longrightarrow> inv_except {} g'"
  by (induction events arbitrary: g) (auto split: option.splits intro: inv_handle_event)

lemma inv_heartbeats: "inv_except {} g \<Longrightarrow> inv_except {} (check_heartbeats net now g)"
proof -
  have "inv_except {} h \<Longrightarrow> inv_except {} (fold (check_heartbeat net now) fds h)" for fds h
    by (induction fds arbitrary: h) (simp_all add: inv_check_heartbeat)
  then show "inv_except {} g \<Longrightarrow> ?thesis"
    by (simp add: check_heartbeats_def)
qed

text \<open>
  The connection table is well formed at all times. Whatever the network delivers and whatever
  \<^verbatim>\<open>send\<close> answers, a round of the event loop that completes leaves each descriptor in the table at
  most once, every session in it waiting for its logon or logged on (ended sessions are not kept),
  less than one maximal frame buffered per connection, and both queues sound.
\<close>
lemma poll_once_keeps_table_ok:
  assumes "inv_except {} g" and "poll_once net now events g = Some g'"
  shows "inv_except {} g' \<and>
    (\<forall>fd c. map_of (connections g') fd = Some c \<longrightarrow>
       (status (session c) = AwaitingLogon \<or> status (session c) = LoggedOn) \<and> length (fr_buffer (reader c)) < 7 + 65536)"
proof -
  obtain g1 where g1: "fold_opt (handle_event net now) events g = Some g1" "drain_acks net now (check_heartbeats net now g1) = Some g'"
    using assms(2) by (auto simp: poll_once_def split: option.splits)
  have inv: "inv_except {} g'"
    using inv_drain_acks [OF inv_heartbeats [OF inv_events [OF assms(1) g1(1)]] refl g1(2)] .
  then show ?thesis
    using next_frame_None_bound by (auto simp: inv_except_def live_status_def sizeof_MsgHeader_def)
qed

end
