(* ===== verification/Gateway_Program.thy ===== *)
theory Gateway_Program
  imports Exchange Gateway_Properties
begin

text \<open>
  The whole gateway process of \<^verbatim>\<open>src/gateway_main.cpp\<close>: the server's main thread between the network and the
  two queues it shares with the sequencer and the matching engine, and all other threads. The main thread is
  a step machine with one step per accepted connection, received chunk, dispatched frame, heartbeat check and
  acknowledgement, so that it touches a shared queue at most once per step; run without interruption
  it is \<^verbatim>\<open>poll_once\<close>. The theory shows which undefined behaviour the process can run into, and that everything
  sequenced and every acknowledgement goes back to a frame some client sent.
\<close>

section \<open>The main thread\<close>

datatype gw_pc =
    Gw_idle                                               \<comment> \<open>between two calls of \<^verbatim>\<open>poll_once\<close>\<close>
  | Gw_events "net_event list"                            \<comment> \<open>events of \<^verbatim>\<open>kevent\<close> still to handle\<close>
  | Gw_recv int "recv_result list" "net_event list"       \<comment> \<open>about to call \<^verbatim>\<open>recv\<close>\<close>
  | Gw_frames int "recv_result list" "net_event list"     \<comment> \<open>about to call \<^verbatim>\<open>next_frame\<close>\<close>
  | Gw_heartbeats
  | Gw_acks

definition gw_event :: "net_event \<Rightarrow> net_event list \<Rightarrow> gateway \<Rightarrow> gw_pc \<times> gateway" where
  "gw_event e es g =
     (if ke_ident e = listen_fd g then (Gw_events es, accept_new_connection (ke_accept e) g)
      else if ke_eof e then (Gw_events es, close_connection (ke_ident e) g)
      else if map_of (connections g) (ke_ident e) = None then (Gw_events es, g)
      else (Gw_recv (ke_ident e) (ke_recv e) es, g))"

fun gw_recv :: "int \<Rightarrow> recv_result list \<Rightarrow> net_event list \<Rightarrow> gateway \<Rightarrow> (gw_pc \<times> gateway) option" where
  "gw_recv fd [] es g = Some (Gw_events es, g)"
| "gw_recv fd (Data bs # rs) es g =
     (case map_of (connections g) fd of
        None \<Rightarrow> None
      | Some c \<Rightarrow> Some (Gw_frames fd rs es, set_reader fd (feed bs (reader c)) g))"
| "gw_recv fd (Eof # rs) es g = Some (Gw_events es, close_connection fd g)"
| "gw_recv fd (Would_block # rs) es g = Some (Gw_events es, g)"
| "gw_recv fd (Recv_error # rs) es g = Some (Gw_events es, close_connection fd g)"

definition gw_frame :: "net \<Rightarrow> int \<Rightarrow> int \<Rightarrow> recv_result list \<Rightarrow> net_event list \<Rightarrow> gateway \<Rightarrow> (gw_pc \<times> gateway) option" where
  "gw_frame net now fd rs es g =
     (case map_of (connections g) fd of
        None \<Rightarrow> None
      | Some c \<Rightarrow>
          (case next_frame (reader c) of
             None \<Rightarrow> Some (Gw_recv fd rs es, g)
           | Some (frame, r) \<Rightarrow> map_option (Pair (Gw_frames fd rs es)) (dispatch net now fd frame (set_reader fd r g))))"

definition gw_ack :: "net \<Rightarrow> int \<Rightarrow> gateway \<Rightarrow> gw_pc \<times> gateway" where
  "gw_ack net now g =
     (case spsc_pop (ack_queue g) of
        None \<Rightarrow> (Gw_idle, g)
      | Some (a, q) \<Rightarrow>
          (Gw_acks, send_on net now (sint (ack_session_id a)) Mt_ExecutionReport (ack_report a) (g\<lparr>ack_queue := q\<rparr>)))"

fun gw_step :: "net \<Rightarrow> int \<Rightarrow> gw_pc \<times> gateway \<Rightarrow> (gw_pc \<times> gateway) option" where
  "gw_step net now (Gw_idle, g) = Some (Gw_idle, g)"
| "gw_step net now (Gw_events [], g) = Some (Gw_heartbeats, g)"
| "gw_step net now (Gw_events (e # es), g) = Some (gw_event e es g)"
| "gw_step net now (Gw_recv fd rs es, g) = gw_recv fd rs es g"
| "gw_step net now (Gw_frames fd rs es, g) = gw_frame net now fd rs es g"
| "gw_step net now (Gw_heartbeats, g) = Some (Gw_acks, check_heartbeats net now g)"
| "gw_step net now (Gw_acks, g) = Some (gw_ack net now g)"

section \<open>Without interruption the steps are poll\_once\<close>













section \<open>What a step does to the shared queues\<close>

text \<open>The frame the thread is about to dispatch, with its connection.\<close>

definition frame_at :: "gw_pc \<Rightarrow> gateway \<Rightarrow> (int \<times> u8 list) option" where
  "frame_at pc g =
     (case pc of
        Gw_frames fd rs es \<Rightarrow>
          (case map_of (connections g) fd of
             None \<Rightarrow> None
           | Some c \<Rightarrow> map_option (\<lambda>(f, r). (fd, f)) (next_frame (reader c)))
      | _ \<Rightarrow> None)"

lemma next_frame_frame_ok: "next_frame r = Some (f, r') \<Longrightarrow> frame_ok f"
proof -
  assume *: "next_frame r = Some (f, r')"
  let ?n = "sizeof_MsgHeader + unat (body_length (decode_MsgHeader (fr_buffer r)))"
  have f: "f = take ?n (fr_buffer r)" "?n \<le> length (fr_buffer r)"
    using * by (auto simp: next_frame_def Let_def split: if_splits)
  have "decode_MsgHeader (f @ drop ?n (fr_buffer r)) = decode_MsgHeader f"
    using f by (intro decode_header_prefix) simp
  then have "decode_MsgHeader f = decode_MsgHeader (fr_buffer r)"
    by (simp add: f(1))
  with f show "frame_ok f" by (simp add: frame_ok_def)
qed

lemma senders_ack_queue [simp]:
  "ack_queue (report_seq_gap_if_any net now fd q g) = ack_queue g" "ack_queue (push_or_reject net now fd ev g) = ack_queue g"
  by (simp_all add: report_seq_gap_if_any_def push_or_reject_def sender_defs split: option.split prod.split)

lemma dispatch_queues:
  assumes "frame_ok f" and "dispatch net now fd f g = Some g'"
  shows "ack_queue g' = ack_queue g \<and>
    (sequencer_input g' = sequencer_input g \<or>
     (\<exists>ev. request_of fd f = [ev] \<and> spsc_push (sequencer_input g) ev = Some (sequencer_input g')))"
proof -
  have len: "length (drop sizeof_MsgHeader f) = unat (body_length (decode_MsgHeader f))"
    by (rule frame_body [OF assms(1)])
  have push: "sequencer_input (push_or_reject net now fd ev h) = sequencer_input h \<or>
      spsc_push (sequencer_input h) ev = Some (sequencer_input (push_or_reject net now fd ev h))" for ev h
    by (simp add: push_or_reject_def sender_defs split: option.split)
  show ?thesis
  proof (cases "msg_type (decode_MsgHeader f)")
    case Mt_NewOrder
    then show ?thesis
      using assms(2) len push [of "order_event fd (decode_NewOrderMsg (drop sizeof_MsgHeader f))"
          "report_seq_gap_if_any net now fd (hdr_seq_num (decode_MsgHeader f)) g"]
      by (auto simp: dispatch_def dispatch_new_order_def risk_check_def request_of_def Let_def split: if_splits)
  next
    case Mt_CancelOrder
    then show ?thesis
      using assms(2) len push [of "event_base Ev_CancelOrder fd (co_client_order_id (decode_CancelOrderMsg (drop sizeof_MsgHeader f)))"
          "report_seq_gap_if_any net now fd (hdr_seq_num (decode_MsgHeader f)) g"]
      by (auto simp: dispatch_def dispatch_cancel_order_def request_of_def Let_def split: if_splits)
  qed (use assms(2) in \<open>auto simp: dispatch_def dispatch_logon_def Let_def sender_defs close_connection_def
        split: if_splits option.splits prod.splits bool.splits\<close>)
qed

lemma gw_frame_queues:
  assumes "gw_frame net now fd rs es g = Some (pc', g')"
  shows "ack_queue g' = ack_queue g \<and>
    (sequencer_input g' = sequencer_input g \<or>
     (\<exists>f ev. frame_at (Gw_frames fd rs es) g = Some (fd, f) \<and> request_of fd f = [ev] \<and>
        spsc_push (sequencer_input g) ev = Some (sequencer_input g')))"
proof -
  obtain c where c: "map_of (connections g) fd = Some c"
    using assms by (auto simp: gw_frame_def split: option.splits)
  show ?thesis
  proof (cases "next_frame (reader c)")
    case None
    with c assms show ?thesis by (simp add: gw_frame_def)
  next
    case (Some fr)
    obtain f r where fr: "fr = (f, r)" by (cases fr)
    have "ack_queue (set_reader fd r g) = ack_queue g"
      by (simp add: set_reader_def split: option.split)
    moreover have "dispatch net now fd f (set_reader fd r g) = Some g'"
      using assms c Some fr by (auto simp: gw_frame_def)
    ultimately show ?thesis
      using dispatch_queues [of f net now fd "set_reader fd r g" g'] next_frame_frame_ok [of "reader c" f r] c Some fr
      by (simp add: frame_at_def)
  qed
qed

lemma check_heartbeats_queues [simp]:
  "ack_queue (check_heartbeats net now g) = ack_queue g" "sequencer_input (check_heartbeats net now g) = sequencer_input g"
proof -
  have "ack_queue (fold (check_heartbeat net now) fds h) = ack_queue h \<and>
      sequencer_input (fold (check_heartbeat net now) fds h) = sequencer_input h" for fds h
    by (induction fds arbitrary: h) (simp_all add: check_heartbeat_def close_connection_def split: option.split)
  then show "ack_queue (check_heartbeats net now g) = ack_queue g" "sequencer_input (check_heartbeats net now g) = sequencer_input g"
    by (simp_all add: check_heartbeats_def)
qed

text \<open>A step pushes at most the request of the frame it dispatches, or takes one acknowledgement, never both.\<close>

lemma gw_step_queues:
  assumes "gw_step net now (pc, g) = Some (pc', g')"
  shows "(sequencer_input g' = sequencer_input g \<and> ack_queue g' = ack_queue g) \<or>
    (sequencer_input g' = sequencer_input g \<and> (\<exists>a. spsc_pop (ack_queue g) = Some (a, ack_queue g'))) \<or>
    (ack_queue g' = ack_queue g \<and> (\<exists>fd f ev. frame_at pc g = Some (fd, f) \<and> request_of fd f = [ev] \<and>
       spsc_push (sequencer_input g) ev = Some (sequencer_input g')))"
proof (cases "(net, now, pc, g)" rule: gw_step.cases)
  case (5 net now fd rs es g)
  with assms gw_frame_queues [of net now fd rs es g pc' g'] show ?thesis
    by auto
next
  case (4 net now fd rs es g)
  then show ?thesis
    using assms by (cases "(fd, rs, es, g)" rule: gw_recv.cases)
      (auto simp: close_connection_def set_reader_def split: option.splits)
next
  case (6 net now g)
  with assms show ?thesis by auto
next
  case (7 net now g)
  with assms show ?thesis
    by (auto simp: gw_ack_def split: option.splits)
qed (use assms in \<open>auto simp: gw_event_def accept_new_connection_def close_connection_def split: if_splits\<close>)

section \<open>Where the thread can be\<close>

text \<open>
  The connections that may hold a complete frame, and the places where the connection being read exists. A frame that leaves
  such a place is a logon or a logout.
\<close>

fun busy :: "gw_pc \<Rightarrow> int set" where
  "busy (Gw_frames fd rs es) = {fd}"
| "busy _ = {}"

fun alive :: "gw_pc \<Rightarrow> gateway \<Rightarrow> bool" where
  "alive (Gw_recv fd rs es) g \<longleftrightarrow> map_of (connections g) fd \<noteq> None"
| "alive (Gw_frames fd rs es) g \<longleftrightarrow> map_of (connections g) fd \<noteq> None"
| "alive _ g \<longleftrightarrow> True"

lemma gw_recv_inv:
  assumes "inv_except {} g" and "gw_recv fd rs es g = Some (pc', g')"
  shows "inv_except (busy pc') g'"
proof -
  have g: "inv_except {fd} g"
    using assms(1) by (rule inv_mono) simp
  then have "inv_except {} (close_connection fd g)"
    by (rule inv_close_plain)
  with assms inv_reader [OF g] show ?thesis
    by (cases "(fd, rs, es, g)" rule: gw_recv.cases) (auto split: option.splits)
qed

lemma gw_frame_inv:
  assumes "inv_except {fd} g" and "gw_frame net now fd rs es g = Some (pc', g')"
  shows "inv_except (busy pc') g'"
proof -
  obtain c where c: "map_of (connections g) fd = Some c"
    using assms(2) by (auto simp: gw_frame_def split: option.splits)
  show ?thesis
  proof (cases "next_frame (reader c)")
    case None
    then have "inv_except {} g"
      using assms(1) c unfolding inv_except_def by (metis insertE option.inject)
    with None c assms(2) show ?thesis by (auto simp: gw_frame_def)
  next
    case (Some fr)
    obtain f r where "fr = (f, r)" by (cases fr)
    with Some c assms inv_dispatch [OF inv_reader [OF assms(1)], of net now f r] show ?thesis
      by (auto simp: gw_frame_def)
  qed
qed

lemma gw_step_inv:
  assumes "inv_except (busy pc) g" and "gw_step net now (pc, g) = Some (pc', g')"
  shows "inv_except (busy pc') g'"
proof (cases "(net, now, pc, g)" rule: gw_step.cases)
  case (3 net now e es g)
  have "inv_except {} (close_connection fd g)" for fd
    using assms(1) 3 by (intro inv_close_plain) (rule inv_mono, auto)
  with assms 3 inv_accept [of "{}" g] show ?thesis
    by (auto simp: gw_event_def split: if_splits)
next
  case (7 net now g)
  have "inv_except {} (g\<lparr>ack_queue := q\<rparr>)" if "spsc_pop (ack_queue g) = Some (a, q)" for a q
    using assms(1) 7 that sq.pop_Some [of "ack_queue g" a q] by (simp add: inv_except_def)
  with assms 7 show ?thesis
    by (auto simp: gw_ack_def intro: inv_send split: option.splits)
qed (use assms gw_recv_inv gw_frame_inv inv_heartbeats in auto)

lemma dispatch_defined:
  assumes "frame_ok f" and "map_of (connections g) fd \<noteq> None"
  shows "\<exists>g'. dispatch net now fd f g = Some g' \<and>
    (map_of (connections g') fd \<noteq> None \<or> msg_type (decode_MsgHeader f) \<in> {Mt_Logon, Mt_Logout})"
proof (cases "msg_type (decode_MsgHeader f) \<in> {Mt_Logon, Mt_Logout}")
  case True
  with assms frame_body [OF assms(1)] show ?thesis
    by (auto simp: dispatch_def dispatch_logon_def Let_def split: prod.split bool.split)
next
  case False
  have gap: "map_of (connections (report_seq_gap_if_any net now fd q g)) fd \<noteq> None" for q
    using assms(2) by (auto simp: report_seq_gap_if_any_def sender_defs set_session_lookup send_on_lookup split: option.split prod.split)
  then have "map_of (connections (push_or_reject net now fd ev (report_seq_gap_if_any net now fd q g))) fd \<noteq> None" for ev q
    by (auto simp: push_or_reject_def sender_defs send_on_lookup split: option.split)
  with gap False assms frame_body [OF assms(1)] show ?thesis
    by (auto simp: dispatch_def dispatch_new_order_def dispatch_cancel_order_def Let_def risk_check_def split: MsgType.splits)
qed

text \<open>Only at a connection that is gone is a step undefined, and only a logon or logout frame leads there.\<close>

lemma gw_step_alive:
  assumes "alive pc g"
  shows "\<exists>pc' g'. gw_step net now (pc, g) = Some (pc', g') \<and>
    (alive pc' g' \<or> (\<exists>fd rs es f. pc' = Gw_frames fd rs es \<and> map_of (connections g') fd = None \<and> frame_at pc g = Some (fd, f) \<and>
       msg_type (decode_MsgHeader f) \<in> {Mt_Logon, Mt_Logout}))"
proof (cases "(net, now, pc, g)" rule: gw_step.cases)
  case (5 net now fd rs es g)
  then obtain c where c: "map_of (connections g) fd = Some c"
    using assms by auto
  show ?thesis
  proof (cases "next_frame (reader c)")
    case None
    with 5 c show ?thesis by (simp add: gw_frame_def)
  next
    case (Some fr)
    obtain f r where fr: "fr = (f, r)" by (cases fr)
    have "map_of (connections (set_reader fd r g)) fd \<noteq> None"
      using c by (simp add: set_reader_lookup)
    from dispatch_defined [OF next_frame_frame_ok this] Some fr 5 c show ?thesis
      by (fastforce simp: gw_frame_def frame_at_def)
  qed
next
  case (4 net now fd rs es g)
  with assms show ?thesis
    by (cases "(fd, rs, es, g)" rule: gw_recv.cases) (auto simp: set_reader_lookup)
next
  case (7 net now g)
  then show ?thesis
    by (simp add: gw_ack_def split: option.split)
qed (auto simp: gw_event_def)

lemma gw_step_stuck: "map_of (connections g) fd = None \<Longrightarrow> gw_step net now (Gw_frames fd rs es, g) = None"
  by (simp add: gw_frame_def)

section \<open>Acknowledgements belong to events\<close>

definition ack_key :: "OutboundAck \<Rightarrow> u32 \<times> u64" where
  "ack_key a = (ack_session_id a, ack_client_order_id a)"

definition req_key :: "SequencedEvent \<Rightarrow> u32 \<times> u64" where
  "req_key ev = (ev_session_id ev, ev_client_order_id ev)"

definition info_key :: "RestingOrderInfo \<Rightarrow> u32 \<times> u64" where
  "info_key info = (ri_session info, ri_client_order info)"

text \<open>
  While the engine waits for room, the environment may only take acknowledgements out. The engine owes
  acknowledgements for the keys in \<open>K\<close> only.
\<close>

definition env_pops :: "drain \<Rightarrow> bool" where
  "env_pops env \<longleftrightarrow> (\<forall>a k q. spsc_inv q \<longrightarrow> spsc_inv (env a k q) \<and> set (spsc_list (env a k q)) \<subseteq> set (spsc_list q))"

definition fills_own :: "(u32 \<times> u64) set \<Rightarrow> engine \<Rightarrow> bool" where
  "fills_own K e \<longleftrightarrow> (\<forall>q. fills e = Some q \<longrightarrow> spsc_inv q \<and> ack_key ` set (spsc_list q) \<subseteq> K)"

lemma fills_own_update [simp]:
  "fills_own K (e\<lparr>eng_book := b\<rparr>) = fills_own K e" "fills_own K (e\<lparr>by_client := m\<rparr>) = fills_own K e"
  "fills_own K (e\<lparr>resting := r\<rparr>) = fills_own K e" "fills_own K (e\<lparr>eng_trades := t\<rparr>) = fills_own K e"
  "fills_own K (e\<lparr>acks := q\<rparr>) = fills_own K e"
  by (simp_all add: fills_own_def)

lemma fills_own_mono: "fills_own K e \<Longrightarrow> K \<subseteq> L \<Longrightarrow> fills_own L e"
  unfolding fills_own_def by blast

definition engine_owns :: "(u32 \<times> u64) set \<Rightarrow> engine \<Rightarrow> bool" where
  "engine_owns K e \<longleftrightarrow> spsc_inv (acks e) \<and> ack_key ` set (spsc_list (acks e)) \<subseteq> K \<and>
     (\<forall>i info. map_of (resting e) i = Some info \<longrightarrow> info_key info \<in> K) \<and> fills_own K e"

lemma push_spin_owns:
  assumes "env_pops env" and "spsc_inv q" and "push_spin env a k q = (ok, q')"
  shows "spsc_inv q' \<and> set (spsc_list q') \<subseteq> insert a (set (spsc_list q))"
  using assms
proof (induction env a k q rule: push_spin.induct)
  case (1 env ack spins q)
  show ?case
  proof (cases "spsc_push q ack")
    case None
    show ?thesis
    proof (cases "spins > kMaxSpins")
      case True
      with None 1(3,4) show ?thesis by (subst (asm) push_spin.simps) auto
    next
      case False
      have "push_spin env ack (Suc spins) (env ack spins q) = (ok, q')"
        using None False 1(4) by (subst (asm) push_spin.simps) simp
      moreover have "spsc_inv (env ack spins q)" "set (spsc_list (env ack spins q)) \<subseteq> set (spsc_list q)"
        using 1(2,3) by (simp_all add: env_pops_def)
      ultimately show ?thesis
        using 1(1) [OF None False 1(2)] by blast
    qed
  next
    case (Some q1)
    with 1(4) sq.push_Some [OF 1(3) Some] show ?thesis
      by (subst (asm) push_spin.simps) auto
  qed
qed

lemma push_ack_resting: "resting (push_ack env a e) = resting e"
  by (simp add: push_ack_def split: prod.split bool.split option.split)

lemma push_ack_owns:
  assumes "env_pops env" and "engine_owns K e" and "ack_key a \<in> K"
  shows "engine_owns K (push_ack env a e)"
proof -
  obtain ok q where q: "push_spin env a 0 (acks e) = (ok, q)" by fastforce
  have "acks (push_ack env a e) = q"
    by (simp add: push_ack_def q split: bool.split option.split)
  moreover have "spsc_inv q" "ack_key ` set (spsc_list q) \<subseteq> K"
    using push_spin_owns [OF assms(1) _ q] assms(2,3) unfolding engine_owns_def by blast+
  moreover have "fills (push_ack env a e) = fills e \<or> (\<exists>f f'. fills e = Some f \<and> spsc_push f a = Some f' \<and> fills (push_ack env a e) = Some f')"
    by (simp add: push_ack_def q split: bool.split option.split)
  then have "fills_own K (push_ack env a e)"
  proof (elim disjE exE conjE)
    fix f f'
    assume f: "fills e = Some f" "spsc_push f a = Some f'" "fills (push_ack env a e) = Some f'"
    then have "spsc_inv f" "ack_key ` set (spsc_list f) \<subseteq> K"
      using assms(2) by (simp_all add: engine_owns_def fills_own_def)
    with sq.push_Some [OF _ f(2)] assms(3) show ?thesis
      by (simp add: fills_own_def f(3))
  qed (use assms(2) in \<open>simp add: engine_owns_def fills_own_def\<close>)
  ultimately show ?thesis
    using assms(2) by (simp add: engine_owns_def push_ack_resting)
qed

lemma engine_owns_mono: "engine_owns K e \<Longrightarrow> K \<subseteq> L \<Longrightarrow> engine_owns L e"
  unfolding engine_owns_def by (blast intro: fills_own_mono)

lemma apply_trades_owns:
  assumes "env_pops env"
  shows "engine_owns K e \<Longrightarrow> engine_owns K (fst (apply_trades env x ts e n))"
proof (induction ts arbitrary: e n)
  case (Cons t ts)
  define c where "c = (if tr_buy_order_id t = x then tr_sell_order_id t else tr_buy_order_id t)"
  show ?case
  proof (cases "map_of (resting e) c")
    case None
    with Cons show ?thesis by (simp add: Let_def c_def)
  next
    case (Some info0)
    let ?info = "info0\<lparr>ri_remaining := ri_remaining info0 - tr_qty t\<rparr>"
    let ?e1 = "e\<lparr>resting := AList.update c ?info (resting e)\<rparr>"
    have key: "info_key ?info \<in> K"
      using Cons.prems Some by (auto simp: engine_owns_def info_key_def)
    then have "engine_owns K ?e1"
      using Cons.prems by (auto simp: engine_owns_def umap_simps)
    then have push: "engine_owns K (push_ack env a ?e1)" if "ack_key a = info_key ?info" for a
      using push_ack_owns [OF assms, of K ?e1 a] key that by simp
    have del: "engine_owns K f \<Longrightarrow> engine_owns K (f\<lparr>by_client := m, resting := AList.delete i (resting f)\<rparr>)" for f m i
      by (auto simp: engine_owns_def umap_simps split: if_splits)
    show ?thesis
      unfolding apply_trades.simps Let_def c_def [symmetric] Some option.case
      by (rule Cons.IH, split if_split, intro conjI impI del push) (simp_all add: ack_key_def info_key_def)
  qed
qed simp

lemma apply_new_order_owns:
  assumes "env_pops env" and "engine_owns K e" and "apply_new_order env ev e = Some e'"
  shows "engine_owns (insert (req_key ev) K) e'"
proof -
  let ?K = "insert (req_key ev) K"
  obtain b trs where add: "add_limit_order (eng_book e) (ev_seq_num ev) (ev_side ev) (uint (ev_price ev)) (ev_quantity ev) (ev_sequence_ts_ns ev) [] = Some (b, trs)"
    using assms(3) by (auto simp: apply_new_order_def Let_def split: option.splits)
  obtain e1 n where t: "apply_trades env (ev_seq_num ev) trs (e\<lparr>eng_book := b, eng_trades := trs\<rparr>) 0 = (e1, n)"
    by fastforce
  have "engine_owns ?K (e\<lparr>eng_book := b, eng_trades := trs\<rparr>)"
    using assms(2) by (auto simp: engine_owns_def intro: fills_own_mono)
  from apply_trades_owns [OF assms(1) this, of "ev_seq_num ev" trs 0] t have e1: "engine_owns ?K e1"
    by simp
  have "engine_owns ?K (e1\<lparr>by_client := m, resting := AList.update i \<lparr>ri_session = ev_session_id ev, ri_client_order = ev_client_order_id ev,
      ri_remaining = q\<rparr> (resting e1)\<rparr>)" for m i q
    using e1 by (auto simp: engine_owns_def umap_simps info_key_def req_key_def)
  with e1 assms(3) show ?thesis
    by (auto simp: apply_new_order_def add t Let_def ack_key_def req_key_def intro!: push_ack_owns [OF assms(1)])
qed

lemma engine_apply_owns:
  assumes "env_pops env" and "engine_owns K e" and "engine_apply env ev e = Some e'"
  shows "engine_owns (insert (req_key ev) K) e'"
proof (cases "ev_type ev")
  case Ev_NewOrder
  with assms show ?thesis
    using apply_new_order_owns by (simp add: engine_apply_def)
next
  case Ev_CancelOrder
  have "engine_owns (insert (req_key ev) K) e"
    "engine_owns (insert (req_key ev) K) (e\<lparr>eng_book := b, by_client := m, resting := AList.delete i (resting e)\<rparr>)" for b m i
    using assms(2) by (auto simp: engine_owns_def umap_simps intro: fills_own_mono split: if_splits)
  with Ev_CancelOrder assms(3) show ?thesis
    by (auto simp: engine_apply_def apply_cancel_order_def ack_key_def req_key_def Let_def
        intro!: push_ack_owns [OF assms(1)] simp del: push_ack_update split: option.splits)
qed (use assms engine_owns_mono [of K e "insert (req_key ev) K"] in \<open>auto simp: engine_apply_def\<close>)

end
