(* ===== verification/Gateway_Process.thy ===== *)
theory Gateway_Process
  imports Gateway_Program
begin

text \<open>
  The process as a whole: the main thread of \<open>Gateway_Program\<close> and the threads of \<open>Exchange\<close> share the sequencer's
  first input queue and the queue of acknowledgements, and take steps in any order. Two components of the state are history only:
  \<open>pg_frames\<close> lists the dispatched frames with their connections, and \<open>x_pushed\<close> the accepted pushes.
\<close>

section \<open>State, start and steps\<close>

record 'd process =
  pg_x :: "'d exchange"
  pg_gw :: gateway
  pg_pc :: gw_pc
  pg_frames :: "(int \<times> u8 list) list"

datatype main_error = Consumers_failed start_error | Server_failed

text \<open>When the server cannot start, the consumers are stopped as in the normal shutdown.\<close>

definition process_start ::
  "'d sqlite \<Rightarrow> bool \<Rightarrow> int \<Rightarrow> int \<Rightarrow> int \<times> int \<times> int \<times> int \<Rightarrow> 'd exchange \<Rightarrow> main_error + 'd process" where
  "process_start api can_open wal_now db_now sockets x =
     (case exchange_start api can_open wal_now db_now x of
        Inl e \<Rightarrow> Inl (Consumers_failed e)
      | Inr x0 \<Rightarrow>
          (case sockets of
             (sock, bound, listening, kq) \<Rightarrow>
               (case server_start sock bound listening kq (server_init (inputs (x_seq x0) ! 0) (acks (x_engine x0))) of
                  (False, g) \<Rightarrow> Inl Server_failed
                | (True, g) \<Rightarrow> Inr \<lparr>pg_x = x0, pg_gw = g, pg_pc = Gw_idle, pg_frames = []\<rparr>)))"

text \<open>What the main thread sees of the shared queues, and what it leaves in them.\<close>

definition gw_view :: "'d process \<Rightarrow> gateway" where
  "gw_view s = (pg_gw s)\<lparr>sequencer_input := inputs (x_seq (pg_x s)) ! 0, ack_queue := acks (x_engine (pg_x s))\<rparr>"

definition take_back :: "gateway \<Rightarrow> 'd exchange \<Rightarrow> 'd exchange" where
  "take_back g x = x\<lparr>x_seq := (x_seq x)\<lparr>inputs := (inputs (x_seq x))[0 := sequencer_input g]\<rparr>,
     x_engine := (x_engine x)\<lparr>acks := ack_queue g\<rparr>,
     x_pushed := x_pushed x @ map (Pair 0) (drop (length (spsc_list (inputs (x_seq x) ! 0))) (spsc_list (sequencer_input g)))\<rparr>"

definition main_step :: "net \<Rightarrow> int \<Rightarrow> 'd process \<Rightarrow> 'd process option" where
  "main_step net now s =
     (case gw_step net now (pg_pc s, gw_view s) of
        None \<Rightarrow> None
      | Some (pc, g) \<Rightarrow>
          Some \<lparr>pg_x = take_back g (pg_x s), pg_gw = g, pg_pc = pc,
                pg_frames = pg_frames s @ (case frame_at (pg_pc s) (gw_view s) of None \<Rightarrow> [] | Some ff \<Rightarrow> [ff])\<rparr>)"

datatype p_action =
    P_thread x_action               \<comment> \<open>one of the other threads\<close>
  | P_poll "net_event list"         \<comment> \<open>\<^verbatim>\<open>kevent\<close> returns with these events\<close>
  | P_main int                      \<comment> \<open>the main thread, at this time\<close>

fun p_act :: "'d surroundings \<Rightarrow> net \<Rightarrow> p_action \<Rightarrow> 'd process \<Rightarrow> 'd process option" where
  "p_act en net (P_thread a) s = map_option (\<lambda>x. s\<lparr>pg_x := x\<rparr>) (x_act en a (pg_x s))"
| "p_act en net (P_poll es) s = Some (if pg_pc s = Gw_idle then s\<lparr>pg_pc := Gw_events es\<rparr> else s)"
| "p_act en net (P_main now) s = main_step net now s"

text \<open>Only the main thread pushes requests and takes acknowledgements.\<close>

fun p_act_ok :: "p_action \<Rightarrow> bool" where
  "p_act_ok (P_thread (X_seq (Produce p ev))) \<longleftrightarrow> False"
| "p_act_ok (P_thread (X_seq (Read cid))) \<longleftrightarrow> False"
| "p_act_ok (P_thread X_ack) \<longleftrightarrow> False"
| "p_act_ok (P_thread (X_match env)) \<longleftrightarrow> env_pops env"
| "p_act_ok _ \<longleftrightarrow> True"

section \<open>The invariant\<close>

definition requests_in :: "(int \<times> u8 list) list \<Rightarrow> SequencedEvent list" where
  "requests_in ffs = concat (map (\<lambda>(fd, f). request_of fd f) ffs)"

text \<open>
  Everything in the exchange goes back to the frames: the pushes are requests of them, in order, and the engine
  owes acknowledgements for the keys of pushes only.
\<close>

definition pushed_keys :: "'d exchange \<Rightarrow> (u32 \<times> u64) set" where
  "pushed_keys x = req_key ` snd ` set (x_pushed x)"

definition traced :: "'d process \<Rightarrow> bool" where
  "traced s \<longleftrightarrow> (\<forall>a \<in> set (x_pushed (pg_x s)). fst a = 0) \<and>
     subseq (map snd (x_pushed (pg_x s))) (requests_in (pg_frames s)) \<and>
     engine_owns (pushed_keys (pg_x s)) (x_engine (pg_x s))"

text \<open>
  The connection being read is gone: the last frame closed it, a logon or a logout.
\<close>

definition at_closed :: "'d process \<Rightarrow> bool" where
  "at_closed s \<longleftrightarrow> (\<exists>fd rs es f. pg_pc s = Gw_frames fd rs es \<and> map_of (connections (pg_gw s)) fd = None \<and>
     pg_frames s \<noteq> [] \<and> last (pg_frames s) = (fd, f) \<and> msg_type (decode_MsgHeader f) \<in> {Mt_Logon, Mt_Logout})"

definition p_inv ::
  "'d surroundings \<Rightarrow> ('d \<Rightarrow> tables) \<Rightarrow> ('d \<Rightarrow> tables) \<Rightarrow> ('d \<Rightarrow> bool) \<Rightarrow> tables \<Rightarrow> u8 list \<Rightarrow> nat \<Rightarrow> drain \<Rightarrow> engine
     \<Rightarrow> nat \<Rightarrow> 'd process \<Rightarrow> bool" where
  "p_inv en view disk txn T wdisk every env0 e0 k s \<longleftrightarrow>
     (\<exists>hist as. x_inv en view disk txn T wdisk every env0 e0 hist as (pg_x s) \<and> length hist \<le> k \<and> ack_key ` set as \<subseteq> pushed_keys (pg_x s)) \<and>
     inv_except (busy (pg_pc s)) (gw_view s) \<and> (alive (pg_pc s) (pg_gw s) \<or> at_closed s) \<and> traced s"

lemma connections_view [simp]: "connections (gw_view s) = connections (pg_gw s)" "listen_fd (gw_view s) = listen_fd (pg_gw s)"
  "sequencer_input (gw_view s) = inputs (x_seq (pg_x s)) ! 0" "ack_queue (gw_view s) = acks (x_engine (pg_x s))"
  by (simp_all add: gw_view_def)

lemma inv_queues:
  "inv_except E g \<Longrightarrow> spsc_inv q \<Longrightarrow> spsc_inv q' \<Longrightarrow> connections h = connections g \<Longrightarrow> sequencer_input h = q \<Longrightarrow> ack_queue h = q' \<Longrightarrow>
   inv_except E h"
  by (simp add: inv_except_def)

lemma x_inv_input:
  assumes "x_inv en view disk txn T wdisk every env0 e0 hist as x"
  shows "spsc_inv (inputs (x_seq x) ! 0)" and "0 < length (inputs (x_seq x))"
  using x_inv_parts(1) [OF assms] by (simp_all add: seq_inv_def Let_def producer_count_def)

section \<open>The other threads\<close>

lemma hist_keys:
  assumes "seq_inv s acc hist" and "\<forall>a \<in> set acc. fst a = 0" and "ev \<in> set hist"
  shows "req_key ev \<in> req_key ` snd ` set acc"
proof -
  have "payload ev \<in> set (map payload (map snd acc))"
    using seq_inv_single [OF assms(1,2)] assms(3) by (metis UnCI image_eqI list.set_map set_append)
  then obtain a where "a \<in> set acc" "payload ev = payload (snd a)"
    by auto
  moreover from this have "req_key ev = req_key (snd a)"
    unfolding req_key_def payload_def by (metis SequencedEvent.ext_inject SequencedEvent.surjective SequencedEvent.update_convs(1,3,5))
  ultimately show ?thesis by blast
qed

lemma match_owns:
  assumes inv: "x_inv en view disk txn T wdisk every env0 e0 hist as x" and zero: "\<forall>a \<in> set (x_pushed x). fst a = 0"
    and owns: "engine_owns (pushed_keys x) (x_engine x)" and env: "env_pops env"
    and one: "consume_one (engine_apply env) 0 (seq_output (x_seq x)) (x_engine x) = Some (b, e)"
  shows "engine_owns (pushed_keys x) e"
proof -
  note parts = x_inv_parts [OF inv]
  have i: "0 < consumer_count (seq_output (x_seq x))"
    using parts(2) by simp
  show ?thesis
  proof (cases "reader_pos (seq_output (x_seq x)) 0 < length hist")
    case False
    then have "reader_pos (seq_output (x_seq x)) 0 = length hist"
      using bl.pos_le [OF parts(3) i] by simp
    with one owns bl.consume_end [OF parts(3) i] show ?thesis
      by (simp add: consume_one_def)
  next
    case True
    let ?ev = "hist ! reader_pos (seq_output (x_seq x)) 0"
    have "engine_apply env ?ev (x_engine x) = Some e"
      using one bl.consume_next [OF parts(3) i True] by (auto simp: consume_one_def)
    from engine_apply_owns [OF env owns this] hist_keys [OF parts(1) zero nth_mem [OF True], folded pushed_keys_def] show ?thesis
      by (simp add: insert_absorb)
  qed
qed

text \<open>No other thread pushes requests, and the engine acknowledges only what was pushed.\<close>

lemma thread_traced:
  assumes inv: "x_inv en view disk txn T wdisk every env0 e0 hist as x" and zero: "\<forall>a \<in> set (x_pushed x). fst a = 0"
    and owns: "engine_owns (pushed_keys x) (x_engine x)"
    and ok: "p_act_ok (P_thread a)" and step: "x_act en a x = Some x'"
  shows "x_pushed x' = x_pushed x" and "engine_owns (pushed_keys x) (x_engine x')"
proof -
  have "x_pushed x' = x_pushed x \<and> engine_owns (pushed_keys x) (x_engine x')"
  proof (cases a)
    case (X_match env)
    then obtain b e where be: "consume_one (engine_apply env) 0 (seq_output (x_seq x)) (x_engine x) = Some (b, e)"
      "x' = set_output b (x\<lparr>x_engine := e\<rparr>)"
      using step by auto
    with match_owns [OF inv zero owns _ be(1)] ok X_match show ?thesis
      by (simp add: set_output_def)
  next
    case X_report
    have "fills_own K (e\<lparr>fills := Some q'\<rparr>)" if "fills_own K e" "fills e = Some q" "spsc_pop q = Some (ack, q')" for K e q ack q'
      using that sq.pop_Some [OF _ that(3)] by (auto simp: fills_own_def)
    with X_report step owns show ?thesis
      by (auto simp: engine_owns_def split: option.splits)
  next
    case (X_seq s)
    with step owns ok show ?thesis
      by (cases s) auto
  qed (use step owns ok in \<open>auto simp: set_output_def split: option.splits\<close>)
  then show "x_pushed x' = x_pushed x" and "engine_owns (pushed_keys x) (x_engine x')"
    by simp_all
qed

lemma owned_reports:
  assumes "engine_owns K e" and "ack_key ` set as \<subseteq> K" and "set as' \<subseteq> set as \<union> mirrored e"
  shows "ack_key ` set as' \<subseteq> K"
proof -
  have "ack_key ` mirrored e \<subseteq> K"
    using assms(1) by (auto simp: engine_owns_def fills_own_def mirrored_def split: option.splits)
  with assms(2,3) show ?thesis by blast
qed

lemma thread_step:
  assumes inv: "p_inv en view disk txn T wdisk every env0 e0 k s" and fits: "Suc k < 2 ^ 64" and ok: "p_act_ok (P_thread a)"
  shows "\<exists>s'. p_act en net (P_thread a) s = Some s' \<and> p_inv en view disk txn T wdisk every env0 e0 (Suc k) s'"
proof -
  obtain hist as where x: "x_inv en view disk txn T wdisk every env0 e0 hist as (pg_x s)" "length hist \<le> k" "ack_key ` set as \<subseteq> pushed_keys (pg_x s)"
    and t: "traced s"
    using inv by (auto simp: p_inv_def)
  have "x_act_ok a"
    using ok by (cases "P_thread a" rule: p_act_ok.cases) auto
  with x_step [OF x(1)] x(2) fits obtain x' es as' where
    x': "x_act en a (pg_x s) = Some x'" "x_inv en view disk txn T wdisk every env0 e0 (hist @ es) as' x'" "length es \<le> 1"
      "set as' \<subseteq> set as \<union> mirrored (x_engine (pg_x s))"
    by (metis Suc_le_mono le_less_trans)
  have zero: "\<forall>a \<in> set (x_pushed (pg_x s)). fst a = 0" and owns: "engine_owns (pushed_keys (pg_x s)) (x_engine (pg_x s))"
    using t by (simp_all add: traced_def)
  note th = thread_traced [OF x(1) zero owns ok x'(1)]
  let ?s = "s\<lparr>pg_x := x'\<rparr>"
  have "spsc_inv (acks (x_engine x'))"
    using th(2) by (simp add: engine_owns_def)
  then have "inv_except (busy (pg_pc s)) (gw_view ?s)"
    using inv inv_queues [of "busy (pg_pc s)" "gw_view s" _ _ "gw_view ?s"] x_inv_input(1) [OF x'(2)] by (simp add: p_inv_def)
  moreover have "traced ?s"
    using t th by (simp add: traced_def pushed_keys_def)
  moreover have "length (hist @ es) \<le> Suc k"
    using x(2) x'(3) by simp
  moreover have "ack_key ` set as' \<subseteq> pushed_keys x'"
    using owned_reports [OF owns x(3) x'(4)] th(1) by (simp add: pushed_keys_def)
  ultimately have "p_inv en view disk txn T wdisk every env0 e0 (Suc k) ?s"
    using inv x'(2) unfolding p_inv_def by (auto simp: at_closed_def intro!: exI [of _ "hist @ es"] exI [of _ as'])
  with x'(1) show ?thesis by simp
qed

section \<open>The main thread\<close>

text \<open>
  For the other threads a step of the main thread is nothing, one acknowledgement taken, or one push into the
  first input queue.
\<close>

lemma take_back_cases:
  assumes step: "gw_step net now (pg_pc s, gw_view s) = Some (pc, g)" and q: "spsc_inv (inputs (x_seq (pg_x s)) ! 0)"
    and len: "0 < length (inputs (x_seq (pg_x s)))"
  shows "take_back g (pg_x s) = pg_x s \<or>
    (x_act en X_ack (pg_x s) = Some (take_back g (pg_x s)) \<and> x_pushed (take_back g (pg_x s)) = x_pushed (pg_x s)) \<or>
    (\<exists>fd f ev. frame_at (pg_pc s) (gw_view s) = Some (fd, f) \<and> request_of fd f = [ev] \<and>
      x_act en (X_seq (Produce 0 ev)) (pg_x s) = Some (take_back g (pg_x s)) \<and>
      x_pushed (take_back g (pg_x s)) = x_pushed (pg_x s) @ [(0, ev)] \<and> x_engine (take_back g (pg_x s)) = x_engine (pg_x s))"
proof -
  have push: "take_back g x = x\<lparr>x_seq := (x_seq x)\<lparr>inputs := (inputs (x_seq x))[0 := sequencer_input g]\<rparr>, x_pushed := x_pushed x @ [(0, ev)]\<rparr>"
    if "x = pg_x s" "ack_queue g = acks (x_engine x)" "spsc_push (inputs (x_seq x) ! 0) ev = Some (sequencer_input g)" for x ev
    using that sq.push_Some [OF q] by (auto simp: take_back_def)
  from gw_step_queues [OF step] show ?thesis
  proof (elim disjE conjE exE)
    fix fd f ev
    assume *: "ack_queue g = ack_queue (gw_view s)" "frame_at (pg_pc s) (gw_view s) = Some (fd, f)" "request_of fd f = [ev]"
      "spsc_push (sequencer_input (gw_view s)) ev = Some (sequencer_input g)"
    with len push [OF refl, of ev] show ?thesis
      by (auto simp: input_for_def)
  qed (simp_all add: take_back_def)
qed

lemma main_traced:
  assumes step: "gw_step net now (pg_pc s, gw_view s) = Some (pc, g)" and q: "spsc_inv (inputs (x_seq (pg_x s)) ! 0)"
    and len: "0 < length (inputs (x_seq (pg_x s)))" and t: "traced s"
    and s': "main_step net now s = Some s'"
  shows "traced s'"
proof -
  let ?x = "take_back g (pg_x s)"
  let ?ffs = "case frame_at (pg_pc s) (gw_view s) of None \<Rightarrow> [] | Some ff \<Rightarrow> [ff]"
  have x: "pg_x s' = ?x" "requests_in (pg_frames s') = requests_in (pg_frames s) @ requests_in ?ffs"
    using s' step by (auto simp: main_step_def requests_in_def)
  show ?thesis
    using take_back_cases [OF step q len, of undefined]
  proof (elim disjE conjE exE)
    assume "x_act undefined X_ack (pg_x s) = Some ?x" and p: "x_pushed ?x = x_pushed (pg_x s)"
    then have "x_engine ?x = x_engine (pg_x s) \<or> (\<exists>a q. spsc_pop (acks (x_engine (pg_x s))) = Some (a, q) \<and>
        x_engine ?x = (x_engine (pg_x s))\<lparr>acks := q\<rparr>)"
      by (auto split: option.splits) (metis exchange.select_convs(3) exchange.surjective exchange.update_convs(3))
    moreover have "engine_owns K ((x_engine (pg_x s))\<lparr>acks := q\<rparr>)"
      if "spsc_pop (acks (x_engine (pg_x s))) = Some (a, q)" "engine_owns K (x_engine (pg_x s))" for a q K
      using that sq.pop_Some [of "acks (x_engine (pg_x s))" a q] by (auto simp: engine_owns_def)
    ultimately show ?thesis
      using t p x by (auto simp: traced_def pushed_keys_def intro: list_emb_append2)
  next
    fix fd f ev
    assume *: "frame_at (pg_pc s) (gw_view s) = Some (fd, f)" "request_of fd f = [ev]" "x_pushed ?x = x_pushed (pg_x s) @ [(0, ev)]"
      "x_engine ?x = x_engine (pg_x s)"
    have "requests_in ?ffs = [ev]"
      using * by (simp add: requests_in_def)
    with * t x show ?thesis
      by (auto simp: traced_def pushed_keys_def intro: engine_owns_mono)
  qed (use t x in \<open>auto simp: traced_def pushed_keys_def intro: list_emb_append2\<close>)
qed

lemma main_keeps_exchange:
  assumes step: "gw_step net now (pg_pc s, gw_view s) = Some (pc, g)"
    and x: "x_inv en view disk txn T wdisk every env0 e0 hist as (pg_x s)" and fits: "Suc (length hist) < 2 ^ 64"
  shows "\<exists>es as'. x_inv en view disk txn T wdisk every env0 e0 (hist @ es) as' (take_back g (pg_x s)) \<and> length es \<le> 1 \<and>
    set as' \<subseteq> set as \<union> mirrored (x_engine (pg_x s))"
proof -
  have "x_act_ok (X_seq (Produce 0 ev))" "x_act_ok X_ack" for ev
    by (simp_all add: producer_count_def)
  then consider "take_back g (pg_x s) = pg_x s" | a where "x_act en a (pg_x s) = Some (take_back g (pg_x s))" "x_act_ok a"
    using take_back_cases [OF step x_inv_input [OF x], of en] by blast
  then show ?thesis
  proof cases
    case 1
    with x show ?thesis by (intro exI [of _ "[]"] exI [of _ as]) simp
  next
    case (2 a)
    with x_step [OF x fits, of a] show ?thesis by auto
  qed
qed

lemma main_step_ok:
  assumes inv: "p_inv en view disk txn T wdisk every env0 e0 k s" and fits: "Suc k < 2 ^ 64" and alive: "alive (pg_pc s) (pg_gw s)"
  shows "\<exists>s'. main_step net now s = Some s' \<and> p_inv en view disk txn T wdisk every env0 e0 (Suc k) s'"
proof -
  obtain hist as where x: "x_inv en view disk txn T wdisk every env0 e0 hist as (pg_x s)" "length hist \<le> k" "ack_key ` set as \<subseteq> pushed_keys (pg_x s)"
    using inv by (auto simp: p_inv_def)
  have view: "alive (pg_pc s) (gw_view s)"
    using alive by (cases "pg_pc s") simp_all
  from gw_step_alive [OF view, of net now] obtain pc g where step: "gw_step net now (pg_pc s, gw_view s) = Some (pc, g)"
    and pc: "alive pc g \<or> (\<exists>fd rs es f. pc = Gw_frames fd rs es \<and> map_of (connections g) fd = None \<and>
       frame_at (pg_pc s) (gw_view s) = Some (fd, f) \<and> msg_type (decode_MsgHeader f) \<in> {Mt_Logon, Mt_Logout})"
    by blast
  define ffs where "ffs = (case frame_at (pg_pc s) (gw_view s) of None \<Rightarrow> [] | Some ff \<Rightarrow> [ff])"
  define s' where "s' = \<lparr>pg_x = take_back g (pg_x s), pg_gw = g, pg_pc = pc, pg_frames = pg_frames s @ ffs\<rparr>"
  have s': "main_step net now s = Some s'" "pg_x s' = take_back g (pg_x s)" "pg_gw s' = g" "pg_pc s' = pc" "pg_frames s' = pg_frames s @ ffs"
    using step by (simp_all add: main_step_def s'_def ffs_def)
  have "Suc (length hist) < 2 ^ 64"
    using x(2) fits by simp
  from main_keeps_exchange [OF step x(1) this] obtain es as' where
    es: "x_inv en view disk txn T wdisk every env0 e0 (hist @ es) as' (pg_x s')" "length es \<le> 1"
      "set as' \<subseteq> set as \<union> mirrored (x_engine (pg_x s))"
    unfolding s'(2) by blast
  have "length (hist @ es) \<le> Suc k"
    using x(2) es(2) by simp
  moreover have "ack_key ` set as' \<subseteq> pushed_keys (pg_x s)"
    using owned_reports [OF _ x(3) es(3)] inv by (simp add: p_inv_def traced_def)
  then have "ack_key ` set as' \<subseteq> pushed_keys (pg_x s')"
    by (rule order_trans) (auto simp: s'(2) pushed_keys_def take_back_def)
  ultimately have x': "\<exists>hist as. x_inv en view disk txn T wdisk every env0 e0 hist as (pg_x s') \<and> length hist \<le> Suc k \<and> ack_key ` set as \<subseteq> pushed_keys (pg_x s')"
    using es(1) by blast
  have "gw_view s' = g"
    using x_inv_input(2) [OF x(1)] s'(2,3) by (simp add: gw_view_def take_back_def)
  moreover have "inv_except (busy pc) g"
    using gw_step_inv [OF _ step] inv by (simp add: p_inv_def)
  moreover have "alive pc g \<or> at_closed s'"
    using pc
  proof (elim disjE exE conjE)
    fix fd rs es f
    assume "pc = Gw_frames fd rs es" "map_of (connections g) fd = None" "frame_at (pg_pc s) (gw_view s) = Some (fd, f)"
      "msg_type (decode_MsgHeader f) \<in> {Mt_Logon, Mt_Logout}"
    then have "at_closed s'"
      by (simp add: at_closed_def s'(3-5) ffs_def)
    then show ?thesis ..
  qed simp
  moreover have "traced s'"
    using main_traced [OF step x_inv_input [OF x(1)] _ s'(1)] inv by (simp add: p_inv_def)
  ultimately have "p_inv en view disk txn T wdisk every env0 e0 (Suc k) s'"
    using x' s'(3,4) by (simp add: p_inv_def)
  with s'(1) show ?thesis by blast
qed

lemma closed_stuck: "at_closed s \<Longrightarrow> main_step net now s = None"
  by (auto simp: at_closed_def main_step_def gw_frame_def)

lemma closed_not_alive: "at_closed s \<Longrightarrow> \<not> alive (pg_pc s) (pg_gw s)"
  by (auto simp: at_closed_def)

lemma poll_step:
  assumes "p_inv en view disk txn T wdisk every env0 e0 k s"
  shows "\<exists>s'. p_act en net (P_poll es) s = Some s' \<and> p_inv en view disk txn T wdisk every env0 e0 (Suc k) s'"
  using assms by (cases "pg_pc s = Gw_idle") (auto simp: p_inv_def at_closed_def traced_def gw_view_def intro: le_SucI)

lemma request_session: "ev \<in> set (request_of fd f) \<Longrightarrow> ev_session_id ev = of_int fd"
  by (auto simp: request_of_def Let_def order_event_def event_base_def split: if_splits)

lemma traced_acks:
  assumes "traced s" and "a \<in> set (spsc_list (acks (x_engine (pg_x s))))"
  shows "\<exists>(fd, f) \<in> set (pg_frames s). \<exists>ev \<in> set (request_of fd f).
    ack_session_id a = of_int fd \<and> ack_client_order_id a = ev_client_order_id ev"
proof -
  have "ack_key a \<in> pushed_keys (pg_x s)"
    using assms unfolding traced_def engine_owns_def by blast
  then obtain ev where ev: "ev \<in> set (map snd (x_pushed (pg_x s)))" "ack_key a = req_key ev"
    by (auto simp: pushed_keys_def)
  then have "ev \<in> set (requests_in (pg_frames s))"
    using assms(1) unfolding traced_def by (blast dest: list_emb_set)
  then obtain fd f where f: "(fd, f) \<in> set (pg_frames s)" "ev \<in> set (request_of fd f)"
    by (auto simp: requests_in_def)
  moreover have "ack_session_id a = of_int fd" "ack_client_order_id a = ev_client_order_id ev"
    using ev(2) request_session [OF f(2)] by (simp_all add: ack_key_def req_key_def)
  ultimately show ?thesis by blast
qed

section \<open>Runs of the process\<close>

lemma p_step:
  assumes "p_inv en view disk txn T wdisk every env0 e0 k s" and "Suc k < 2 ^ 64" and "p_act_ok a"
  shows "(\<exists>s'. p_act en net a s = Some s' \<and> p_inv en view disk txn T wdisk every env0 e0 (Suc k) s') \<or> at_closed s \<and> (\<exists>now. a = P_main now)"
proof (cases a)
  case (P_main now)
  with assms main_step_ok [OF assms(1,2), of net now] show ?thesis
    by (auto simp: p_inv_def)
qed (use assms thread_step [OF assms(1,2)] poll_step [OF assms(1)] in blast)+

lemma p_run:
  assumes "p_inv en view disk txn T wdisk every env0 e0 k s" and "Suc (k + length acts) < 2 ^ 64" and "\<forall>a \<in> set acts. p_act_ok a"
  shows "(\<exists>s'. fold_opt (p_act en net) acts s = Some s' \<and> p_inv en view disk txn T wdisk every env0 e0 (k + length acts) s') \<or>
    (\<exists>pre now post s'. acts = pre @ P_main now # post \<and> fold_opt (p_act en net) pre s = Some s' \<and> at_closed s')"
  using assms
proof (induction acts arbitrary: s k)
  case (Cons a acts)
  have "Suc k < 2 ^ 64" "p_act_ok a"
    using Cons.prems(2,3) by simp_all
  from p_step [OF Cons.prems(1) this, of net] show ?case
  proof (elim disjE exE conjE)
    fix s1
    assume s1: "p_act en net a s = Some s1" "p_inv en view disk txn T wdisk every env0 e0 (Suc k) s1"
    from Cons.IH [OF s1(2)] Cons.prems(2,3) have "(\<exists>s'. fold_opt (p_act en net) acts s1 = Some s' \<and>
        p_inv en view disk txn T wdisk every env0 e0 (k + length (a # acts)) s') \<or>
      (\<exists>pre now post s'. acts = pre @ P_main now # post \<and> fold_opt (p_act en net) pre s1 = Some s' \<and> at_closed s')"
      by simp
    then show ?thesis
    proof (elim disjE exE conjE)
      fix pre now post s'
      assume "acts = pre @ P_main now # post" "fold_opt (p_act en net) pre s1 = Some s'" "at_closed s'"
      with s1(1) have "a # acts = (a # pre) @ P_main now # post" "fold_opt (p_act en net) (a # pre) s = Some s'" "at_closed s'"
        by simp_all
      then show ?thesis by blast
    qed (use s1(1) in auto)
  next
    fix now
    assume "at_closed s" "a = P_main now"
    then have "a # acts = [] @ P_main now # acts" "fold_opt (p_act en net) [] s = Some s" "at_closed s"
      by simp_all
    then show ?thesis by blast
  qed
qed auto

lemma process_start_inv:
  assumes "pow2 in_cap" and "pow2 out_cap" and "out_cap < 2 ^ 64" and "3 \<le> maxc" and "pow2 ack_cap" and "pool_cap \<le> 2 ^ 31"
    and "sqlite_ok (en_api en) view disk txn" and "\<not> txn d" and "view d = disk d"
    and "0 \<le> sock" and "0 \<le> bound" and "0 \<le> listening" and "0 \<le> kq"
    and x: "x = exchange_init in_cap maxc out_cap ack_cap pool_cap dev dack (wal_init wdisk wn wiv) (db_init d dn iv)"
  shows "\<exists>s. process_start (en_api en) True wal_now db_now (sock, bound, listening, kq) x = Inr s \<and>
    p_inv en view disk txn (disk d) wdisk wn env0 (engine_init pool_cap (spsc_init ack_cap dack) (Some (spsc_init ack_cap dack))) 0 s"
proof -
  let ?e0 = "engine_init pool_cap (spsc_init ack_cap dack) (Some (spsc_init ack_cap dack))"
  from exchange_start_inv [OF assms(1-9), of wal_now db_now dev dack wdisk wn wiv dn iv env0] obtain x0 where
    x0: "exchange_start (en_api en) True wal_now db_now x = Inr x0" "x_inv en view disk txn (disk d) wdisk wn env0 ?e0 [] [] x0"
    unfolding x by blast
  have e: "x_pushed x0 = []" "x_engine x0 = ?e0"
    using exchange_start_seq [OF x0(1)] exchange_init_ring(4,5) [OF assms(1-4) x] by simp_all
  let ?g = "server_init (inputs (x_seq x0) ! 0) (acks (x_engine x0))\<lparr>listen_fd := sock\<rparr>"
  let ?s = "\<lparr>pg_x = x0, pg_gw = ?g, pg_pc = Gw_idle, pg_frames = []\<rparr>"
  have "process_start (en_api en) True wal_now db_now (sock, bound, listening, kq) x = Inr ?s"
    using assms(10-13) by (simp add: process_start_def x0(1) server_start_def Let_def)
  moreover have acks: "spsc_inv (acks (x_engine x0))" "spsc_list (acks (x_engine x0)) = []"
    using spsc_init_inv [OF assms(5), of dack] by (simp_all add: e(2) engine_init_def)
  then have "traced ?s"
    by (simp add: traced_def e(1) engine_owns_def requests_in_def) (simp add: e(2) engine_init_def fills_own_def)
  moreover have "inv_except {} (gw_view ?s)"
    using x_inv_input(1) [OF x0(2)] acks(1) by (simp add: inv_except_def) (simp add: server_init_def umap_ok_def)
  ultimately show ?thesis
    using x0(2) by (auto simp: p_inv_def)
qed

text \<open>
  (C5) The whole process. Start-up succeeds when the files open and the socket calls do; and whatever clients send, and however
  the threads interleave, a run is undefined at a step of the main thread that follows a logon or logout frame which made
  the gateway close the connection it was reading, and nowhere else.
\<close>
theorem process_undefined_exactly:
  assumes "pow2 in_cap" and "pow2 out_cap" and "out_cap < 2 ^ 64" and "3 \<le> maxc" and "pow2 ack_cap" and "pool_cap \<le> 2 ^ 31"
    and "sqlite_ok (en_api en) view disk txn" and "\<not> txn d" and "view d = disk d"
    and "0 \<le> sock" and "0 \<le> bound" and "0 \<le> listening" and "0 \<le> kq"
    and "\<forall>a \<in> set acts. p_act_ok a" and "length acts < 2 ^ 63"
  shows "\<exists>s0. process_start (en_api en) True wal_now db_now (sock, bound, listening, kq)
      (exchange_init in_cap maxc out_cap ack_cap pool_cap dev dack (wal_init wdisk wn wiv) (db_init d dn iv)) = Inr s0 \<and>
    (fold_opt (p_act en net) acts s0 = None \<longleftrightarrow>
      (\<exists>pre now post s. acts = pre @ P_main now # post \<and> fold_opt (p_act en net) pre s0 = Some s \<and> at_closed s))"
proof -
  from process_start_inv [OF assms(1-13) refl] obtain s0 e0 where
    s0: "process_start (en_api en) True wal_now db_now (sock, bound, listening, kq)
      (exchange_init in_cap maxc out_cap ack_cap pool_cap dev dack (wal_init wdisk wn wiv) (db_init d dn iv)) = Inr s0"
      "p_inv en view disk txn (disk d) wdisk wn (\<lambda>a k q. q) e0 0 s0"
    by blast
  have "Suc (0 + length acts) < 2 ^ 64"
    using assms(15) by simp
  from p_run [OF s0(2) this assms(14), of net] have closed: "fold_opt (p_act en net) acts s0 = None \<Longrightarrow>
      \<exists>pre now post s. acts = pre @ P_main now # post \<and> fold_opt (p_act en net) pre s0 = Some s \<and> at_closed s"
    by auto
  have stuck: "fold_opt (p_act en net) acts s0 = None"
    if "acts = pre @ P_main now # post" "fold_opt (p_act en net) pre s0 = Some s" "at_closed s" for pre now post s
    using that by (simp add: fold_opt_append closed_stuck)
  show ?thesis
    by (intro exI [of _ s0] conjI iffI, rule s0(1), erule closed) (elim exE conjE, rule stuck)
qed

text \<open>A client connects and sends some bytes; they are received.\<close>

definition demo_connect :: "u8 list \<Rightarrow> p_action list" where
  "demo_connect bytes = [P_poll [Kevent 3 False 7 [], Kevent 7 False 0 [Data bytes]], P_main 0, P_main 0, P_main 0]"

definition demo_connected :: "u8 list \<Rightarrow> 'd process \<Rightarrow> 'd process" where
  "demo_connected bytes s = \<lparr>pg_x = pg_x s,
     pg_gw = (gw_view s)\<lparr>connections := [(7, connection_init\<lparr>reader := \<lparr>fr_buffer = bytes\<rparr>\<rparr>)]\<rparr>, pg_pc = Gw_frames 7 [] [], pg_frames = []\<rparr>"

lemma process_started:
  "process_start api c t u (sock, others) x = Inr s0 \<Longrightarrow> pg_pc s0 = Gw_idle \<and> pg_frames s0 = [] \<and> connections (pg_gw s0) = [] \<and>
     listen_fd (pg_gw s0) = sock \<and> exchange_start api c t u x = Inr (pg_x s0)"
  by (auto simp: process_start_def server_start_def server_init_def Let_def split: sum.splits prod.splits bool.splits if_splits)

lemma take_back_same:
  "sequencer_input g = inputs (x_seq x) ! 0 \<Longrightarrow> ack_queue g = acks (x_engine x) \<Longrightarrow> take_back g x = x"
  by (simp add: take_back_def)

lemma demo_connect_runs:
  assumes "process_start api c t u (3, others) x = Inr s0"
  shows "fold_opt (p_act en net) (demo_connect bytes) s0 = Some (demo_connected bytes s0)"
proof -
  have s0: "pg_pc s0 = Gw_idle" "pg_frames s0 = []" "connections (pg_gw s0) = []" "listen_fd (pg_gw s0) = 3"
    using process_started [OF assms] by simp_all
  let ?e = "Kevent 7 False 0 [Data bytes]" and ?c = "\<lambda>r. \<lparr>reader = \<lparr>fr_buffer = r\<rparr>, session = session_init\<rparr>"
  let ?s = "\<lambda>cs pc. \<lparr>pg_x = pg_x s0, pg_gw = (gw_view s0)\<lparr>connections := cs\<rparr>, pg_pc = pc, pg_frames = []\<rparr>"
  have "main_step net 0 (s0\<lparr>pg_pc := Gw_events [Kevent 3 False 7 [], ?e]\<rparr>) = Some (?s [(7, ?c [])] (Gw_events [?e]))"
    by (simp add: main_step_def gw_event_def s0 gw_view_def accept_new_connection_def connection_init_def frame_at_def take_back_same)
  moreover have "main_step net 0 (?s [(7, ?c [])] (Gw_events [?e])) = Some (?s [(7, ?c [])] (Gw_recv 7 [Data bytes] []))"
    by (simp add: main_step_def gw_event_def s0 gw_view_def frame_at_def take_back_same)
  moreover have "main_step net 0 (?s [(7, ?c [])] (Gw_recv 7 [Data bytes] [])) = Some (?s [(7, ?c bytes)] (Gw_frames 7 [] []))"
    by (simp add: main_step_def s0 gw_view_def frame_at_def set_reader_def feed_def take_back_same)
  ultimately show ?thesis
    by (simp add: demo_connect_def demo_connected_def s0(1) connection_init_def)
qed

definition logout_frame :: "u8 list" where
  "logout_frame = [0, 0, 2, 1, 0, 0, 0]"

lemma logout_undefined:
  assumes "process_start api c t u (3, others) x = Inr s0"
  shows "fold_opt (p_act en net) (demo_connect logout_frame @ [P_main 0, P_main 0]) s0 = None"
proof -
  have "next_frame \<lparr>fr_buffer = logout_frame\<rparr> = Some (logout_frame, \<lparr>fr_buffer = []\<rparr>)" "\<not> length logout_frame < sizeof_MsgHeader"
    "msg_type (decode_MsgHeader logout_frame) = Mt_Logout"
    by (simp_all add: logout_frame_def next_frame_def sizeof_MsgHeader_def decode_MsgHeader_def field_def bytes_word_def msg_type_of_byte_def)
  then show ?thesis
    by (simp add: fold_opt_append demo_connect_runs [OF assms] demo_connected_def main_step_def gw_view_def gw_frame_def
        dispatch_def close_connection_def Let_def set_session_def set_reader_def frame_at_def take_back_same)
qed

theorem process_undefined_exactly_witness:
  "\<exists>s0. process_start lite True 0 0 (3, 0, 0, 4) demo_exchange = Inr s0 \<and>
    (\<exists>pre now post s. demo_connect logout_frame @ [P_main 0, P_main 0] = pre @ P_main now # post \<and>
      fold_opt (p_act demo_surroundings (\<lambda>k fd n. int n)) pre s0 = Some s \<and> at_closed s)"
proof -
  let ?acts = "demo_connect logout_frame @ [P_main 0, P_main 0]"
  have api: "en_api demo_surroundings = lite"
    by (simp add: demo_surroundings_def)
  have ok: "\<forall>a \<in> set ?acts. p_act_ok a" "length ?acts < 2 ^ 63"
    by (simp_all add: demo_connect_def)
  from process_undefined_exactly [OF pow2_small(1) pow2_small(1) _ _ pow2_small(1) _ lite_ok [folded api] _ _ _ _ _ _ ok,
      of 8 16 "(([], []), ([], []), False)" 3 0 0 4 0 0 idle_event demo_ack "[]" 256 50 256 50 "\<lambda>k fd n. int n"]
  obtain s0 where s0: "process_start lite True 0 0 (3, 0, 0, 4) demo_exchange = Inr s0"
    "fold_opt (p_act demo_surroundings (\<lambda>k fd n. int n)) ?acts s0 = None \<longleftrightarrow>
      (\<exists>pre now post s. ?acts = pre @ P_main now # post \<and>
        fold_opt (p_act demo_surroundings (\<lambda>k fd n. int n)) pre s0 = Some s \<and> at_closed s)"
    by (auto simp: api demo_exchange_def [symmetric])
  with logout_undefined [OF s0(1), of demo_surroundings "\<lambda>k fd n. int n"] show ?thesis
    by blast
qed

text \<open>
  (C6) Nothing comes from nowhere. In every state the process reaches, the published events are numbered 1, 2, 3, ... and are, up to
  number, time and producer, the first requests pushed; the pushed requests are requests of frames that clients sent, in the order in
  which they were dispatched; and every acknowledgement waiting to be sent carries the descriptor and client order id of a request that
  arrived on that descriptor.
\<close>
theorem process_traceable:
  assumes "pow2 in_cap" and "pow2 out_cap" and "out_cap < 2 ^ 64" and "3 \<le> maxc" and "pow2 ack_cap" and "pool_cap \<le> 2 ^ 31"
    and "sqlite_ok (en_api en) view disk txn" and "\<not> txn d" and "view d = disk d"
    and "0 \<le> sock" and "0 \<le> bound" and "0 \<le> listening" and "0 \<le> kq"
    and "\<forall>a \<in> set acts. p_act_ok a" and "length acts < 2 ^ 63"
    and "process_start (en_api en) True wal_now db_now (sock, bound, listening, kq)
      (exchange_init in_cap maxc out_cap ack_cap pool_cap dev dack (wal_init wdisk wn wiv) (db_init d dn iv)) = Inr s0"
    and "fold_opt (p_act en net) acts s0 = Some s"
  shows "\<exists>hist. bring_hist (seq_output (x_seq (pg_x s))) hist \<and> map ev_seq_num hist = map of_nat [1..<Suc (length hist)] \<and>
    prefix (map payload hist) (map payload (map snd (x_pushed (pg_x s)))) \<and>
    subseq (map snd (x_pushed (pg_x s))) (requests_in (pg_frames s)) \<and>
    (\<forall>a \<in> set (spsc_list (acks (x_engine (pg_x s)))). \<exists>(fd, f) \<in> set (pg_frames s). \<exists>ev \<in> set (request_of fd f).
       ack_session_id a = of_int fd \<and> ack_client_order_id a = ev_client_order_id ev)"
proof -
  from process_start_inv [OF assms(1-13) refl, of wal_now db_now dev dack wdisk wn wiv dn iv "\<lambda>a k q. q"] assms(16) obtain e0 where
    s0: "p_inv en view disk txn (disk d) wdisk wn (\<lambda>a k q. q) e0 0 s0"
    by auto
  have "Suc (0 + length acts) < 2 ^ 64"
    using assms(15) by simp
  from p_run [OF s0 this assms(14), of net] assms(17) have "p_inv en view disk txn (disk d) wdisk wn (\<lambda>a k q. q) e0 (length acts) s"
    by (auto simp: fold_opt_append closed_stuck)
  then obtain hist as where x: "x_inv en view disk txn (disk d) wdisk wn (\<lambda>a k q. q) e0 hist as (pg_x s)" and t: "traced s"
    by (auto simp: p_inv_def)
  note parts = x_inv_parts [OF x]
  have "map payload (map snd (x_pushed (pg_x s))) =
      map payload hist @ map payload (in_flight (seq_thread_pc (x_seq (pg_x s))) @ spsc_list (inputs (x_seq (pg_x s)) ! 0))"
    using seq_inv_single [OF parts(1)] t by (simp add: traced_def)
  then have "prefix (map payload hist) (map payload (map snd (x_pushed (pg_x s))))"
    by (metis prefixI)
  with parts(3) seq_inv_log(2) [OF parts(1)] t traced_acks [OF t] show ?thesis
    unfolding numbered_def traced_def by blast
qed

text \<open>A client cancels an order that does not exist; the cancel is pushed, sequenced and refused.\<close>

lemma p_threads:
  "fold_opt (p_act en net) (map P_thread as) s = map_option (\<lambda>x. s\<lparr>pg_x := x\<rparr>) (fold_opt (x_act en) as (pg_x s))"
  by (induction as arbitrary: s) (auto split: option.splits)

lemma demo_cancel_sequenced:
  "\<exists>s acc ev b. fold_opt seq_act [Produce 0 (event_base Ev_CancelOrder 7 42), Thread 1, Thread 2, Thread 3] (seq_start (x_seq demo_exchange), []) =
      Some (s, acc) \<and> try_consume (seq_output s) 0 = Some (Some (ev, b)) \<and> ev_type ev = Ev_CancelOrder \<and> ev_client_order_id ev = 42"
  by (simp add: demo_exchange_def exchange_init_def sequencer_init_def seq_start_def Let_def
      register_consumer_def producer_count_def input_for_def spsc_push_def spsc_pop_def spsc_init_def spsc_mask_def
      seq_thread_def next_producer_def next_in_batch_def kMaxBatch_def seq_stop_def try_publish_def bring_init_def
      scan_min_consumer_cursor_def bring_put_def slot_index_def try_consume_def stamp_def event_base_def)

lemma demo_cancel_refused:
  assumes "ev_type ev = Ev_CancelOrder" and "ev_client_order_id ev = 42"
  shows "\<exists>e. engine_apply (\<lambda>a k q. q) ev (x_engine demo_exchange) = Some e \<and> map ack_client_order_id (spsc_list (acks e)) = [42]"
  using assms by (simp add: demo_exchange_def exchange_init_def engine_init_def Let_def engine_apply_def apply_cancel_order_def push_ack_def
      push_spin.simps spsc_push_def spsc_init_def spsc_mask_def spsc_list_def split: prod.split)
    (simp add: ring_slots_def ring_count_def)

lemma demo_cancel_pushed:
  assumes "spsc_push (inputs (x_seq (pg_x s)) ! 0) (event_base Ev_CancelOrder 7 42) = Some q" and "spsc_inv (inputs (x_seq (pg_x s)) ! 0)"
    and "0 < length (inputs (x_seq (pg_x s)))"
  shows "\<exists>s1. main_step net 0 (demo_connected demo_cancel s) = Some s1 \<and>
    x_act en (X_seq (Produce 0 (event_base Ev_CancelOrder 7 42))) (pg_x s) = Some (pg_x s1)"
proof -
  have next_: "next_frame \<lparr>fr_buffer = demo_cancel\<rparr> = Some (demo_cancel, \<lparr>fr_buffer = []\<rparr>)"
    using next_frame_ok [of demo_cancel "[]"] demo_cancel(1) by (simp add: stays_open_def)
  have f: "\<not> length demo_cancel < sizeof_MsgHeader" "decode_MsgHeader demo_cancel = \<lparr>body_length = 8, msg_type = Mt_CancelOrder, hdr_seq_num = 0\<rparr>"
    "co_client_order_id (decode_CancelOrderMsg (drop sizeof_MsgHeader demo_cancel)) = 42" "\<not> length demo_cancel - sizeof_MsgHeader < sizeof_CancelOrderMsg"
    by (simp_all add: demo_cancel_def decode_MsgHeader_def sizeof_MsgHeader_def field_def bytes_word_def
      msg_type_of_byte_def decode_CancelOrderMsg_def sizeof_CancelOrderMsg_def)
  have "spsc_list q = spsc_list (inputs (x_seq (pg_x s)) ! 0) @ [event_base Ev_CancelOrder 7 42]"
    using sq.push_Some [OF assms(2,1)] by simp
  then show ?thesis
    using next_ f assms(1,3)
    by (simp add: demo_connected_def main_step_def gw_view_def gw_frame_def dispatch_def dispatch_cancel_order_def connection_init_def
        report_seq_gap_if_any_def track_inbound_seq_def session_init_def push_or_reject_def set_reader_def set_session_def Let_def frame_at_def take_back_def
        input_for_def sizeof_CancelOrderMsg_def)
qed

definition demo_cancel_run :: "p_action list" where
  "demo_cancel_run = demo_connect demo_cancel @ [P_main 0] @ map P_thread (map X_seq [Thread 1, Thread 2, Thread 3] @ [X_match (\<lambda>a k q. q)])"

lemma demo_cancel_runs:
  assumes "process_start api c t u (3, others) demo_exchange = Inr s0"
  shows "\<exists>s. fold_opt (p_act en net) demo_cancel_run s0 = Some s \<and>
    map ack_client_order_id (spsc_list (acks (x_engine (pg_x s)))) = [42]"
proof -
  have x: "x_seq (pg_x s0) = seq_start (x_seq demo_exchange)" "x_pushed (pg_x s0) = []" "x_engine (pg_x s0) = x_engine demo_exchange"
    using process_started [OF assms] exchange_start_seq [of api c t u demo_exchange "pg_x s0"]
    by (simp_all add: demo_exchange_def exchange_init_def Let_def split: prod.split)
  let ?ev = "event_base Ev_CancelOrder 7 42"
  have q: "inputs (x_seq (pg_x s0)) ! 0 = spsc_init 4 idle_event" "0 < length (inputs (x_seq (pg_x s0)))"
    by (simp_all add: x(1) demo_exchange_def exchange_init_def sequencer_init_def seq_start_def producer_count_def Let_def split: prod.split)
  obtain q' where "spsc_push (spsc_init 4 idle_event) ?ev = Some q'"
    by (simp add: spsc_push_def spsc_init_def spsc_mask_def)
  with demo_cancel_pushed [of s0 q' net en] q spsc_init_inv [OF pow2_small(1), of idle_event] obtain s1 where
    s1: "main_step net 0 (demo_connected demo_cancel s0) = Some s1" "x_act en (X_seq (Produce 0 ?ev)) (pg_x s0) = Some (pg_x s1)"
    by auto
  from demo_cancel_sequenced obtain s acc ev b where
    run: "fold_opt seq_act [Produce 0 ?ev, Thread 1, Thread 2, Thread 3] (seq_start (x_seq demo_exchange), []) = Some (s, acc)"
    and ev: "try_consume (seq_output s) 0 = Some (Some (ev, b))" "ev_type ev = Ev_CancelOrder" "ev_client_order_id ev = 42"
    by blast
  obtain e where e: "engine_apply (\<lambda>a k q. q) ev (x_engine demo_exchange) = Some e" "map ack_client_order_id (spsc_list (acks e)) = [42]"
    using demo_cancel_refused [OF ev(2,3)] by (elim exE conjE) (rule that)
  have "fold_opt (x_act en) (map X_seq [Produce 0 ?ev, Thread 1, Thread 2, Thread 3]) (pg_x s0) = Some ((pg_x s0)\<lparr>x_seq := s, x_pushed := acc\<rparr>)"
    by (simp only: x_act_seq x run option.map prod.case)
  then have "fold_opt (x_act en) (map X_seq [Thread 1, Thread 2, Thread 3]) (pg_x s1) = Some ((pg_x s0)\<lparr>x_seq := s, x_pushed := acc\<rparr>)"
    by (simp only: list.map fold_opt.simps s1(2) option.case)
  moreover have "x_act en (X_match (\<lambda>a k q. q)) ((pg_x s0)\<lparr>x_seq := s, x_pushed := acc\<rparr>) =
      Some (set_output b ((pg_x s0)\<lparr>x_seq := s, x_pushed := acc, x_engine := e\<rparr>))"
    using ev(1) e(1) by (simp add: consume_one_def x(3))
  ultimately have "fold_opt (x_act en) (map X_seq [Thread 1, Thread 2, Thread 3] @ [X_match (\<lambda>a k q. q)]) (pg_x s1) =
      Some (set_output b ((pg_x s0)\<lparr>x_seq := s, x_pushed := acc, x_engine := e\<rparr>))"
    by (simp only: fold_opt_append fold_opt.simps option.case)
  then have "fold_opt (p_act en net) demo_cancel_run s0 = Some (s1\<lparr>pg_x := set_output b ((pg_x s0)\<lparr>x_seq := s, x_pushed := acc, x_engine := e\<rparr>)\<rparr>)"
    by (simp only: demo_cancel_run_def fold_opt_append [of _ "demo_connect demo_cancel"] fold_opt_append [of _ "[P_main 0]"]
        demo_connect_runs [OF assms] fold_opt.simps p_act.simps s1(1) p_threads option.case option.map)
  with e(2) show ?thesis by (simp add: set_output_def)
qed

theorem process_traceable_witness:
  "\<exists>s0 s a. process_start lite True 0 0 (3, 0, 0, 4) demo_exchange = Inr s0 \<and>
    fold_opt (p_act demo_surroundings (\<lambda>k fd n. int n)) demo_cancel_run s0 = Some s \<and> a \<in> set (spsc_list (acks (x_engine (pg_x s)))) \<and>
    (\<exists>(fd, f) \<in> set (pg_frames s). \<exists>ev \<in> set (request_of fd f). ack_session_id a = of_int fd \<and> ack_client_order_id a = ev_client_order_id ev)"
proof -
  let ?net = "\<lambda>k fd n. int n"
  have api: "en_api demo_surroundings = lite"
    by (simp add: demo_surroundings_def)
  have "env_pops (\<lambda>a k q. q)"
    by (simp add: env_pops_def)
  then have ok: "\<forall>a \<in> set demo_cancel_run. p_act_ok a" "length demo_cancel_run < 2 ^ 63"
    by (simp_all add: demo_cancel_run_def demo_connect_def)
  obtain s0 where s0: "process_start lite True 0 0 (3, 0, 0, 4) demo_exchange = Inr s0"
    using process_start_inv [OF pow2_small(1) pow2_small(1) _ _ pow2_small(1) _ lite_ok [folded api] _ _ _ _ _ _ demo_exchange_def, of 3 0 0 4 0 0]
    by (auto simp: api)
  obtain s where
    s: "fold_opt (p_act demo_surroundings ?net) demo_cancel_run s0 = Some s" "map ack_client_order_id (spsc_list (acks (x_engine (pg_x s)))) = [42]"
    using demo_cancel_runs [OF s0, of demo_surroundings ?net] by (elim exE conjE) (rule that)
  then obtain a where a: "a \<in> set (spsc_list (acks (x_engine (pg_x s))))"
    by (metis list.set_intros(1) map_eq_Cons_conv)
  have small: "(4 :: nat) < 2 ^ 64" "(3 :: nat) \<le> 8" "(16 :: nat) \<le> 2 ^ 31" "(0 :: int) \<le> 3" "(0 :: int) \<le> 0" "(0 :: int) \<le> 4"
    by simp_all
  have d: "\<not> snd (snd (([], []) :: tables, ([], []) :: tables, False))"
    "fst (([], []) :: tables, ([], []) :: tables, False) = fst (snd (([], []) :: tables, ([], []) :: tables, False))"
    by simp_all
  note process_traceable [OF pow2_small(1) pow2_small(1) small(1,2) pow2_small(1) small(3) lite_ok [folded api] d small(4,5,5,6) ok
      s0 [folded api, unfolded demo_exchange_def] s(1)]
  with a have "\<exists>(fd, f) \<in> set (pg_frames s). \<exists>ev \<in> set (request_of fd f). ack_session_id a = of_int fd \<and> ack_client_order_id a = ev_client_order_id ev"
    by blast
  with s0 s(1) a show ?thesis by blast
qed

end
