(* ===== verification/Market_Data_Feed.thy ===== *)
theory Market_Data_Feed
  imports Hft_Types
begin

text \<open>
  The feeds of \<^verbatim>\<open>include/market_data_feed.hpp\<close>: the CSV replay file and the synthetic random walk.
  \<^verbatim>\<open>std::getline\<close>, \<^verbatim>\<open>std::stoll\<close> and \<^verbatim>\<open>std::stoul\<close> are modelled with the cases they have (a missing
  field, no digits, out of range, trailing characters, the sign \<^verbatim>\<open>stoul\<close> accepts); exceptions are
  values of \<open>feed_error\<close>. The draws of the random generator are an argument. The theory shows that
  a written file is read back exactly and within which bounds synthetic orders lie.
\<close>

section \<open>Numbers\<close>

datatype feed_error = Cannot_open | Invalid_argument | Out_of_range

definition is_space :: "char \<Rightarrow> bool" where
  "is_space c \<longleftrightarrow> c = CHR '' '' \<or> 9 \<le> (of_char c :: nat) \<and> (of_char c :: nat) \<le> 13"

definition is_digit :: "char \<Rightarrow> bool" where
  "is_digit c \<longleftrightarrow> 48 \<le> (of_char c :: nat) \<and> (of_char c :: nat) \<le> 57"

definition digit_val :: "char \<Rightarrow> nat" where
  "digit_val c = of_char c - 48"

definition digits_val :: "string \<Rightarrow> nat" where
  "digits_val ds = foldl (\<lambda>n c. 10 * n + digit_val c) 0 ds"

text \<open>Leading blanks, an optional sign and the longest run of digits; \<^const>\<open>None\<close> without digits.\<close>

definition sign_of :: "string \<Rightarrow> bool \<times> string" where
  "sign_of s =
     (case s of
        [] \<Rightarrow> (False, [])
      | c # cs \<Rightarrow> if c = CHR ''-'' then (True, cs) else if c = CHR ''+'' then (False, cs) else (False, s))"

definition scan_number :: "string \<Rightarrow> (bool \<times> nat) option" where
  "scan_number s =
     (let (neg, t) = sign_of (dropWhile is_space s); ds = takeWhile is_digit t
      in if ds = [] then None else Some (neg, digits_val ds))"

definition stoll :: "string \<Rightarrow> feed_error + int" where
  "stoll s =
     (case scan_number s of
        None \<Rightarrow> Inl Invalid_argument
      | Some (neg, n) \<Rightarrow>
          let v = (if neg then - int n else int n) in if i64_range v then Inr v else Inl Out_of_range)"

definition stoul :: "string \<Rightarrow> feed_error + u64" where
  "stoul s =
     (case scan_number s of
        None \<Rightarrow> Inl Invalid_argument
      | Some (neg, n) \<Rightarrow>
          if 2 ^ 64 \<le> n then Inl Out_of_range else Inr (if neg then - of_nat n else of_nat n))"

section \<open>The CSV file\<close>

text \<open>The lines \<^verbatim>\<open>std::getline\<close> yields; a last line need not end in a newline.\<close>

function file_lines :: "string \<Rightarrow> string list" where
  "file_lines s =
     (if s = [] then []
      else takeWhile (\<lambda>c. c \<noteq> CHR 0x0A) s # file_lines (drop 1 (dropWhile (\<lambda>c. c \<noteq> CHR 0x0A) s)))"
  by pat_completeness auto
termination
proof (relation "measure length", goal_cases)
  case (2 s)
  have "length (dropWhile (\<lambda>c. c \<noteq> CHR 0x0A) s) \<le> length s"
    by (rule length_dropWhile_le)
  moreover have "0 < length s"
    using 2 by simp
  ultimately show ?case
    by (simp del: length_greater_0_conv)
qed simp

declare file_lines.simps [simp del]

text \<open>One comma-separated field of what is left of a line; a stream at its end yields nothing.\<close>

definition getline_field :: "string option \<Rightarrow> string \<times> string option" where
  "getline_field st =
     (case st of
        None \<Rightarrow> ([], None)
      | Some s \<Rightarrow> (takeWhile (\<lambda>c. c \<noteq> CHR '','') s,
                   if CHR '','' \<in> set s then Some (drop 1 (dropWhile (\<lambda>c. c \<noteq> CHR '','') s)) else None))"

definition side_of_field :: "string \<Rightarrow> Side" where
  "side_of_field s = (if s = ''B'' \<or> s = ''b'' then Buy else Sell)"

definition parse_line :: "OrderId \<Rightarrow> string \<Rightarrow> feed_error + Order option" where
  "parse_line next_id line =
     (if line = [] \<or> hd line = CHR ''#'' then Inr None
      else let (side_str, st1) = getline_field (Some line)
           in if side_str = ''side'' then Inr None
              else let (price_str, st2) = getline_field st1; (qty_str, st3) = getline_field st2
                   in if price_str = [] \<or> qty_str = [] then Inr None
                      else case stoll price_str of
                             Inl e \<Rightarrow> Inl e
                           | Inr price \<Rightarrow>
                               (case stoul qty_str of
                                  Inl e \<Rightarrow> Inl e
                                | Inr qty \<Rightarrow> Inr (Some \<lparr>ord_id = next_id, ord_side = side_of_field side_str, ord_price = price,
                                                       ord_qty = ucast qty, ord_ts_ns = 0\<rparr>)))"

fun parse_lines :: "OrderId \<Rightarrow> string list \<Rightarrow> feed_error + Order list" where
  "parse_lines next_id [] = Inr []"
| "parse_lines next_id (line # lines) =
     (case parse_line next_id line of
        Inl e \<Rightarrow> Inl e
      | Inr None \<Rightarrow> parse_lines next_id lines
      | Inr (Some ord) \<Rightarrow> (case parse_lines (next_id + 1) lines of Inl e \<Rightarrow> Inl e | Inr ords \<Rightarrow> Inr (ord # ords)))"

text \<open>The contents of the file, or \<^const>\<open>None\<close> when it cannot be opened.\<close>

definition load_csv :: "string option \<Rightarrow> feed_error + Order list" where
  "load_csv file = (case file of None \<Rightarrow> Inl Cannot_open | Some s \<Rightarrow> parse_lines 1 (file_lines s))"

section \<open>The synthetic feed\<close>

text \<open>What the four distributions yield in one iteration.\<close>

record draw =
  dr_step :: int
  dr_buy :: bool
  dr_spread :: int
  dr_qty :: Qty

fun synthetic :: "Price \<Rightarrow> OrderId \<Rightarrow> draw list \<Rightarrow> Order list" where
  "synthetic mid next_id [] = []"
| "synthetic mid next_id (d # ds) =
     (let mid' = mid + dr_step d;
          px = (if dr_buy d then mid' - dr_spread d else mid' + dr_spread d)
      in \<lparr>ord_id = next_id, ord_side = (if dr_buy d then Buy else Sell), ord_price = px, ord_qty = dr_qty d, ord_ts_ns = 0\<rparr>
         # synthetic mid' (next_id + 1) ds)"

definition generate_synthetic :: "Price \<Rightarrow> draw list \<Rightarrow> Order list" where
  "generate_synthetic start_price ds = synthetic start_price 1 ds"

text \<open>The ranges of the distributions.\<close>

definition draw_ok :: "Qty \<Rightarrow> draw \<Rightarrow> bool" where
  "draw_ok max_qty d \<longleftrightarrow> - 3 \<le> dr_step d \<and> dr_step d \<le> 3 \<and> 1 \<le> dr_spread d \<and> dr_spread d \<le> 5 \<and> 1 \<le> dr_qty d \<and> dr_qty d \<le> max_qty"

section \<open>Writing a file\<close>

definition digit_char :: "nat \<Rightarrow> char" where
  "digit_char d = char_of (48 + d)"

fun show_nat :: "nat \<Rightarrow> string" where
  "show_nat n = (if n < 10 then [digit_char n] else show_nat (n div 10) @ [digit_char (n mod 10)])"

declare show_nat.simps [simp del]

definition show_int :: "int \<Rightarrow> string" where
  "show_int i = (if i < 0 then CHR ''-'' # show_nat (nat (- i)) else show_nat (nat i))"

definition csv_line :: "Order \<Rightarrow> string" where
  "csv_line r = (if ord_side r = Buy then ''B'' else ''S'') @ '','' @ show_int (ord_price r) @ '','' @ show_nat (unat (ord_qty r))"

definition csv_file :: "Order list \<Rightarrow> string" where
  "csv_file ords = ''side,price,qty'' @ [CHR 0x0A] @ concat (map (\<lambda>r. csv_line r @ [CHR 0x0A]) ords)"

lemma digit_char [simp]: "d < 10 \<Longrightarrow> is_digit (digit_char d)" "d < 10 \<Longrightarrow> digit_val (digit_char d) = d"
  by (simp_all add: is_digit_def digit_val_def digit_char_def)

lemma show_nat_digits: "\<forall>c \<in> set (show_nat n). is_digit c"
proof (induction n rule: show_nat.induct)
  case (1 n)
  then show ?case by (subst show_nat.simps) auto
qed

lemma show_nat_val: "digits_val (show_nat n) = n"
proof (induction n rule: show_nat.induct)
  case (1 n)
  then show ?case by (subst show_nat.simps) (auto simp: digits_val_def)
qed

lemma show_nat_nonempty [simp]: "show_nat n \<noteq> []"
  by (subst show_nat.simps) simp

section \<open>Reading a written file\<close>

lemma is_digit_other:
  assumes "is_digit c"
  shows "\<not> is_space c" "c \<noteq> CHR ''-''" "c \<noteq> CHR ''+''" "c \<noteq> CHR '',''" "c \<noteq> CHR 0x0A" "c \<noteq> CHR ''#''"
  using assms by (auto simp: is_digit_def is_space_def)

lemma scan_digits:
  assumes "\<forall>c \<in> set ds. is_digit c" and "ds \<noteq> []"
  shows "scan_number ds = Some (False, digits_val ds)" and "scan_number (CHR ''-'' # ds) = Some (True, digits_val ds)"
proof -
  have "takeWhile is_digit ds = ds"
    using assms(1) by simp
  moreover obtain d ds' where ds: "ds = d # ds'"
    using assms(2) by (cases ds) auto
  then have "\<not> is_space d" "d \<noteq> CHR ''-''" "d \<noteq> CHR ''+''"
    using assms(1) is_digit_other by simp_all
  moreover have "\<not> is_space (CHR ''-'')"
    by (simp add: is_space_def)
  ultimately show "scan_number ds = Some (False, digits_val ds)" "scan_number (CHR ''-'' # ds) = Some (True, digits_val ds)"
    by (simp_all add: scan_number_def sign_of_def ds)
qed

lemma scan_show:
  "scan_number (show_nat n) = Some (False, n)" "scan_number (show_int i) = Some (i < 0, nat \<bar>i\<bar>)"
  using scan_digits [OF show_nat_digits show_nat_nonempty] show_nat_val by (simp_all add: show_int_def)

lemma stoll_show: "i64_range i \<Longrightarrow> stoll (show_int i) = Inr i"
  by (auto simp: stoll_def scan_show Let_def)

lemma stoul_show: "n < 2 ^ 64 \<Longrightarrow> stoul (show_nat n) = Inr (of_nat n)"
  by (simp add: stoul_def scan_show)

lemma show_no_digit: "\<not> is_digit c \<Longrightarrow> c \<notin> set (show_nat n)" "\<not> is_digit c \<Longrightarrow> c \<noteq> CHR ''-'' \<Longrightarrow> c \<notin> set (show_int i)"
  using show_nat_digits by (auto simp: show_int_def)

lemma separators: "\<not> is_digit (CHR '','')" "\<not> is_digit (CHR 0x0A)"
  by (simp_all add: is_digit_def)

lemma show_other: "CHR '','' \<notin> set (show_nat n)" "CHR 0x0A \<notin> set (show_nat n)" "CHR '','' \<notin> set (show_int i)" "CHR 0x0A \<notin> set (show_int i)"
  "show_int i \<noteq> []"
  by (simp_all add: show_no_digit separators) (simp add: show_int_def)

lemma takeWhile_sep: "c \<notin> set xs \<Longrightarrow> takeWhile (\<lambda>x. x \<noteq> c) (xs @ c # ys) = xs" "c \<notin> set xs \<Longrightarrow> dropWhile (\<lambda>x. x \<noteq> c) (xs @ c # ys) = c # ys"
  "c \<notin> set xs \<Longrightarrow> takeWhile (\<lambda>x. x \<noteq> c) xs = xs"
  by (induction xs) auto

lemma getline_field_sep:
  "CHR '','' \<notin> set xs \<Longrightarrow> getline_field (Some (xs @ CHR '','' # ys)) = (xs, Some ys)"
  "CHR '','' \<notin> set xs \<Longrightarrow> getline_field (Some xs) = (xs, None)"
  by (simp_all add: getline_field_def takeWhile_sep)

definition csv_order :: "Order \<Rightarrow> bool" where
  "csv_order r \<longleftrightarrow> (ord_side r = Buy \<or> ord_side r = Sell) \<and> i64_range (ord_price r) \<and> ord_ts_ns r = 0"

lemma parse_csv_line:
  assumes "csv_order r"
  shows "parse_line (ord_id r) (csv_line r) = Inr (Some r)"
proof -
  define sd where "sd = (if ord_side r = Buy then ''B'' else ''S'')"
  let ?p = "show_int (ord_price r)" and ?q = "show_nat (unat (ord_qty r))"
  have line: "csv_line r = sd @ CHR '','' # (?p @ CHR '','' # ?q)"
    by (simp add: csv_line_def sd_def)
  have sd: "CHR '','' \<notin> set sd" "sd \<noteq> ''side''" "csv_line r \<noteq> []" "hd (csv_line r) \<noteq> CHR ''#''" "side_of_field sd = ord_side r"
    using assms unfolding line by (auto simp: sd_def side_of_field_def csv_order_def)
  have fields: "getline_field (Some (csv_line r)) = (sd, Some (?p @ CHR '','' # ?q))"
    "getline_field (Some (?p @ CHR '','' # ?q)) = (?p, Some ?q)" "getline_field (Some ?q) = (?q, None)"
    unfolding line by (rule getline_field_sep; simp add: sd show_other)+
  have "unat (ord_qty r) < 2 ^ 32"
    by (rule order_less_le_trans [OF unsigned_less]) simp
  then have "stoul ?q = Inr (of_nat (unat (ord_qty r)))"
    by (intro stoul_show) simp
  moreover have "ucast (of_nat (unat (ord_qty r)) :: u64) = ord_qty r"
    by (simp add: unsigned_ucast_eq take_bit_word_beyond_length_eq)
  moreover have "stoll ?p = Inr (ord_price r)"
    using assms by (intro stoll_show) (simp add: csv_order_def)
  ultimately show ?thesis
    using sd assms by (simp add: parse_line_def fields Let_def show_other csv_order_def)
qed

lemma file_lines_sep: "CHR 0x0A \<notin> set xs \<Longrightarrow> file_lines (xs @ CHR 0x0A # ys) = xs # file_lines ys"
  by (subst file_lines.simps) (simp add: takeWhile_sep)

lemma file_lines_csv: "file_lines (concat (map (\<lambda>r. csv_line r @ [CHR 0x0A]) ords)) = map csv_line ords"
proof (induction ords)
  case (Cons r ords)
  have "CHR 0x0A \<notin> set (csv_line r)"
    by (auto simp: csv_line_def show_other)
  with Cons show ?case
    using file_lines_sep [of "csv_line r"] by simp
qed (simp add: file_lines.simps)

lemma parse_csv_lines:
  assumes "\<forall>r \<in> set ords. csv_order r" and "map ord_id ords = map (\<lambda>i. n + of_nat i) [0..<length ords]"
  shows "parse_lines n (map csv_line ords) = Inr ords"
  using assms
proof (induction ords arbitrary: n)
  case (Cons r ords)
  have "ord_id r = n" and tail: "map ord_id ords = map (\<lambda>i. n + of_nat i) [Suc 0..<Suc (length ords)]"
    using Cons.prems(2) by (simp_all add: upt_conv_Cons del: upt_Suc)
  have "map (\<lambda>i. n + of_nat i) [Suc 0..<Suc (length ords)] = map (\<lambda>i. (n + 1) + of_nat i) [0..<length ords]"
    by (simp only: map_Suc_upt [symmetric] map_map) (simp add: o_def add.assoc)
  with tail have "parse_lines (n + 1) (map csv_line ords) = Inr ords"
    using Cons.prems(1) by (intro Cons.IH) simp_all
  moreover have "parse_line n (csv_line r) = Inr (Some r)"
    using parse_csv_line [of r] Cons.prems(1) \<open>ord_id r = n\<close> by simp
  ultimately show ?case by simp
qed simp

text \<open>
  The feed file round trip: writing orders numbered from 1 in the documented format, with its
  header row, and loading the file gives the same orders back, for every side, every 64-bit price and
  every quantity.
\<close>
lemma load_csv_round_trip:
  assumes "\<forall>r \<in> set ords. csv_order r" and "map ord_id ords = map (\<lambda>i. 1 + of_nat i) [0..<length ords]"
  shows "load_csv (Some (csv_file ords)) = Inr ords"
proof -
  have "file_lines (csv_file ords) = ''side,price,qty'' # map csv_line ords"
    unfolding csv_file_def using file_lines_sep [of "''side,price,qty''"] by (simp add: file_lines_csv)
  moreover have "parse_line 1 ''side,price,qty'' = Inr None"
    by (simp add: parse_line_def getline_field_def)
  ultimately show ?thesis
    using parse_csv_lines [OF assms] by (simp add: load_csv_def)
qed

text \<open>
  What the loader lets through: a negative or oversized quantity is not an error but some other
  quantity, and every side but \<^verbatim>\<open>B\<close> and \<^verbatim>\<open>b\<close> is a sell.
\<close>

lemma bad_fields_accepted:
  "parse_line n ''B,100,-5'' = Inr (Some \<lparr>ord_id = n, ord_side = Buy, ord_price = 100, ord_qty = 4294967291, ord_ts_ns = 0\<rparr>)"
  "parse_line n ''buy,100,4294967297'' = Inr (Some \<lparr>ord_id = n, ord_side = Sell, ord_price = 100, ord_qty = 1, ord_ts_ns = 0\<rparr>)"
proof -
  note defs = scan_number_def sign_of_def is_space_def is_digit_def digits_val_def digit_val_def Let_def
  have "stoul ''-5'' = Inr (- 5)" "stoul ''4294967297'' = Inr 4294967297" "stoll ''100'' = Inr 100"
    by (simp_all add: stoul_def stoll_def defs i64_range_def)
  then show "parse_line n ''B,100,-5'' = Inr (Some \<lparr>ord_id = n, ord_side = Buy, ord_price = 100, ord_qty = 4294967291, ord_ts_ns = 0\<rparr>)"
    "parse_line n ''buy,100,4294967297'' = Inr (Some \<lparr>ord_id = n, ord_side = Sell, ord_price = 100, ord_qty = 1, ord_ts_ns = 0\<rparr>)"
    by (simp_all add: parse_line_def getline_field_def side_of_field_def)
qed

section \<open>Bounds of the synthetic feed\<close>

lemma synthetic_bounds:
  assumes "\<forall>d \<in> set ds. draw_ok max_qty d" and "i < length ds"
  shows "ord_id (synthetic mid n ds ! i) = n + of_nat i \<and>
    \<bar>ord_price (synthetic mid n ds ! i) - mid\<bar> \<le> 3 * int (Suc i) + 5 \<and>
    1 \<le> ord_qty (synthetic mid n ds ! i) \<and> ord_qty (synthetic mid n ds ! i) \<le> max_qty"
  using assms
proof (induction ds arbitrary: mid n i)
  case (Cons d ds)
  have d: "draw_ok max_qty d" using Cons.prems(1) by simp
  show ?case
  proof (cases i)
    case 0
    with d show ?thesis by (auto simp: draw_ok_def Let_def)
  next
    case (Suc j)
    with Cons.IH [of j "mid + dr_step d" "n + 1"] Cons.prems d show ?thesis
      by (auto simp: draw_ok_def Let_def)
  qed
qed simp

lemma length_synthetic [simp]: "length (synthetic mid n ds) = length ds"
  by (induction ds arbitrary: mid n) (simp_all add: Let_def)

end
