(* ===== verification/Command_Line.thy ===== *)
theory Command_Line
  imports Market_Data_Feed
begin

text \<open>
  The argument loops of the three feed programs (\<^verbatim>\<open>src/main.cpp\<close>, \<^verbatim>\<open>src/feed_publisher.cpp\<close> and
  \<^verbatim>\<open>src/engine_subscriber.cpp\<close>) and the positional arguments of the gateway (\<^verbatim>\<open>src/gateway_main.cpp\<close>). An option that needs a value and comes last is ignored, as is every
  unknown argument; a malformed number is the exception of \<^verbatim>\<open>std::stoi\<close> or \<^verbatim>\<open>std::stoull\<close>. The lemmas
  show that every setting written on the command line is the one the program runs with.
\<close>

definition stoi :: "string \<Rightarrow> feed_error + int" where
  "stoi s =
     (case stoll s of
        Inl e \<Rightarrow> Inl e
      | Inr v \<Rightarrow> if - (2 ^ 31) \<le> v \<and> v < 2 ^ 31 then Inr v else Inl Out_of_range)"

text \<open>What an argument loop ends with: the options, or the request for the usage text.\<close>

datatype 'o parsed = Run 'o | Show_help

section \<open>The in-process replay\<close>

record replay_options =
  ro_data_file :: string
  ro_synthetic_count :: u64
  ro_run_self_test :: bool

definition replay_defaults :: replay_options where
  "replay_defaults = \<lparr>ro_data_file = [], ro_synthetic_count = 200000, ro_run_self_test = False\<rparr>"

fun replay_args :: "string list \<Rightarrow> replay_options \<Rightarrow> feed_error + replay_options parsed" where
  "replay_args [] opts = Inr (Run opts)"
| "replay_args (arg # argv) opts =
     (if arg = ''--test'' then replay_args argv (opts\<lparr>ro_run_self_test := True\<rparr>)
      else if arg = ''--data'' \<and> argv \<noteq> [] then replay_args (tl argv) (opts\<lparr>ro_data_file := hd argv\<rparr>)
      else if arg = ''--count'' \<and> argv \<noteq> [] then
        (case stoul (hd argv) of
           Inl e \<Rightarrow> Inl e
         | Inr n \<Rightarrow> replay_args (tl argv) (opts\<lparr>ro_synthetic_count := n\<rparr>))
      else if arg = ''--help'' then Inr Show_help
      else replay_args argv opts)"

section \<open>The publisher\<close>

record publisher_options =
  po_data_file :: string
  po_synthetic_count :: u64
  po_group_ip :: string
  po_port :: u16
  po_delay_us :: int

definition publisher_defaults :: publisher_options where
  "publisher_defaults = \<lparr>po_data_file = [], po_synthetic_count = 200000, po_group_ip = ''239.255.0.1'', po_port = 30001,
     po_delay_us = 0\<rparr>"

fun publisher_args :: "string list \<Rightarrow> publisher_options \<Rightarrow> feed_error + publisher_options parsed" where
  "publisher_args [] opts = Inr (Run opts)"
| "publisher_args (arg # argv) opts =
     (if arg = ''--data'' \<and> argv \<noteq> [] then publisher_args (tl argv) (opts\<lparr>po_data_file := hd argv\<rparr>)
      else if arg = ''--count'' \<and> argv \<noteq> [] then
        (case stoul (hd argv) of
           Inl e \<Rightarrow> Inl e
         | Inr n \<Rightarrow> publisher_args (tl argv) (opts\<lparr>po_synthetic_count := n\<rparr>))
      else if arg = ''--group'' \<and> argv \<noteq> [] then publisher_args (tl argv) (opts\<lparr>po_group_ip := hd argv\<rparr>)
      else if arg = ''--port'' \<and> argv \<noteq> [] then
        (case stoi (hd argv) of
           Inl e \<Rightarrow> Inl e
         | Inr n \<Rightarrow> publisher_args (tl argv) (opts\<lparr>po_port := of_int n\<rparr>))
      else if arg = ''--delay-us'' \<and> argv \<noteq> [] then
        (case stoi (hd argv) of
           Inl e \<Rightarrow> Inl e
         | Inr n \<Rightarrow> publisher_args (tl argv) (opts\<lparr>po_delay_us := n\<rparr>))
      else if arg = ''--help'' then Inr Show_help
      else publisher_args argv opts)"

section \<open>The subscriber\<close>

record subscriber_options =
  so_group_ip :: string
  so_port :: u16

definition subscriber_defaults :: subscriber_options where
  "subscriber_defaults = \<lparr>so_group_ip = ''239.255.0.1'', so_port = 30001\<rparr>"

fun subscriber_args :: "string list \<Rightarrow> subscriber_options \<Rightarrow> feed_error + subscriber_options parsed" where
  "subscriber_args [] opts = Inr (Run opts)"
| "subscriber_args (arg # argv) opts =
     (if arg = ''--group'' \<and> argv \<noteq> [] then subscriber_args (tl argv) (opts\<lparr>so_group_ip := hd argv\<rparr>)
      else if arg = ''--port'' \<and> argv \<noteq> [] then
        (case stoi (hd argv) of
           Inl e \<Rightarrow> Inl e
         | Inr n \<Rightarrow> subscriber_args (tl argv) (opts\<lparr>so_port := of_int n\<rparr>))
      else if arg = ''--help'' then Inr Show_help
      else subscriber_args argv opts)"

section \<open>The gateway\<close>

text \<open>\<^verbatim>\<open>atoi\<close> of a text without number is 0; a number outside \<^verbatim>\<open>int\<close> makes it undefined.\<close>

definition atoi :: "string \<Rightarrow> int option" where
  "atoi s =
     (case scan_number s of
        None \<Rightarrow> Some 0
      | Some (neg, n) \<Rightarrow>
          let v = (if neg then - int n else int n) in if - (2 ^ 31) \<le> v \<and> v < 2 ^ 31 then Some v else None)"

record gateway_options =
  go_port :: u16
  go_wal_path :: string
  go_db_path :: string

definition gateway_args :: "string list \<Rightarrow> gateway_options option" where
  "gateway_args argv =
     (case (case argv of [] \<Rightarrow> Some 9000 | a # _ \<Rightarrow> map_option of_int (atoi a)) of
        None \<Rightarrow> None
      | Some port \<Rightarrow>
          Some \<lparr>go_port = port, go_wal_path = (if 1 < length argv then argv ! 1 else ''wal/events.bin''),
                go_db_path = (if 2 < length argv then argv ! 2 else ''db/hft_lob.db'')\<rparr>)"

section \<open>Settings survive the command line\<close>

definition publisher_argv :: "publisher_options \<Rightarrow> string list" where
  "publisher_argv opts = [''--data'', po_data_file opts, ''--count'', show_nat (unat (po_synthetic_count opts)),
     ''--group'', po_group_ip opts, ''--port'', show_nat (unat (po_port opts)), ''--delay-us'', show_int (po_delay_us opts)]"

lemma stoi_show: "- (2 ^ 31) \<le> v \<Longrightarrow> v < 2 ^ 31 \<Longrightarrow> stoi (show_int v) = Inr v"
  using stoll_show [of v] by (simp add: stoi_def i64_range_def)

lemma stoi_show_nat: "n < 2 ^ 31 \<Longrightarrow> stoi (show_nat n) = Inr (int n)"
  using stoi_show [of "int n"] by (simp add: show_int_def)

lemma publisher_args_given:
  assumes "- (2 ^ 31) \<le> po_delay_us opts" and "po_delay_us opts < 2 ^ 31"
  shows "publisher_args (publisher_argv opts) opts' = Inr (Run opts)"
proof -
  have "stoi (show_nat (unat (po_port opts))) = Inr (int (unat (po_port opts)))"
    by (intro stoi_show_nat order_less_le_trans [OF unsigned_less]) simp
  moreover have "stoul (show_nat (unat (po_synthetic_count opts))) = Inr (po_synthetic_count opts)"
    by (subst stoul_show) (rule order_less_le_trans [OF unsigned_less], simp_all)
  ultimately show ?thesis
    using stoi_show [OF assms] by (simp add: publisher_argv_def)
qed

text \<open>The publisher the supervisor starts, and two command lines that are not reported as mistakes.\<close>

lemma supervised_publisher: "publisher_args [''--count'', ''200000''] publisher_defaults = Inr (Run publisher_defaults)"
  by (simp add: publisher_defaults_def stoul_def scan_number_def sign_of_def is_space_def is_digit_def digits_val_def digit_val_def)

lemma dangling_option_ignored: "publisher_args [''--port''] opts = Inr (Run opts)"
  by simp

lemma port_truncated: "subscriber_args [''--port'', ''70000''] opts = Inr (Run (opts\<lparr>so_port := 4464\<rparr>))"
  by (simp add: stoi_def stoll_def scan_number_def sign_of_def is_space_def is_digit_def digits_val_def digit_val_def i64_range_def)

lemma gateway_args_given:
  "gateway_args [show_nat (unat port), w, d] = Some \<lparr>go_port = port, go_wal_path = w, go_db_path = d\<rparr>"
proof -
  have "unat port < 2 ^ 16"
    by (rule order_less_le_trans [OF unsigned_less]) simp
  then have "atoi (show_nat (unat port)) = Some (int (unat port))"
    using scan_digits(1) [OF show_nat_digits show_nat_nonempty, of "unat port"] by (simp add: atoi_def show_nat_val)
  then show ?thesis
    by (simp add: gateway_args_def)
qed

text \<open>A port that is no number is port 0, which lets the system choose one.\<close>

lemma gateway_port_not_a_number: "map_option go_port (gateway_args [''nine'']) = Some 0"
  by (simp add: gateway_args_def atoi_def scan_number_def sign_of_def is_space_def is_digit_def)

end
