(* ===== verification/Gateway_Main.thy ===== *)
theory Gateway_Main
  imports Gateway_Process Command_Line
begin

text \<open>
  The main function of \<^verbatim>\<open>src/gateway_main.cpp\<close> from the command line to the exit code, with the \<^verbatim>\<open>start\<close> and \<^verbatim>\<open>stop\<close>
  functions and the destructors of the three consumers. The file system, the database library, the results of the socket calls and
  the schedule of the threads are arguments. The theory shows what is in the two files when the program exits, with which
  code it exits, and that the shutdown never gets stuck.
\<close>

section \<open>Threads of the consumers\<close>

record worker =
  wk_running :: bool
  wk_joinable :: bool

definition worker_init :: worker where
  "worker_init = \<lparr>wk_running = False, wk_joinable = False\<rparr>"

text \<open>Assigning to a thread object that still has a thread ends the program, which is \<^const>\<open>None\<close>.\<close>

definition spawn_thread :: "worker \<Rightarrow> worker option" where
  "spawn_thread k = (if wk_joinable k then None else Some \<lparr>wk_running = True, wk_joinable = True\<rparr>)"

text \<open>\<open>finish\<close> is what the thread still does between the cleared flag and its end.\<close>

definition stop_worker :: "('s \<Rightarrow> 's option) \<Rightarrow> worker \<Rightarrow> 's \<Rightarrow> (worker \<times> 's) option" where
  "stop_worker finish k s =
     (if wk_joinable k then map_option (Pair \<lparr>wk_running = False, wk_joinable = False\<rparr>) (finish s)
      else Some (k\<lparr>wk_running := False\<rparr>, s))"

text \<open>
  How the program ends: with an exit code, by an exception of the file system or the database that nothing catches, by
  \<^verbatim>\<open>std::terminate\<close>, undefined, or not yet.
\<close>

datatype gw_end = Gw_exit nat | Gw_filesystem_error | Gw_database_error db_error | Gw_terminated | Gw_undefined | Gw_running

definition matcher_start :: "worker \<Rightarrow> gw_end + worker" where
  "matcher_start k = (case spawn_thread k of None \<Rightarrow> Inl Gw_terminated | Some k' \<Rightarrow> Inr k')"

text \<open>\<open>dir_ok\<close> tells whether the directory of the file exists or can be created; \<^verbatim>\<open>create_directories\<close> throws otherwise.\<close>

definition wal_start :: "bool \<Rightarrow> bool \<Rightarrow> int \<Rightarrow> worker \<Rightarrow> wal \<Rightarrow> gw_end + bool \<times> worker \<times> wal" where
  "wal_start dir_ok can_open now k w =
     (if \<not> dir_ok then Inl Gw_filesystem_error
      else case wal_open can_open now w of
        (False, w') \<Rightarrow> Inr (False, k, w')
      | (True, w') \<Rightarrow> (case spawn_thread k of None \<Rightarrow> Inl Gw_terminated | Some k' \<Rightarrow> Inr (True, k', w')))"

definition db_start :: "'d sqlite \<Rightarrow> bool \<Rightarrow> int \<Rightarrow> worker \<Rightarrow> 'd db \<Rightarrow> gw_end + bool \<times> worker \<times> 'd db" where
  "db_start api dir_ok now k d =
     (if \<not> dir_ok then Inl Gw_filesystem_error
      else case db_open api now d of
        Inl err \<Rightarrow> Inl (Gw_database_error err)
      | Inr (False, d') \<Rightarrow> Inr (False, k, d')
      | Inr (True, d') \<Rightarrow> (case spawn_thread k of None \<Rightarrow> Inl Gw_terminated | Some k' \<Rightarrow> Inr (True, k', d')))"

definition matcher_finish :: "drain \<Rightarrow> 'd exchange \<Rightarrow> 'd exchange option" where
  "matcher_finish env x =
     map_option (\<lambda>(b, e). set_output b (x\<lparr>x_engine := e\<rparr>)) (consume_all try_consume 0 (engine_apply env) (seq_output (x_seq x)) (x_engine x))"

definition wal_finish :: "'d surroundings \<Rightarrow> int \<times> int \<Rightarrow> 'd exchange \<Rightarrow> 'd exchange option" where
  "wal_finish en t x =
     (case consume_all try_consume 1 (on_log en) (seq_output (x_seq x)) (x_wal x) of
        None \<Rightarrow> None
      | Some (b, w) \<Rightarrow> map_option (\<lambda>w'. set_output b (x\<lparr>x_wal := w'\<rparr>)) (wal_close t w))"

definition db_finish :: "'d surroundings \<Rightarrow> int \<times> int \<Rightarrow> 'd exchange \<Rightarrow> 'd exchange option" where
  "db_finish en t x =
     (case consume_all try_consume 2 (on_store en) (seq_output (x_seq x)) (x_db x) of
        None \<Rightarrow> None
      | Some (b, d) \<Rightarrow>
     (case (case fills (x_engine x) of None \<Rightarrow> Some (None, d) | Some q \<Rightarrow> map_option (apfst Some) (drain_fills (on_report en) q d)) of
        None \<Rightarrow> None
      | Some (fq, d') \<Rightarrow>
          map_option (\<lambda>d''. set_output b (x\<lparr>x_engine := (x_engine x)\<lparr>fills := fq\<rparr>, x_db := d''\<rparr>)) (no_throw (db_close (en_api en) t d'))))"

definition matcher_stop :: "drain \<Rightarrow> worker \<Rightarrow> 'd exchange \<Rightarrow> (worker \<times> 'd exchange) option" where
  "matcher_stop env = stop_worker (matcher_finish env)"

definition wal_stop :: "'d surroundings \<Rightarrow> int \<times> int \<Rightarrow> worker \<Rightarrow> 'd exchange \<Rightarrow> (worker \<times> 'd exchange) option" where
  "wal_stop en t = stop_worker (wal_finish en t)"

definition db_stop :: "'d surroundings \<Rightarrow> int \<times> int \<Rightarrow> worker \<Rightarrow> 'd exchange \<Rightarrow> (worker \<times> 'd exchange) option" where
  "db_stop en t = stop_worker (db_finish en t)"

text \<open>Destructors. Those of the consumers do not join; a thread that was not stopped makes the destructor of its object end the program.\<close>

definition matcher_destroy :: "worker \<Rightarrow> bool" where
  "matcher_destroy k \<longleftrightarrow> \<not> wk_joinable k"

definition wal_destroy :: "worker \<Rightarrow> wal \<Rightarrow> wal option" where
  "wal_destroy k w = (if wk_joinable k then None else Some (w\<lparr>file_open := False\<rparr>))"

definition db_destroy :: "'d sqlite \<Rightarrow> int \<times> int \<Rightarrow> worker \<Rightarrow> 'd db \<Rightarrow> 'd db option" where
  "db_destroy api t k d = (case no_throw (db_close api t d) of None \<Rightarrow> None | Some d' \<Rightarrow> if wk_joinable k then None else Some d')"

section \<open>The main function\<close>

record 'd machine =
  mc_dir_ok :: "string \<Rightarrow> bool"
  mc_can_open :: "string \<Rightarrow> bool"
  mc_log :: "string \<Rightarrow> u8 list"
  mc_db :: "string \<Rightarrow> 'd"
  mc_sockets :: "u16 \<Rightarrow> int \<times> int \<times> int \<times> int"

record 'd gw_outcome =
  gw_lines :: "string list"
  gw_frames :: "(int \<times> u8 list) list"
  gw_machine :: "'d machine"
  gw_ends :: gw_end

text \<open>
  The schedule: the run of the poll loop and of the threads beside it until the flag set by the signal handler is seen, the steps of
  the threads while the server is being started, and those while \<^verbatim>\<open>main\<close> waits for the sequencer thread. \<open>sc_drain\<close> says how the queue of
  acknowledgements is emptied while the matching engine stops; the pairs are clock readings.
\<close>

record schedule =
  sc_wal_now :: int
  sc_db_now :: int
  sc_net :: net
  sc_early :: "x_action list"
  sc_run :: "p_action list"
  sc_join :: "x_action list"
  sc_drain :: drain
  sc_wal_t :: "int \<times> int"
  sc_db_t :: "int \<times> int"

definition stuck :: "'d machine \<Rightarrow> string list \<Rightarrow> (int \<times> u8 list) list \<Rightarrow> gw_end \<Rightarrow> 'd gw_outcome" where
  "stuck m ls ffs e = \<lparr>gw_lines = ls, gw_frames = ffs, gw_machine = m, gw_ends = e\<rparr>"

text \<open>Returning destroys database writer, log and matching engine, in this order.\<close>

definition return_from_main :: "'d surroundings \<Rightarrow> 'd machine \<Rightarrow> gateway_options \<Rightarrow> schedule \<Rightarrow> string list \<Rightarrow> (int \<times> u8 list) list \<Rightarrow> nat
     \<Rightarrow> worker \<times> worker \<times> worker \<Rightarrow> 'd exchange \<Rightarrow> 'd gw_outcome" where
  "return_from_main en m opts sc ls ffs code ks x =
     (case ks of (km, kw, kd) \<Rightarrow>
       (case db_destroy (en_api en) (sc_db_t sc) kd (x_db x) of
          None \<Rightarrow> stuck m ls ffs Gw_terminated
        | Some d \<Rightarrow>
       (case wal_destroy kw (x_wal x) of
          None \<Rightarrow> stuck m ls ffs Gw_terminated
        | Some w \<Rightarrow>
            if matcher_destroy km
            then stuck (m\<lparr>mc_log := (mc_log m)(go_wal_path opts := durable w @ written w), mc_db := (mc_db m)(go_db_path opts := db_conn d)\<rparr>)
                   ls ffs (Gw_exit code)
            else stuck m ls ffs Gw_terminated)))"

definition shut_down :: "'d surroundings \<Rightarrow> 'd machine \<Rightarrow> gateway_options \<Rightarrow> schedule \<Rightarrow> string list \<Rightarrow> (int \<times> u8 list) list \<Rightarrow> nat
     \<Rightarrow> worker \<times> worker \<times> worker \<Rightarrow> 'd exchange \<Rightarrow> 'd gw_outcome" where
  "shut_down en m opts sc ls ffs code ks x =
     (case ks of (km, kw, kd) \<Rightarrow>
       (case fold_opt (x_act en) (X_seq Stop # sc_join sc) x of
          None \<Rightarrow> stuck m ls ffs Gw_undefined
        | Some x1 \<Rightarrow>
            if seq_thread_pc (x_seq x1) \<noteq> Seq_done then stuck m ls ffs Gw_running
            else
       (case matcher_stop (sc_drain sc) km x1 of
          None \<Rightarrow> stuck m ls ffs Gw_undefined
        | Some (km', x2) \<Rightarrow>
       (case wal_stop en (sc_wal_t sc) kw x2 of
          None \<Rightarrow> stuck m ls ffs Gw_undefined
        | Some (kw', x3) \<Rightarrow>
       (case db_stop en (sc_db_t sc) kd x3 of
          None \<Rightarrow> stuck m ls ffs Gw_undefined
        | Some (kd', x4) \<Rightarrow> return_from_main en m opts sc ls ffs code (km', kw', kd') x4)))))"

text \<open>From the server on; the three threads and the sequencer run. Lines are those of both output streams.\<close>

definition serve :: "'d surroundings \<Rightarrow> 'd machine \<Rightarrow> gateway_options \<Rightarrow> schedule \<Rightarrow> worker \<times> worker \<times> worker \<Rightarrow> 'd exchange \<Rightarrow> 'd gw_outcome" where
  "serve en m opts sc ks x =
     (case mc_sockets m (go_port opts) of
        (sock, bound, listening, kq) \<Rightarrow>
          (case server_start sock bound listening kq (server_init (inputs (x_seq x) ! 0) (acks (x_engine x))) of
             (False, g) \<Rightarrow>
               (let ls = [''Failed to start gateway on port '' @ show_nat (unat (go_port opts))]
                in case fold_opt (x_act en) (sc_early sc) x of
                     None \<Rightarrow> stuck m ls [] Gw_undefined
                   | Some x1 \<Rightarrow> shut_down en m opts sc ls [] 1 ks x1)
           | (True, g) \<Rightarrow>
               (let ls = [''Gateway listening on port '' @ show_nat (unat (go_port opts)),
                          ''WAL: '' @ go_wal_path opts @ ''  DB: '' @ go_db_path opts]
                in case fold_opt (p_act en (sc_net sc)) (sc_run sc) \<lparr>pg_x = x, pg_gw = g, pg_pc = Gw_idle, pg_frames = []\<rparr> of
                     None \<Rightarrow> stuck m ls [] Gw_undefined
                   | Some s \<Rightarrow>
                       if pg_pc s \<noteq> Gw_idle then stuck m ls (pg_frames s) Gw_running
                       else shut_down en m opts sc (ls @ [''Shutting down.'']) (pg_frames s) 0 ks (pg_x s))))"

definition gateway_exchange :: "'d machine \<Rightarrow> gateway_options \<Rightarrow> SequencedEvent \<Rightarrow> OutboundAck \<Rightarrow> 'd exchange" where
  "gateway_exchange m opts dev dack = exchange_init (2 ^ 16) 8 (2 ^ 20) (2 ^ 16) (2 ^ 20) dev dack
     (wal_init (mc_log m (go_wal_path opts)) 256 50) (db_init (mc_db m (go_db_path opts)) 256 50)"

definition gateway_main :: "'d surroundings \<Rightarrow> 'd machine \<Rightarrow> SequencedEvent \<Rightarrow> OutboundAck \<Rightarrow> schedule \<Rightarrow> string list \<Rightarrow> 'd gw_outcome" where
  "gateway_main en m dev dack sc argv =
     (case gateway_args argv of
        None \<Rightarrow> stuck m [] [] Gw_undefined
      | Some opts \<Rightarrow>
     (let wp = go_wal_path opts; dp = go_db_path opts; x = gateway_exchange m opts dev dack
      in case wal_start (mc_dir_ok m wp) (mc_can_open m wp) (sc_wal_now sc) worker_init (x_wal x) of
           Inl e \<Rightarrow> stuck m [] [] e
         | Inr (False, kw, w) \<Rightarrow>
             return_from_main en m opts sc [''Failed to open WAL at '' @ wp] [] 1 (worker_init, kw, worker_init) (x\<lparr>x_wal := w\<rparr>)
         | Inr (True, kw, w) \<Rightarrow>
     (case db_start (en_api en) (mc_dir_ok m dp) (sc_db_now sc) worker_init (x_db x) of
        Inl e \<Rightarrow> stuck m [] [] e
      | Inr (False, kd, d) \<Rightarrow>
          (let ls = [''Failed to open DB at '' @ dp]
           in case wal_stop en (sc_wal_t sc) kw (x\<lparr>x_wal := w, x_db := d\<rparr>) of
                None \<Rightarrow> stuck m ls [] Gw_undefined
              | Some (kw', x') \<Rightarrow> return_from_main en m opts sc ls [] 1 (worker_init, kw', kd) x')
      | Inr (True, kd, d) \<Rightarrow>
     (case matcher_start worker_init of
        Inl e \<Rightarrow> stuck m [] [] e
      | Inr km \<Rightarrow> serve en m opts sc (km, kw, kd) (x\<lparr>x_wal := w, x_db := d, x_seq := seq_start (x_seq x)\<rparr>)))))"

section \<open>The consumers' threads\<close>

definition busy_worker :: worker where
  "busy_worker = \<lparr>wk_running = True, wk_joinable = True\<rparr>"

lemma stop_worker_twice:
  assumes "stop_worker finish k s = Some (k', s')"
  shows "stop_worker finish k' s' = Some (k', s')"
  using assms by (auto simp: stop_worker_def split: if_splits)

text \<open>Starting again without a stop in between ends the program; after a stop it does not.\<close>

lemma start_twice: "matcher_start k = Inr k' \<Longrightarrow> matcher_start k' = Inl Gw_terminated"
  by (auto simp: matcher_start_def spawn_thread_def split: if_splits)

lemma restart: "matcher_stop env k x = Some (k', x') \<Longrightarrow> \<exists>k''. matcher_start k' = Inr k''"
  by (auto simp: matcher_start_def spawn_thread_def matcher_stop_def stop_worker_def split: if_splits)

lemma started [simp]: "matcher_start worker_init = Inr busy_worker" "spawn_thread worker_init = Some busy_worker"
  by (simp_all add: matcher_start_def spawn_thread_def worker_init_def busy_worker_def)

lemma stop_busy: "stop_worker finish busy_worker s = map_option (Pair worker_init) (finish s)"
  by (simp add: stop_worker_def busy_worker_def worker_init_def)

text \<open>Stopping the three consumers one after the other is the shutdown of the exchange.\<close>

lemma stops_shutdown:
  "(case matcher_stop env busy_worker x of None \<Rightarrow> None | Some (km, x1) \<Rightarrow>
     (case wal_stop en wal_t busy_worker x1 of None \<Rightarrow> None | Some (kw, x2) \<Rightarrow>
       map_option (\<lambda>(kd, x3). ((km, kw, kd), x3)) (db_stop en db_t busy_worker x2))) =
   map_option (Pair (worker_init, worker_init, worker_init)) (exchange_shutdown en env wal_t db_t x)"
  by (auto simp: matcher_stop_def wal_stop_def db_stop_def stop_busy matcher_finish_def wal_finish_def db_finish_def exchange_shutdown_def
      set_output_def split: option.splits prod.splits)

section \<open>The sequencer thread ends\<close>

text \<open>How many steps the thread makes at most until it tests the flag and finds it cleared.\<close>

fun sweep_left :: "seq_pc \<Rightarrow> nat" where
  "sweep_left Seq_check = 1"
| "sweep_left (Seq_poll p i) = 2 * (kMaxBatch - i) + 2 * kMaxBatch * (2 - p) + 1"
| "sweep_left (Seq_publish p i ev) = 2 * (kMaxBatch - i) + 2 * kMaxBatch * (2 - p)"
| "sweep_left Seq_done = 0"

lemma sweep_left_bound: "pc_ok pc \<Longrightarrow> sweep_left pc \<le> 193"
  by (cases pc) (auto simp: kMaxBatch_def)

lemma sweep_left_next:
  assumes "p < producer_count" and "i < kMaxBatch"
  shows "sweep_left (next_producer p) < sweep_left (Seq_poll p i)" and "sweep_left (next_in_batch p i) < sweep_left (Seq_publish p i ev)"
  using assms by (auto simp: next_producer_def next_in_batch_def producer_count_def kMaxBatch_def)

lemma seq_thread_sweeps:
  assumes inv: "seq_inv s acc hist" and room: "has_room 0 hist s" and stop: "\<not> seq_running s" and going: "seq_thread_pc s \<noteq> Seq_done"
    and step: "seq_thread now s = Some s'"
  shows "\<not> seq_running s'" and "sweep_left (seq_thread_pc s') < sweep_left (seq_thread_pc s)"
proof -
  have "\<not> seq_running s' \<and> sweep_left (seq_thread_pc s') < sweep_left (seq_thread_pc s)"
  proof (cases "seq_thread_pc s")
    case (Seq_poll p i)
    then have "p < producer_count" "i < kMaxBatch"
      using inv by (auto simp: seq_inv_def)
    with Seq_poll step stop sweep_left_next(1) show ?thesis
      by (auto simp: seq_thread_def split: option.splits)
  next
    case (Seq_publish p i ev)
    then have "p < producer_count" "i < kMaxBatch"
      using inv by (auto simp: seq_inv_def)
    moreover obtain b where "try_publish (seq_output s) ev = Some (True, b)"
      using try_publish_room [OF inv room] by blast
    ultimately show ?thesis
      using Seq_publish step stop sweep_left_next(2) by (auto simp: seq_thread_def)
  qed (use stop going step in \<open>auto simp: seq_thread_def\<close>)
  then show "\<not> seq_running s'" and "sweep_left (seq_thread_pc s') < sweep_left (seq_thread_pc s)"
    by simp_all
qed

lemma consume_one_moves:
  assumes "bring_hist b hist" and "i < consumer_count b" and "consume_one f i b s = Some (b', s')"
  shows "length (slots b') = length (slots b) \<and> reader_pos b' = (reader_pos b)(i := min (length hist) (Suc (reader_pos b i)))"
proof (cases "reader_pos b i < length hist")
  case True
  from bl.consume_next [OF assms(1,2) True] assms(3) obtain b1 where
    "try_consume b i = Some (Some (hist ! reader_pos b i, b1))" "reader_pos b1 = (reader_pos b)(i := Suc (reader_pos b i))" "b' = b1"
    by (auto simp: consume_one_def)
  with True show ?thesis
    by (auto simp: try_consume_def Let_def split: if_splits)
next
  case False
  then have "reader_pos b i = length hist"
    using bl.pos_le [OF assms(1,2)] by simp
  with bl.consume_end [OF assms(1,2)] assms(3) show ?thesis
    by (auto simp: consume_one_def fun_eq_iff)
qed

text \<open>When each consumer has taken one event, or has none to take, there is room for another one.\<close>

definition catch_up :: "x_action list" where
  "catch_up = [X_match (\<lambda>a k q. q), X_log, X_store]"

fun reader_of :: "x_action \<Rightarrow> nat option" where
  "reader_of (X_match env) = Some 0"
| "reader_of X_log = Some 1"
| "reader_of X_store = Some 2"
| "reader_of _ = None"

lemma reader_moves:
  assumes inv: "x_inv en view disk txn T wdisk every env0 e0 hist as x" and "reader_of a = Some i"
  shows "\<exists>x'. x_act en a x = Some x' \<and> x_inv en view disk txn T wdisk every env0 e0 hist as x' \<and>
    x_seq x' = (x_seq x)\<lparr>seq_output := seq_output (x_seq x')\<rparr> \<and> length (slots (seq_output (x_seq x'))) = length (slots (seq_output (x_seq x))) \<and>
    reader_pos (seq_output (x_seq x')) = (reader_pos (seq_output (x_seq x)))(i := min (length hist) (Suc (reader_pos (seq_output (x_seq x)) i)))"
proof -
  note parts = x_inv_parts [OF inv]
  have "i < 3"
    using assms(2) by (cases a rule: reader_of.cases) auto
  then have moves: "consume_one f i (seq_output (x_seq x)) s = Some (b', s') \<Longrightarrow>
      length (slots b') = length (slots (seq_output (x_seq x))) \<and>
      reader_pos b' = (reader_pos (seq_output (x_seq x)))(i := min (length hist) (Suc (reader_pos (seq_output (x_seq x)) i)))" for f s b' s'
    using consume_one_moves [OF parts(3)] parts(2) by simp
  show ?thesis
  proof (cases a rule: reader_of.cases)
    case (1 env)
    then have i: "i = 0"
      using assms(2) by simp
    from 1 x_match_step [OF inv, of env] show ?thesis by (auto simp: set_output_def i simp del: One_nat_def dest: moves [unfolded i])
  next
    case 2
    then have i: "i = 1"
      using assms(2) by simp
    from 2 x_log_step [OF inv] show ?thesis by (auto simp: set_output_def i simp del: One_nat_def dest: moves [unfolded i])
  next
    case 3
    then have i: "i = 2"
      using assms(2) by simp
    from 3 x_store_step [OF inv] show ?thesis by (auto simp: set_output_def i simp del: One_nat_def dest: moves [unfolded i])
  qed (use assms(2) in auto)
qed

lemma catch_up_room:
  assumes inv: "x_inv en view disk txn T wdisk every env0 e0 hist as x" and "Suc (length hist) < 2 ^ 64"
  shows "\<exists>x'. fold_opt (x_act en) catch_up x = Some x' \<and> x_inv en view disk txn T wdisk every env0 e0 hist as x' \<and>
    x_seq x' = (x_seq x)\<lparr>seq_output := seq_output (x_seq x')\<rparr> \<and> has_room 0 hist (x_seq x')"
proof -
  let ?b = "seq_output (x_seq x)" and ?inv = "x_inv en view disk txn T wdisk every env0 e0 hist as"
  note parts = x_inv_parts [OF inv]
  have "length hist \<le> reader_pos ?b i + length (slots ?b)" if "i < 3" for i
  proof -
    have "unat (cached_min ?b) \<le> reader_pos ?b i" "length hist \<le> unat (cached_min ?b) + length (slots ?b)"
      using that parts(2,3) by (simp_all add: bring_hist_def reader_pos_def word_le_nat_alt)
    then show ?thesis by linarith
  qed
  moreover have "0 < length (slots ?b)"
    using parts(3) by (auto simp: bring_hist_def pow2_def)
  ultimately have room: "length hist < min (length hist) (Suc (reader_pos ?b i)) + length (slots ?b)" if "i < 3" for i
    using that by (fastforce simp: min_def)
  obtain x1 where x1: "x_act en (X_match (\<lambda>a k q. q)) x = Some x1" "?inv x1" "x_seq x1 = (x_seq x)\<lparr>seq_output := seq_output (x_seq x1)\<rparr>"
    "length (slots (seq_output (x_seq x1))) = length (slots ?b)"
    "reader_pos (seq_output (x_seq x1)) = (reader_pos ?b)(0 := min (length hist) (Suc (reader_pos ?b 0)))"
    using reader_moves [OF inv reader_of.simps(1)] by blast
  obtain x2 where x2: "x_act en X_log x1 = Some x2" "?inv x2" "x_seq x2 = (x_seq x1)\<lparr>seq_output := seq_output (x_seq x2)\<rparr>"
    "length (slots (seq_output (x_seq x2))) = length (slots ?b)"
    "reader_pos (seq_output (x_seq x2)) = (reader_pos (seq_output (x_seq x1)))(1 := min (length hist) (Suc (reader_pos (seq_output (x_seq x1)) 1)))"
    using reader_moves [OF x1(2) reader_of.simps(2)] unfolding x1(4) by blast
  obtain x3 where x3: "x_act en X_store x2 = Some x3" "?inv x3" "x_seq x3 = (x_seq x2)\<lparr>seq_output := seq_output (x_seq x3)\<rparr>"
    "length (slots (seq_output (x_seq x3))) = length (slots ?b)"
    "reader_pos (seq_output (x_seq x3)) = (reader_pos (seq_output (x_seq x2)))(2 := min (length hist) (Suc (reader_pos (seq_output (x_seq x2)) 2)))"
    using reader_moves [OF x2(2) reader_of.simps(3)] unfolding x2(4) by blast
  have pos: "reader_pos (seq_output (x_seq x3)) i = min (length hist) (Suc (reader_pos ?b i))" if "i < 3" for i
  proof -
    from that have "i = 0 \<or> i = 1 \<or> i = 2"
      by auto
    then show ?thesis
      unfolding x1(5) x2(5) x3(5) by (elim disjE) simp_all
  qed
  have "has_room 0 hist (x_seq x3)"
    using room assms(2) x_inv_parts(2) [OF x3(2)] by (simp add: has_room_def pos x3(4))
  moreover have "x_seq x3 = (x_seq x)\<lparr>seq_output := seq_output (x_seq x3)\<rparr>"
    by (subst x3(3), subst x2(3), subst x1(3)) simp
  moreover have "fold_opt (x_act en) catch_up x = Some x3"
    by (simp only: catch_up_def fold_opt.simps x1(1) x2(1) x3(1) option.case)
  ultimately show ?thesis
    using x3(2) by blast
qed

definition round_of :: "x_action list" where
  "round_of = catch_up @ [X_seq (Thread 0)]"

lemma x_round:
  assumes "x_inv en view disk txn T wdisk every env0 e0 hist as x" and fits: "Suc (length hist) < 2 ^ 64"
    and stop: "\<not> seq_running (x_seq x)" and going: "seq_thread_pc (x_seq x) \<noteq> Seq_done"
  shows "\<exists>x' es as'. fold_opt (x_act en) round_of x = Some x' \<and> x_inv en view disk txn T wdisk every env0 e0 (hist @ es) as' x' \<and> length es \<le> 1 \<and>
    \<not> seq_running (x_seq x') \<and> sweep_left (seq_thread_pc (x_seq x')) < sweep_left (seq_thread_pc (x_seq x))"
proof -
  from catch_up_room [OF assms(1) fits] obtain x1 where
    x1: "fold_opt (x_act en) catch_up x = Some x1" "x_inv en view disk txn T wdisk every env0 e0 hist as x1"
      "x_seq x1 = (x_seq x)\<lparr>seq_output := seq_output (x_seq x1)\<rparr>" "has_room 0 hist (x_seq x1)"
    by blast
  have same: "seq_running (x_seq x1) = seq_running (x_seq x)" "seq_thread_pc (x_seq x1) = seq_thread_pc (x_seq x)"
    by (subst x1(3), simp)+
  from x_step [OF x1(2) fits, of "X_seq (Thread 0)"] obtain x2 es as' where
    x2: "x_act en (X_seq (Thread 0)) x1 = Some x2" "x_inv en view disk txn T wdisk every env0 e0 (hist @ es) as' x2" "length es \<le> 1"
    by auto
  from x2(1) have "seq_thread 0 (x_seq x1) = Some (x_seq x2)"
    by auto
  from seq_thread_sweeps [OF x_inv_parts(1) [OF x1(2)] x1(4) _ _ this] stop going have
    "\<not> seq_running (x_seq x2)" "sweep_left (seq_thread_pc (x_seq x2)) < sweep_left (seq_thread_pc (x_seq x))"
    by (simp_all add: same)
  moreover have "fold_opt (x_act en) round_of x = Some x2"
    by (simp only: round_of_def fold_opt_append x1(1) fold_opt.simps x2(1) option.case)
  ultimately show ?thesis
    using x2(2,3) by blast
qed

text \<open>Once the flag is cleared, some schedule of the threads ends the sequencer thread.\<close>

lemma x_can_end:
  assumes "x_inv en view disk txn T wdisk every env0 e0 hist as x" and "Suc (length hist + sweep_left (seq_thread_pc (x_seq x))) < 2 ^ 64"
    and "\<not> seq_running (x_seq x)"
  shows "\<exists>n x'. n \<le> sweep_left (seq_thread_pc (x_seq x)) \<and> fold_opt (x_act en) (concat (replicate n round_of)) x = Some x' \<and>
    seq_thread_pc (x_seq x') = Seq_done"
  using assms
proof (induction "sweep_left (seq_thread_pc (x_seq x))" arbitrary: x hist as rule: less_induct)
  case less
  show ?case
  proof (cases "seq_thread_pc (x_seq x) = Seq_done")
    case True
    then show ?thesis by (intro exI [of _ 0]) simp
  next
    case False
    have "Suc (length hist) < 2 ^ 64"
      using less.prems(2) by simp
    from x_round [OF less.prems(1) this less.prems(3) False] obtain x1 es as1 where
      1: "fold_opt (x_act en) round_of x = Some x1" "x_inv en view disk txn T wdisk every env0 e0 (hist @ es) as1 x1" "length es \<le> 1"
        "\<not> seq_running (x_seq x1)" "sweep_left (seq_thread_pc (x_seq x1)) < sweep_left (seq_thread_pc (x_seq x))"
      by blast
    have "Suc (length (hist @ es) + sweep_left (seq_thread_pc (x_seq x1))) < 2 ^ 64"
      using less.prems(2) 1(3,5) by simp
    from less.hyps [OF 1(5,2) this 1(4)] obtain n x' where
      "n \<le> sweep_left (seq_thread_pc (x_seq x1))" "fold_opt (x_act en) (concat (replicate n round_of)) x1 = Some x'" "seq_thread_pc (x_seq x') = Seq_done"
      by blast
    with 1(1,5) show ?thesis
      by (intro exI [of _ "Suc n"] exI [of _ x']) (simp add: fold_opt_append)
  qed
qed

section \<open>Shutdown\<close>

definition thread_ok :: "x_action \<Rightarrow> bool" where
  "thread_ok a \<longleftrightarrow> p_act_ok (P_thread a)"

text \<open>What the two files of the program hold afterwards, for a history of requests in the dispatched frames.\<close>

definition files_hold ::
  "'d surroundings \<Rightarrow> ('d \<Rightarrow> tables) \<Rightarrow> gateway_options \<Rightarrow> 'd machine \<Rightarrow> (int \<times> u8 list) list \<Rightarrow> SequencedEvent list \<Rightarrow> 'd machine \<Rightarrow> bool" where
  "files_hold en disk opts m ffs hist m' \<longleftrightarrow>
     map ev_seq_num hist = map of_nat [1..<Suc (length hist)] \<and> subseq (map payload hist) (map payload (requests_in ffs)) \<and>
     mc_log m' = (mc_log m)(go_wal_path opts := mc_log m (go_wal_path opts) @ wal_bytes (en_fw en) (en_pad en) 0 hist) \<and>
     fst (disk (mc_db m' (go_db_path opts))) = order_rows hist (fst (disk (mc_db m (go_db_path opts)))) \<and>
     (\<exists>as. snd (disk (mc_db m' (go_db_path opts))) = snd (disk (mc_db m (go_db_path opts))) @ exec_rows (en_wall en) 0 as \<and>
        ack_key ` set as \<subseteq> req_key ` set (requests_in ffs)) \<and>
     (\<forall>p. p \<noteq> go_db_path opts \<longrightarrow> mc_db m' p = mc_db m p)"

lemma threads_run:
  assumes "p_inv en view disk txn T wdisk every env0 e0 k s" and "Suc (k + length acts) < 2 ^ 64" and "\<forall>a \<in> set acts. thread_ok a"
  shows "\<exists>x. fold_opt (x_act en) acts (pg_x s) = Some x \<and> p_inv en view disk txn T wdisk every env0 e0 (k + length acts) (s\<lparr>pg_x := x\<rparr>)"
proof -
  have "\<forall>a \<in> set (map P_thread acts). p_act_ok a" "Suc (k + length (map P_thread acts)) < 2 ^ 64"
    using assms(2,3) by (auto simp: thread_ok_def)
  from p_run [OF assms(1) this(2,1), of net for net] have
    "(\<exists>s'. fold_opt (p_act en net) (map P_thread acts) s = Some s' \<and> p_inv en view disk txn T wdisk every env0 e0 (k + length acts) s') \<or>
      (\<exists>pre now post. map P_thread acts = pre @ P_main now # post)" for net
    by (metis length_map)
  moreover have "P_main now \<notin> set (map P_thread acts)" for now
    by auto
  ultimately have "\<exists>s'. fold_opt (p_act en undefined) (map P_thread acts) s = Some s' \<and> p_inv en view disk txn T wdisk every env0 e0 (k + length acts) s'"
    by (metis in_set_conv_decomp)
  then show ?thesis
    by (auto simp: p_threads)
qed

lemma shut_down_done:
  assumes "fold_opt (x_act en) (X_seq Stop # sc_join sc) x = Some x1" and "seq_thread_pc (x_seq x1) = Seq_done"
    and "exchange_shutdown en (sc_drain sc) (sc_wal_t sc) (sc_db_t sc) x1 = Some x2" and "\<not> db_opened (x_db x2)"
  shows "shut_down en m opts sc ls ffs code (busy_worker, busy_worker, busy_worker) x =
    stuck (m\<lparr>mc_log := (mc_log m)(go_wal_path opts := durable (x_wal x2) @ written (x_wal x2)),
             mc_db := (mc_db m)(go_db_path opts := db_conn (x_db x2))\<rparr>) ls ffs (Gw_exit code)"
proof -
  have "(case matcher_stop (sc_drain sc) busy_worker x1 of None \<Rightarrow> None | Some (km, x1) \<Rightarrow>
     (case wal_stop en (sc_wal_t sc) busy_worker x1 of None \<Rightarrow> None | Some (kw, x2) \<Rightarrow>
       map_option (\<lambda>(kd, x3). ((km, kw, kd), x3)) (db_stop en (sc_db_t sc) busy_worker x2))) =
     Some ((worker_init, worker_init, worker_init), x2)"
    by (simp only: stops_shutdown assms(3) option.map)
  then obtain a b where "matcher_stop (sc_drain sc) busy_worker x1 = Some (worker_init, a)" "wal_stop en (sc_wal_t sc) busy_worker a = Some (worker_init, b)"
    "db_stop en (sc_db_t sc) busy_worker b = Some (worker_init, x2)"
    by (auto split: option.splits prod.splits)
  with assms(1,2,4) show ?thesis
    by (simp add: shut_down_def return_from_main_def db_destroy_def db_close_def no_throw_def wal_destroy_def matcher_destroy_def worker_init_def
        del: fold_opt.simps)
qed

text \<open>The engine's last batch leaves nothing in the mirror that no client asked for.\<close>

lemma engine_applies_own:
  assumes "env_pops env" and "fold_opt (engine_apply env) es e = Some e'" and "engine_owns K e" and "\<forall>ev \<in> set es. req_key ev \<in> K"
  shows "engine_owns K e'"
  using assms(2-4)
proof (induction es arbitrary: e)
  case (Cons ev es)
  then obtain e1 where e1: "engine_apply env ev e = Some e1" "fold_opt (engine_apply env) es e1 = Some e'"
    by (auto split: option.splits)
  have "engine_owns K e1"
    using engine_apply_owns [OF assms(1) Cons.prems(2) e1(1)] Cons.prems(3) by (simp add: insert_absorb)
  with Cons.IH [OF e1(2)] Cons.prems(3) show ?case by simp
qed simp

lemma drain_owns:
  assumes inv: "x_inv en view disk txn T wdisk every env0 e0 hist as x" and zero: "\<forall>a \<in> set (x_pushed x). fst a = 0"
    and owns: "engine_owns (pushed_keys x) (x_engine x)" and env: "env_pops env"
    and all: "consume_all try_consume 0 (engine_apply env) (seq_output (x_seq x)) (x_engine x) = Some (b, e)"
  shows "engine_owns (pushed_keys x) e"
proof -
  note parts = x_inv_parts [OF inv]
  let ?k = "reader_pos (seq_output (x_seq x)) 0"
  have i: "0 < consumer_count (seq_output (x_seq x))"
    using parts(2) by simp
  have "seq_log (take ?k hist @ drop ?k hist)"
    using parts(4) by simp
  from er.handle_all [OF this parts(5), of env] obtain e' where
    e': "fold_opt (engine_apply env) (drop ?k hist) (x_engine x) = Some e'"
    by blast
  have "e' = e"
    using bl.consume_all_log [OF parts(3) i e'] all by auto
  moreover have "\<forall>ev \<in> set (drop ?k hist). req_key ev \<in> pushed_keys x"
    using hist_keys [OF parts(1) zero] by (auto simp: pushed_keys_def dest: in_set_dropD)
  ultimately show ?thesis
    using engine_applies_own [OF env e' owns] by simp
qed

lemma shut_down_inv:
  assumes inv: "p_inv en view disk txn (disk (mc_db m (go_db_path opts))) (mc_log m (go_wal_path opts)) every env0 e0 k s"
    and fits: "Suc (Suc (k + length (sc_join sc))) < 2 ^ 64" and ok: "\<forall>a \<in> set (sc_join sc). thread_ok a"
    and pops: "env_pops (sc_drain sc)" and r_def: "r = shut_down en m opts sc ls (pg_frames s) code (busy_worker, busy_worker, busy_worker) (pg_x s)"
  shows "gw_frames r = pg_frames s \<and> gw_lines r = ls \<and> (\<exists>x. fold_opt (x_act en) (X_seq Stop # sc_join sc) (pg_x s) = Some x \<and>
    (if seq_thread_pc (x_seq x) = Seq_done then gw_ends r = Gw_exit code \<and> (\<exists>hist. files_hold en disk opts m (pg_frames s) hist (gw_machine r))
     else gw_ends r = Gw_running))"
proof -
  have "\<forall>a \<in> set (X_seq Stop # sc_join sc). thread_ok a" "Suc (k + length (X_seq Stop # sc_join sc)) < 2 ^ 64"
    using ok fits by (auto simp: thread_ok_def)
  from threads_run [OF inv this(2,1)] obtain x where x: "fold_opt (x_act en) (X_seq Stop # sc_join sc) (pg_x s) = Some x"
    "p_inv en view disk txn (disk (mc_db m (go_db_path opts))) (mc_log m (go_wal_path opts)) every env0 e0 (k + length (X_seq Stop # sc_join sc)) (s\<lparr>pg_x := x\<rparr>)"
    by blast
  then obtain hist as where h: "x_inv en view disk txn (disk (mc_db m (go_db_path opts))) (mc_log m (go_wal_path opts)) every env0 e0 hist as x"
    and t: "traced (s\<lparr>pg_x := x\<rparr>)" and keys: "ack_key ` set as \<subseteq> pushed_keys x"
    by (auto simp: p_inv_def)
  note parts = x_inv_parts [OF h]
  show ?thesis
  proof (cases "seq_thread_pc (x_seq x) = Seq_done")
    case False
    with x(1) show ?thesis
      by (simp add: r_def shut_down_def stuck_def del: fold_opt.simps)
  next
    case True
    from exchange_shutdown_inv [OF h, of "sc_drain sc" "sc_wal_t sc" "sc_db_t sc"] obtain x2 as' b e where
      x2: "exchange_shutdown en (sc_drain sc) (sc_wal_t sc) (sc_db_t sc) x = Some x2" "\<not> db_opened (x_db x2)"
        "durable (x_wal x2) = mc_log m (go_wal_path opts) @ wal_bytes (en_fw en) (en_pad en) 0 hist" "written (x_wal x2) = []"
        "disk (db_conn (x_db x2)) =
          (order_rows hist (fst (disk (mc_db m (go_db_path opts)))), snd (disk (mc_db m (go_db_path opts))) @ exec_rows (en_wall en) 0 as')"
        "consume_all try_consume 0 (engine_apply (sc_drain sc)) (seq_output (x_seq x)) (x_engine x) = Some (b, e)" "set as' \<subseteq> set as \<union> mirrored e"
      by blast
    have sub: "subseq (map snd (x_pushed x)) (requests_in (pg_frames s))" and zero: "\<forall>a \<in> set (x_pushed x). fst a = 0"
      and owns: "engine_owns (pushed_keys x) (x_engine x)"
      using t by (simp_all add: traced_def)
    have "set (map snd (x_pushed x)) \<subseteq> set (requests_in (pg_frames s))"
      using sub by (blast dest: list_emb_set)
    then have "pushed_keys x \<subseteq> req_key ` set (requests_in (pg_frames s))"
      by (simp add: pushed_keys_def image_mono)
    then have reports: "ack_key ` set as' \<subseteq> req_key ` set (requests_in (pg_frames s))"
      using owned_reports [OF drain_owns [OF h zero owns pops x2(6)] keys x2(7)] by blast
    have "map payload (map snd (x_pushed x)) = map payload hist @ map payload (in_flight (seq_thread_pc (x_seq x)) @ spsc_list (inputs (x_seq x) ! 0))"
      using seq_inv_single [OF parts(1)] t by (simp add: traced_def)
    then have "subseq (map payload hist) (map payload (map snd (x_pushed x)))"
      by (metis prefixI prefix_imp_subseq)
    moreover have "subseq (map payload (map snd (x_pushed x))) (map payload (requests_in (pg_frames s)))"
      using sub by (rule subseq_map)
    ultimately have "subseq (map payload hist) (map payload (requests_in (pg_frames s)))"
      by (rule subseq_order.trans)
    moreover have "map ev_seq_num hist = map of_nat [1..<Suc (length hist)]"
      using seq_inv_log(2) [OF parts(1)] by (simp add: numbered_def)
    ultimately show ?thesis
      using x(1) True x2(3-5) reports unfolding r_def shut_down_done [OF x(1) True x2(1,2)]
      by (auto simp: stuck_def files_hold_def intro!: exI [of _ hist] exI [of _ as'] simp del: fold_opt.simps)
  qed
qed

section \<open>The whole program\<close>

lemma server_starts: "fst (server_start sock bound listening kq g) \<longleftrightarrow> 0 \<le> sock \<and> 0 \<le> bound \<and> 0 \<le> listening \<and> 0 \<le> kq"
  by (auto simp: server_start_def Let_def)

lemma gateway_exchange_files [simp]:
  "x_wal (gateway_exchange m opts dev dack) = wal_init (mc_log m (go_wal_path opts)) 256 50"
  "x_db (gateway_exchange m opts dev dack) = db_init (mc_db m (go_db_path opts)) 256 50"
  by (simp_all add: gateway_exchange_def exchange_init_def Let_def split: prod.splits)

lemma gateway_started:
  assumes "sqlite_ok (en_api en) view disk txn" and "\<not> txn (mc_db m (go_db_path opts))"
    and "view (mc_db m (go_db_path opts)) = disk (mc_db m (go_db_path opts))"
  obtains x0 e0 where "exchange_start (en_api en) True wal_now db_now (gateway_exchange m opts dev dack) = Inr x0"
    and "\<And>sock bound listening kq g. server_start sock bound listening kq (server_init (inputs (x_seq x0) ! 0) (acks (x_engine x0))) = (True, g) \<Longrightarrow>
      p_inv en view disk txn (disk (mc_db m (go_db_path opts))) (mc_log m (go_wal_path opts)) 256 (\<lambda>a k q. q) e0 0
        \<lparr>pg_x = x0, pg_gw = g, pg_pc = Gw_idle, pg_frames = []\<rparr>"
proof -
  have pow: "pow2 (2 ^ 16 :: nat)" "pow2 (2 ^ 20 :: nat)"
    unfolding pow2_def by blast+
  let ?x = "gateway_exchange m opts dev dack"
  let ?e0 = "engine_init (2 ^ 20) (spsc_init (2 ^ 16) dack) (Some (spsc_init (2 ^ 16) dack))"
  have start: "\<exists>s. process_start (en_api en) True wal_now db_now (sock, bound, listening, kq) ?x = Inr s \<and>
      p_inv en view disk txn (disk (mc_db m (go_db_path opts))) (mc_log m (go_wal_path opts)) 256 (\<lambda>a k q. q) ?e0 0 s"
    if "0 \<le> sock" "0 \<le> bound" "0 \<le> listening" "0 \<le> kq" for sock bound listening kq
    by (rule process_start_inv [OF pow(1,2) _ _ pow(1) _ assms that gateway_exchange_def]) simp_all
  from start [of 0 0 0 0] obtain s where "process_start (en_api en) True wal_now db_now (0, 0, 0, 0) ?x = Inr s"
    by auto
  then have x0: "exchange_start (en_api en) True wal_now db_now ?x = Inr (pg_x s)"
    by (auto dest: process_started)
  show thesis
  proof (rule that [OF x0])
    fix sock bound listening kq g
    assume g: "server_start sock bound listening kq (server_init (inputs (x_seq (pg_x s)) ! 0) (acks (x_engine (pg_x s)))) = (True, g)"
    then have "0 \<le> sock" "0 \<le> bound" "0 \<le> listening" "0 \<le> kq"
      using server_starts [of sock bound listening kq] by (metis fst_conv)+
    from start [OF this] g x0 show "p_inv en view disk txn (disk (mc_db m (go_db_path opts))) (mc_log m (go_wal_path opts)) 256 (\<lambda>a k q. q) ?e0 0
        \<lparr>pg_x = pg_x s, pg_gw = g, pg_pc = Gw_idle, pg_frames = []\<rparr>"
      by (auto simp: process_start_def)
  qed
qed

text \<open>Either both files open and the program serves, or it fails before any thread has done anything.\<close>

lemma gateway_main_serves:
  assumes "gateway_args argv = Some opts" and "mc_dir_ok m (go_wal_path opts)" and "mc_can_open m (go_wal_path opts)" and "mc_dir_ok m (go_db_path opts)"
    and "exchange_start (en_api en) True (sc_wal_now sc) (sc_db_now sc) (gateway_exchange m opts dev dack) = Inr x0"
  shows "gateway_main en m dev dack sc argv = serve en m opts sc (busy_worker, busy_worker, busy_worker) x0"
  using assms by (auto simp: gateway_main_def exchange_start_def wal_start_def db_start_def Let_def split: prod.splits bool.splits sum.splits)

lemma gateway_main_fails:
  assumes "gateway_args argv = Some opts" and "\<not> (mc_dir_ok m (go_wal_path opts) \<and> mc_can_open m (go_wal_path opts) \<and> mc_dir_ok m (go_db_path opts))"
  shows "gateway_main en m dev dack sc argv \<in>
    {stuck m [] [] Gw_filesystem_error, stuck m [''Failed to open WAL at '' @ go_wal_path opts] [] (Gw_exit 1)}"
  using assms
  by (auto simp: gateway_main_def wal_start_def wal_open_def db_start_def wal_init_def Let_def return_from_main_def db_destroy_def db_close_def
      db_init_def no_throw_def wal_destroy_def matcher_destroy_def worker_init_def spawn_thread_def fun_upd_idem)

text \<open>
  Acceptable schedules: only the main thread pushes requests; the acknowledgement queue only loses elements while the engine waits
  for space in it; and the run is not too long for 64-bit numbers.
\<close>

definition schedule_ok :: "schedule \<Rightarrow> bool" where
  "schedule_ok sc \<longleftrightarrow> (\<forall>a \<in> set (sc_run sc). p_act_ok a) \<and> (\<forall>a \<in> set (sc_early sc @ sc_join sc). thread_ok a) \<and>
     env_pops (sc_drain sc) \<and> length (sc_run sc) + length (sc_early sc) + length (sc_join sc) < 2 ^ 63"


lemma serve_up:
  assumes start: "p_inv en view disk txn (disk (mc_db m (go_db_path opts))) (mc_log m (go_wal_path opts)) 256 env0 e0 0
        \<lparr>pg_x = x0, pg_gw = g, pg_pc = Gw_idle, pg_frames = []\<rparr>"
    and sockets: "mc_sockets m (go_port opts) = (sock, bound, listening, kq)"
    and g: "server_start sock bound listening kq (server_init (inputs (x_seq x0) ! 0) (acks (x_engine x0))) = (True, g)"
    and ok: "schedule_ok sc" and r: "r = serve en m opts sc (busy_worker, busy_worker, busy_worker) x0"
    and s: "fold_opt (p_act en (sc_net sc)) (sc_run sc) \<lparr>pg_x = x0, pg_gw = g, pg_pc = Gw_idle, pg_frames = []\<rparr> = Some s" "pg_pc s = Gw_idle"
  shows "p_inv en view disk txn (disk (mc_db m (go_db_path opts))) (mc_log m (go_wal_path opts)) 256 env0 e0 (length (sc_run sc)) s"
    and "gw_frames r = pg_frames s \<and> (\<exists>x. fold_opt (x_act en) (X_seq Stop # sc_join sc) (pg_x s) = Some x \<and>
      (if seq_thread_pc (x_seq x) = Seq_done then gw_ends r = Gw_exit 0 \<and> (\<exists>hist. files_hold en disk opts m (pg_frames s) hist (gw_machine r))
       else gw_ends r = Gw_running))"
proof -
  have run: "Suc (0 + length (sc_run sc)) < 2 ^ 64" "\<forall>a \<in> set (sc_run sc). p_act_ok a"
    and join: "\<forall>a \<in> set (sc_join sc). thread_ok a" "Suc (Suc (length (sc_run sc) + length (sc_join sc))) < 2 ^ 64" "env_pops (sc_drain sc)"
    using ok by (simp_all add: schedule_ok_def)
  from p_run [OF start run, of "sc_net sc"] s(1) show
    inv: "p_inv en view disk txn (disk (mc_db m (go_db_path opts))) (mc_log m (go_wal_path opts)) 256 env0 e0 (length (sc_run sc)) s"
    by (auto simp: fold_opt_append closed_stuck)
  have "r = shut_down en m opts sc ([''Gateway listening on port '' @ show_nat (unat (go_port opts)), ''WAL: '' @ go_wal_path opts @ ''  DB: '' @ go_db_path opts]
      @ [''Shutting down.'']) (pg_frames s) 0 (busy_worker, busy_worker, busy_worker) (pg_x s)"
    by (simp add: r serve_def sockets g s Let_def)
  with shut_down_inv [OF inv join(2,1,3)] show "gw_frames r = pg_frames s \<and> (\<exists>x. fold_opt (x_act en) (X_seq Stop # sc_join sc) (pg_x s) = Some x \<and>
      (if seq_thread_pc (x_seq x) = Seq_done then gw_ends r = Gw_exit 0 \<and> (\<exists>hist. files_hold en disk opts m (pg_frames s) hist (gw_machine r))
       else gw_ends r = Gw_running))"
    by blast
qed




text \<open>A program without clients: the sequencer thread finds the flag cleared at once.\<close>

definition demo_machine :: "(tables \<times> tables \<times> bool) machine" where
  "demo_machine = \<lparr>mc_dir_ok = (\<lambda>p. True), mc_can_open = (\<lambda>p. True), mc_log = (\<lambda>p. []), mc_db = (\<lambda>p. (([], []), ([], []), False)),
     mc_sockets = (\<lambda>p. (3, 0, 0, 4))\<rparr>"

definition demo_schedule :: schedule where
  "demo_schedule = \<lparr>sc_wal_now = 0, sc_db_now = 0, sc_net = (\<lambda>k fd n. int n), sc_early = [], sc_run = [], sc_join = [X_seq (Thread 0)],
     sc_drain = (\<lambda>a k q. q), sc_wal_t = (0, 0), sc_db_t = (0, 0)\<rparr>"

lemma demo_schedule_ok: "schedule_ok demo_schedule"
  by (simp add: demo_schedule_def schedule_ok_def thread_ok_def env_pops_def)

lemma demo_databases:
  "sqlite_ok (en_api demo_surroundings) fst (\<lambda>d. fst (snd d)) (\<lambda>d. snd (snd d))"
  "\<forall>p. \<not> snd (snd (mc_db demo_machine p)) \<and> fst (mc_db demo_machine p) = fst (snd (mc_db demo_machine p))"
  using lite_ok by (simp_all add: demo_surroundings_def demo_machine_def)

lemma demo_gateway_exits:
  "gw_ends (gateway_main demo_surroundings demo_machine idle_event demo_ack demo_schedule []) = Gw_exit 0 \<and>
    (\<exists>opts ks x. gateway_main demo_surroundings demo_machine idle_event demo_ack demo_schedule [] = serve demo_surroundings demo_machine opts demo_schedule ks x)"
proof -
  let ?en = demo_surroundings and ?m = demo_machine
  obtain opts where opts: "gateway_args [] = Some opts"
    by (simp add: gateway_args_def)
  have files: "mc_dir_ok ?m (go_wal_path opts)" "mc_can_open ?m (go_wal_path opts)" "mc_dir_ok ?m (go_db_path opts)"
    and sockets: "mc_sockets ?m (go_port opts) = (3, 0, 0, 4)"
    by (simp_all add: demo_machine_def)
  obtain x0 e0 where x0: "exchange_start (en_api ?en) True (sc_wal_now demo_schedule) (sc_db_now demo_schedule) (gateway_exchange ?m opts idle_event demo_ack) = Inr x0"
    "\<And>sock bound listening kq g. server_start sock bound listening kq (server_init (inputs (x_seq x0) ! 0) (acks (x_engine x0))) = (True, g) \<Longrightarrow>
      p_inv ?en fst (\<lambda>d. fst (snd d)) (\<lambda>d. snd (snd d)) (fst (snd (mc_db ?m (go_db_path opts)))) (mc_log ?m (go_wal_path opts)) 256 (\<lambda>a k q. q) e0 0
        \<lparr>pg_x = x0, pg_gw = g, pg_pc = Gw_idle, pg_frames = []\<rparr>"
    using gateway_started [OF demo_databases(1), of ?m opts] demo_databases(2) by blast
  obtain g where g: "server_start 3 0 0 4 (server_init (inputs (x_seq x0) ! 0) (acks (x_engine x0))) = (True, g)"
    by (simp add: server_start_def)
  let ?s = "\<lparr>pg_x = x0, pg_gw = g, pg_pc = Gw_idle, pg_frames = []\<rparr>"
  have s: "fold_opt (p_act ?en (sc_net demo_schedule)) (sc_run demo_schedule) ?s = Some ?s" "pg_pc ?s = Gw_idle"
    by (simp_all add: demo_schedule_def)
  have "x_seq x0 = seq_start (x_seq (gateway_exchange ?m opts idle_event demo_ack))"
    using exchange_start_seq [OF x0(1)] by simp
  then have "\<exists>x. fold_opt (x_act ?en) (X_seq Stop # sc_join demo_schedule) x0 = Some x \<and> seq_thread_pc (x_seq x) = Seq_done"
    by (simp add: demo_schedule_def seq_start_def seq_stop_def seq_thread_def)
  with serve_up(2) [OF x0(2) [OF g] sockets g demo_schedule_ok refl s] have
    "gw_ends (serve ?en ?m opts demo_schedule (busy_worker, busy_worker, busy_worker) x0) = Gw_exit 0"
    by (auto simp del: fold_opt.simps)
  with gateway_main_serves [OF opts files x0(1)] show ?thesis
    by metis
qed


section \<open>The shutdown does not get stuck\<close>

lemma outcome_lines:
  "gw_lines (return_from_main en m opts sc ls ffs code ks x) = ls" "gw_lines (shut_down en m opts sc ls ffs code ks x) = ls"
  by (auto simp: return_from_main_def shut_down_def stuck_def split: option.splits prod.splits)

lemma outcome_ends:
  "gw_ends (return_from_main en m opts sc ls ffs code ks x) \<in> {Gw_terminated, Gw_exit code}"
  "gw_ends (shut_down en m opts sc ls ffs code ks x) \<in> {Gw_terminated, Gw_exit code, Gw_undefined, Gw_running}"
proof -
  show r: "gw_ends (return_from_main en m opts sc ls ffs code ks x) \<in> {Gw_terminated, Gw_exit code}" for ks x
    by (auto simp: return_from_main_def stuck_def split: option.splits prod.splits)
  then show "gw_ends (shut_down en m opts sc ls ffs code ks x) \<in> {Gw_terminated, Gw_exit code, Gw_undefined, Gw_running}"
    by (fastforce simp: shut_down_def stuck_def split: option.splits prod.splits simp del: fold_opt.simps)
qed

text \<open>Only a program that has left its loop exits with 0.\<close>

lemma serve_exit_0: "gw_ends (serve en m opts sc ks x) = Gw_exit 0 \<Longrightarrow> ''Shutting down.'' \<in> set (gw_lines (serve en m opts sc ks x))"
proof -
  have "gw_ends (shut_down en m opts sc ls ffs 1 ks x) \<noteq> Gw_exit 0" for ls ffs x
    using outcome_ends(2) [of en m opts sc ls ffs 1 ks x] by auto
  then show "gw_ends (serve en m opts sc ks x) = Gw_exit 0 \<Longrightarrow> ?thesis"
    by (auto simp: serve_def stuck_def outcome_lines Let_def simp del: One_nat_def split: prod.splits bool.splits option.splits if_splits)
qed

lemma shutting_down_serves:
  assumes "''Shutting down.'' \<in> set (gw_lines (gateway_main en m dev dack sc argv))"
    and "gateway_args argv = Some opts"
  shows "mc_dir_ok m (go_wal_path opts)" and "mc_can_open m (go_wal_path opts)" and "mc_dir_ok m (go_db_path opts)"
proof -
  have "mc_dir_ok m (go_wal_path opts) \<and> mc_can_open m (go_wal_path opts) \<and> mc_dir_ok m (go_db_path opts)"
  proof (rule ccontr)
    assume "\<not> ?thesis"
    from gateway_main_fails [OF assms(2) this, of en dev dack sc] assms(1) show False
      by (auto simp: stuck_def)
  qed
  then show "mc_dir_ok m (go_wal_path opts)" and "mc_can_open m (go_wal_path opts)" and "mc_dir_ok m (go_db_path opts)"
    by simp_all
qed

lemma shutting_down_idle:
  assumes "''Shutting down.'' \<in> set (gw_lines (serve en m opts sc ks x0))" and "mc_sockets m (go_port opts) = (sock, bound, listening, kq)"
  obtains g s where "server_start sock bound listening kq (server_init (inputs (x_seq x0) ! 0) (acks (x_engine x0))) = (True, g)"
    and "fold_opt (p_act en (sc_net sc)) (sc_run sc) \<lparr>pg_x = x0, pg_gw = g, pg_pc = Gw_idle, pg_frames = []\<rparr> = Some s" and "pg_pc s = Gw_idle"
  using assms by (auto simp: serve_def stuck_def outcome_lines Let_def split: prod.splits bool.splits option.splits if_splits)

lemma stop_then_end:
  assumes inv: "p_inv en view disk txn T wdisk every env0 e0 k s" and "k < 2 ^ 63"
  obtains n x where "n \<le> 193" and "fold_opt (x_act en) (X_seq Stop # concat (replicate n round_of)) (pg_x s) = Some x"
    and "seq_thread_pc (x_seq x) = Seq_done"
proof -
  have "Suc (k + length [X_seq Stop]) < 2 ^ 64" "\<forall>a \<in> set [X_seq Stop]. thread_ok a"
    using assms(2) by (simp_all add: thread_ok_def)
  from threads_run [OF inv this] obtain x1 where x1: "x_act en (X_seq Stop) (pg_x s) = Some x1"
    "p_inv en view disk txn T wdisk every env0 e0 (Suc k) (s\<lparr>pg_x := x1\<rparr>)"
    by (auto split: option.splits)
  then obtain hist as where h: "x_inv en view disk txn T wdisk every env0 e0 hist as x1" "length hist \<le> Suc k"
    by (auto simp: p_inv_def)
  have "pc_ok (seq_thread_pc (x_seq x1))"
    using x_inv_parts(1) [OF h(1)] by (simp add: seq_inv_def Let_def)
  note bound = sweep_left_bound [OF this]
  have "Suc (length hist + sweep_left (seq_thread_pc (x_seq x1))) < 2 ^ 64" "\<not> seq_running (x_seq x1)"
    using h(2) bound assms(2) x1(1) by (auto simp: seq_stop_def)
  from x_can_end [OF h(1) this] bound obtain n x where
    "n \<le> 193" "fold_opt (x_act en) (concat (replicate n round_of)) x1 = Some x" "seq_thread_pc (x_seq x) = Seq_done"
    by (metis le_trans)
  with x1(1) that show thesis
    by (simp only: fold_opt.simps option.case)
qed

lemma rounds_ok: "\<forall>a \<in> set (concat (replicate n round_of)). thread_ok a" "length (concat (replicate n round_of)) = 4 * n"
  by (induction n) (auto simp: thread_ok_def round_of_def catch_up_def env_pops_def)

text \<open>
  (C8) The shutdown completes. Once the program has left its poll loop, whatever happened before, at most 193 rounds in which the three
  consumers and the sequencer thread make one step each end the sequencer thread, even when the ring is full; then the three consumers
  stop and the program exits with 0.
\<close>
theorem gateway_can_stop:
  assumes "sqlite_ok (en_api en) view disk txn" and "\<forall>p. \<not> txn (mc_db m p) \<and> view (mc_db m p) = disk (mc_db m p)"
    and "schedule_ok (sc\<lparr>sc_join := []\<rparr>)" and "length (sc_run sc) + length (sc_early sc) < 2 ^ 62"
    and "''Shutting down.'' \<in> set (gw_lines (gateway_main en m dev dack sc argv))"
  shows "\<exists>n \<le> 193. gw_ends (gateway_main en m dev dack (sc\<lparr>sc_join := concat (replicate n round_of)\<rparr>) argv) = Gw_exit 0"
proof -
  obtain opts where opts: "gateway_args argv = Some opts"
    using assms(5) by (cases "gateway_args argv") (auto simp: gateway_main_def stuck_def)
  note files = shutting_down_serves [OF assms(5) opts]
  obtain x0 e0 where x0: "exchange_start (en_api en) True (sc_wal_now sc) (sc_db_now sc) (gateway_exchange m opts dev dack) = Inr x0"
    "\<And>sock bound listening kq g. server_start sock bound listening kq (server_init (inputs (x_seq x0) ! 0) (acks (x_engine x0))) = (True, g) \<Longrightarrow>
      p_inv en view disk txn (disk (mc_db m (go_db_path opts))) (mc_log m (go_wal_path opts)) 256 (\<lambda>a k q. q) e0 0
        \<lparr>pg_x = x0, pg_gw = g, pg_pc = Gw_idle, pg_frames = []\<rparr>"
    using gateway_started [OF assms(1)] assms(2) by blast
  obtain sock bound listening kq where sockets: "mc_sockets m (go_port opts) = (sock, bound, listening, kq)"
    by (cases "mc_sockets m (go_port opts)")
  obtain g s where
    g: "server_start sock bound listening kq (server_init (inputs (x_seq x0) ! 0) (acks (x_engine x0))) = (True, g)"
    and s: "fold_opt (p_act en (sc_net sc)) (sc_run sc) \<lparr>pg_x = x0, pg_gw = g, pg_pc = Gw_idle, pg_frames = []\<rparr> = Some s" "pg_pc s = Gw_idle"
    using shutting_down_idle [OF assms(5) [unfolded gateway_main_serves [OF opts files x0(1)]] sockets] by blast
  let ?sc = "\<lambda>n. sc\<lparr>sc_join := concat (replicate n round_of)\<rparr>"
  have inv: "p_inv en view disk txn (disk (mc_db m (go_db_path opts))) (mc_log m (go_wal_path opts)) 256 (\<lambda>a k q. q) e0 (length (sc_run sc)) s"
    using serve_up(1) [OF x0(2) [OF g] sockets g assms(3) refl] s by simp
  have short: "length (sc_run sc) < 2 ^ 63"
    using assms(4) by simp
  obtain n x where
    n: "n \<le> 193" "fold_opt (x_act en) (X_seq Stop # concat (replicate n round_of)) (pg_x s) = Some x" "seq_thread_pc (x_seq x) = Seq_done"
    using stop_then_end [OF inv short] by blast
  have "schedule_ok (?sc n)"
    using assms(3,4) n(1) rounds_ok [of n] by (auto simp: schedule_ok_def simp del: set_concat)
  from serve_up(2) [OF x0(2) [OF g] sockets g this refl] s n(2,3) have
    "gw_ends (serve en m opts (?sc n) (busy_worker, busy_worker, busy_worker) x0) = Gw_exit 0"
    by (auto simp del: fold_opt.simps)
  moreover have "gateway_main en m dev dack (?sc n) argv = serve en m opts (?sc n) (busy_worker, busy_worker, busy_worker) x0"
    using gateway_main_serves [OF opts files, of en "?sc n"] x0(1) by simp
  ultimately show ?thesis
    using n(1) by auto
qed

theorem gateway_can_stop_witness:
  "\<exists>n \<le> 193. gw_ends (gateway_main demo_surroundings demo_machine idle_event demo_ack (demo_schedule\<lparr>sc_join := concat (replicate n round_of)\<rparr>) []) = Gw_exit 0"
proof -
  have "schedule_ok (demo_schedule\<lparr>sc_join := []\<rparr>)" "length (sc_run demo_schedule) + length (sc_early demo_schedule) < 2 ^ 62"
    by (simp_all add: demo_schedule_def schedule_ok_def env_pops_def)
  moreover have "''Shutting down.'' \<in> set (gw_lines (gateway_main demo_surroundings demo_machine idle_event demo_ack demo_schedule []))"
    using demo_gateway_exits serve_exit_0 by metis
  ultimately show ?thesis
    by (rule gateway_can_stop [OF demo_databases])
qed

end
