(* ===== verification/Py_Struct.thy ===== *)
theory Py_Struct
  imports Wire_Protocol
begin

text \<open>
  What the scripts use of Python: exceptions as values and the little-endian formats of the
  \<^verbatim>\<open>struct\<close> module. A format is a list of fields, an unsigned integer of \<open>n\<close> bytes (\<^verbatim>\<open>B\<close>, \<^verbatim>\<open>H\<close>, \<^verbatim>\<open>I\<close>, \<^verbatim>\<open>Q\<close>) or
  \<open>n\<close> bytes (\<^verbatim>\<open>8s\<close>). \<^verbatim>\<open>pack\<close> raises when a number does not fit its field, \<^verbatim>\<open>unpack\<close> when the length is
  not exactly that of the format. The theory shows that the formats of the scripts are the
  packed structures of the gateway.
\<close>

section \<open>Exceptions\<close>

datatype py_error = Struct_error | Type_error | Value_error | Overflow_error | Attribute_error | Os_error

section \<open>The struct module\<close>

datatype struct_field = Uint nat | Bytes nat

datatype struct_value = Vint int | Vbytes "u8 list"

fun field_size :: "struct_field \<Rightarrow> nat" where
  "field_size (Uint n) = n"
| "field_size (Bytes n) = n"

definition calcsize :: "struct_field list \<Rightarrow> nat" where
  "calcsize fmt = sum_list (map field_size fmt)"

lemma calcsize_simps [simp]: "calcsize [] = 0" "calcsize (f # fmt) = field_size f + calcsize fmt"
  by (simp_all add: calcsize_def)

fun pack_field :: "struct_field \<Rightarrow> struct_value \<Rightarrow> u8 list option" where
  "pack_field (Uint n) (Vint v) = (if 0 \<le> v \<and> v < 256 ^ n then Some (le_bytes n (nat v)) else None)"
| "pack_field (Bytes n) (Vbytes bs) = Some (take n (bs @ replicate n 0))"
| "pack_field _ _ = None"

fun pack :: "struct_field list \<Rightarrow> struct_value list \<Rightarrow> u8 list option" where
  "pack [] [] = Some []"
| "pack (f # fmt) (v # vs) =
     (case pack_field f v of
        None \<Rightarrow> None
      | Some bs \<Rightarrow> map_option (append bs) (pack fmt vs))"
| "pack _ _ = None"

fun unpack_field :: "struct_field \<Rightarrow> u8 list \<Rightarrow> struct_value" where
  "unpack_field (Uint n) bs = Vint (int (le_val bs))"
| "unpack_field (Bytes n) bs = Vbytes bs"

fun unpack_all :: "struct_field list \<Rightarrow> u8 list \<Rightarrow> struct_value list" where
  "unpack_all [] bs = []"
| "unpack_all (f # fmt) bs = unpack_field f (take (field_size f) bs) # unpack_all fmt (drop (field_size f) bs)"

definition unpack :: "struct_field list \<Rightarrow> u8 list \<Rightarrow> struct_value list option" where
  "unpack fmt bs = (if length bs = calcsize fmt then Some (unpack_all fmt bs) else None)"

lemma length_pack_field: "pack_field f v = Some bs \<Longrightarrow> length bs = field_size f"
  by (cases "(f, v)" rule: pack_field.cases) (auto split: if_splits)

lemma length_pack: "pack fmt vs = Some bs \<Longrightarrow> length bs = calcsize fmt"
  by (induction fmt vs arbitrary: bs rule: pack.induct) (auto split: option.splits dest: length_pack_field)

text \<open>A byte string survives when it has the length of its field; numbers always do.\<close>

fun exact_field :: "struct_field \<Rightarrow> struct_value \<Rightarrow> bool" where
  "exact_field (Bytes n) (Vbytes bs) \<longleftrightarrow> length bs = n"
| "exact_field _ _ \<longleftrightarrow> True"

lemma unpack_pack_field: "pack_field f v = Some bs \<Longrightarrow> exact_field f v \<Longrightarrow> unpack_field f bs = v"
  by (cases "(f, v)" rule: pack_field.cases) (auto simp: le_val_bytes nat_less_iff split: if_splits)

text \<open>Packing and unpacking is a round trip.\<close>

lemma unpack_pack:
  assumes "pack fmt vs = Some bs" and "list_all2 exact_field fmt vs"
  shows "unpack fmt bs = Some vs"
proof -
  have "unpack_all fmt bs = vs"
    using assms
    by (induction fmt vs arbitrary: bs rule: pack.induct)
      (auto simp: length_pack_field unpack_pack_field split: option.splits)
  then show ?thesis
    using length_pack [OF assms(1)] by (simp add: unpack_def)
qed

section \<open>Numbers as words\<close>

lemma le_bytes_word:
  fixes w :: "'a::len word"
  assumes "uint w = v" and "n = LENGTH('a) div 8"
  shows "le_bytes n (nat v) = word_bytes w"
  unfolding assms(1) [symmetric] assms(2) by (simp add: word_bytes_def)

lemma pack_number:
  "0 \<le> v \<Longrightarrow> v < 2 ^ 8 \<Longrightarrow> pack_field (Uint (Suc 0)) (Vint v) = Some [of_int v :: u8]"
  "0 \<le> v \<Longrightarrow> v < 2 ^ 16 \<Longrightarrow> pack_field (Uint 2) (Vint v) = Some (word_bytes (of_int v :: u16))"
  "0 \<le> v \<Longrightarrow> v < 2 ^ 32 \<Longrightarrow> pack_field (Uint 4) (Vint v) = Some (word_bytes (of_int v :: u32))"
  "0 \<le> v \<Longrightarrow> v < 2 ^ 64 \<Longrightarrow> pack_field (Uint 8) (Vint v) = Some (word_bytes (of_int v :: u64))"
  by (simp_all add: le_bytes_word unsigned_of_int take_bit_int_eq_self)

lemma unpack_word:
  "length bs = 4 \<Longrightarrow> int (le_val bs) = uint (bytes_word bs :: u32)" "length bs = 8 \<Longrightarrow> int (le_val bs) = uint (bytes_word bs :: u64)"
  using le_val_bound [of bs] by (simp_all add: bytes_word_def unsigned_of_nat take_bit_nat_eq_self)

end
