(* ===== verification/Web_Bridge.thy ===== *)
theory Web_Bridge
  imports Complex_Main Py_Struct Market_Data_Feed "HOL-Library.AList"
begin

text \<open>
  The HTTP bridge of \<^verbatim>\<open>scripts/web_bridge.py\<close>: the class \<^verbatim>\<open>GatewayLink\<close> that holds the session to the
  gateway, and the POST handlers that feed it. Python's integers are \<^typ>\<open>int\<close>, a \<^verbatim>\<open>dict\<close> is an association
  list in insertion order, \<^verbatim>\<open>json.loads\<close> has delivered a value of type \<open>json\<close> and \<open>clk k\<close> is what the
  \<open>k\<close>-th call of \<^verbatim>\<open>time.time\<close> returns. An operation returns its result or exception together with the
  link, because an exception leaves the link as it is at that point. \<open>lk_wire\<close> are the bytes given to the current
  socket; the result of \<^verbatim>\<open>sendall\<close> is an argument: \<^const>\<open>None\<close> when it returns and \<open>Some n\<close> when it raises
  \<^verbatim>\<open>OSError\<close> after \<open>n\<close> bytes.
\<close>

section \<open>Formats and tables\<close>

definition HEADER_FMT :: "struct_field list" where "HEADER_FMT = [Uint 2, Uint 1, Uint 4]"
definition LOGON_FMT :: "struct_field list" where "LOGON_FMT = [Uint 8, Uint 4, Uint 4]"
definition NEW_ORDER_FMT :: "struct_field list" where "NEW_ORDER_FMT = [Uint 8, Bytes 8, Uint 1, Uint 4, Uint 4]"
definition CANCEL_ORDER_FMT :: "struct_field list" where "CANCEL_ORDER_FMT = [Uint 8]"
definition EXEC_REPORT_FMT :: "struct_field list" where "EXEC_REPORT_FMT = [Uint 8, Uint 8, Uint 1, Uint 4, Uint 4, Uint 4]"

definition HEADER_LEN :: nat where "HEADER_LEN = calcsize HEADER_FMT"

definition MSG_TYPE :: "(string \<times> int) list" where
  "MSG_TYPE = [(''Logon'', 1), (''Logout'', 2), (''Heartbeat'', 3), (''TestRequest'', 4), (''ResendRequest'', 5),
     (''NewOrder'', 10), (''CancelOrder'', 11), (''ReplaceOrder'', 12), (''ExecutionReport'', 20), (''Reject'', 21)]"

definition EXEC_STATUS :: "(int \<times> string) list" where
  "EXEC_STATUS = [(1, ''Accepted''), (2, ''Rejected''), (3, ''Filled''), (4, ''PartialFill''), (5, ''Canceled'')]"

definition SIDE :: "(string \<times> int) list" where
  "SIDE = [(''buy'', 0), (''sell'', 1)]"

section \<open>The link\<close>

record blotter_order =
  bo_client_order_id :: int
  bo_exchange_order_id :: int
  bo_side :: string
  bo_price :: int
  bo_quantity :: int
  bo_status :: string
  bo_fill_price :: int
  bo_fill_quantity :: int
  bo_leaves_quantity :: int
  bo_ts :: rat

record link_stats =
  st_orders_sent :: nat
  st_fills :: nat
  st_rejects :: nat
  st_cancels :: nat

datatype bridge_msg = Msg_update blotter_order | Msg_status bool

record gateway_link =
  lk_client_id :: int
  lk_connected :: bool
  lk_seq :: int
  order_counter :: int
  lk_orders :: "(int \<times> blotter_order) list"
  subscribers :: "(nat \<times> bridge_msg list) list"
  lk_stats :: link_stats
  lk_wire :: "u8 list"
  clock_reads :: nat

definition link_init :: gateway_link where
  "link_init = \<lparr>lk_client_id = 424242, lk_connected = False, lk_seq = 0, order_counter = 0, lk_orders = [], subscribers = [],
     lk_stats = \<lparr>st_orders_sent = 0, st_fills = 0, st_rejects = 0, st_cancels = 0\<rparr>, lk_wire = [], clock_reads = 0\<rparr>"

definition next_client_order_id :: "gateway_link \<Rightarrow> int \<times> gateway_link" where
  "next_client_order_id s = (order_counter s + 1, s\<lparr>order_counter := order_counter s + 1\<rparr>)"

definition snapshot :: "gateway_link \<Rightarrow> blotter_order list \<times> link_stats" where
  "snapshot s = (map snd (lk_orders s), lk_stats s)"

text \<open>A queue is named by a number that no other subscriber has.\<close>

definition subscribe :: "nat \<Rightarrow> gateway_link \<Rightarrow> gateway_link" where
  "subscribe q s = s\<lparr>subscribers := AList.update q [] (subscribers s)\<rparr>"

definition unsubscribe :: "nat \<Rightarrow> gateway_link \<Rightarrow> gateway_link" where
  "unsubscribe q s = s\<lparr>subscribers := AList.delete q (subscribers s)\<rparr>"

definition broadcast :: "bridge_msg \<Rightarrow> gateway_link \<Rightarrow> gateway_link" where
  "broadcast msg s = s\<lparr>subscribers := map (\<lambda>(q, msgs). (q, msgs @ [msg])) (subscribers s)\<rparr>"

section \<open>Sending\<close>

definition link_frame :: "string \<Rightarrow> int \<Rightarrow> u8 list \<Rightarrow> u8 list option" where
  "link_frame ty seq body =
     (case map_of MSG_TYPE ty of
        None \<Rightarrow> None
      | Some t \<Rightarrow> map_option (\<lambda>header. header @ body) (pack HEADER_FMT [Vint (int (length body)), Vint t, Vint seq]))"

definition link_send_frame :: "nat option \<Rightarrow> string \<Rightarrow> u8 list \<Rightarrow> gateway_link \<Rightarrow> (py_error + bool) \<times> gateway_link" where
  "link_send_frame res ty body s =
     (if \<not> lk_connected s then (Inr False, s)
      else let s1 = s\<lparr>lk_seq := lk_seq s + 1\<rparr>
           in case link_frame ty (lk_seq s1) body of
                None \<Rightarrow> (Inl Struct_error, s1)
              | Some frame \<Rightarrow>
                  (case res of
                     None \<Rightarrow> (Inr True, s1\<lparr>lk_wire := lk_wire s1 @ frame\<rparr>)
                   | Some n \<Rightarrow> (Inr False, s1\<lparr>lk_wire := lk_wire s1 @ take n frame\<rparr>)))"

definition link_raw_send :: "nat option \<Rightarrow> string \<Rightarrow> u8 list \<Rightarrow> gateway_link \<Rightarrow> (py_error + unit) \<times> gateway_link" where
  "link_raw_send res ty body s =
     (let s1 = s\<lparr>lk_seq := lk_seq s + 1\<rparr>
      in case link_frame ty (lk_seq s1) body of
           None \<Rightarrow> (Inl Struct_error, s1)
         | Some frame \<Rightarrow>
             (case res of
                None \<Rightarrow> (Inr (), s1\<lparr>lk_wire := lk_wire s1 @ frame\<rparr>)
              | Some n \<Rightarrow> (Inl Os_error, s1\<lparr>lk_wire := lk_wire s1 @ take n frame\<rparr>)))"

definition new_order_body :: "int \<Rightarrow> string \<Rightarrow> int \<Rightarrow> int \<Rightarrow> u8 list option" where
  "new_order_body coid side price quantity =
     (case map_of SIDE side of
        None \<Rightarrow> None
      | Some b \<Rightarrow> pack NEW_ORDER_FMT [Vint coid, Vbytes ([85, 73] @ replicate 6 0), Vint b, Vint price, Vint quantity])"

definition submitted_order :: "int \<Rightarrow> string \<Rightarrow> int \<Rightarrow> int \<Rightarrow> rat \<Rightarrow> blotter_order" where
  "submitted_order coid side price quantity ts =
     \<lparr>bo_client_order_id = coid, bo_exchange_order_id = 0, bo_side = side, bo_price = price, bo_quantity = quantity,
      bo_status = ''Submitted'', bo_fill_price = 0, bo_fill_quantity = 0, bo_leaves_quantity = quantity, bo_ts = ts\<rparr>"

text \<open>The values \<^verbatim>\<open>json.loads\<close> can deliver; \<^verbatim>\<open>isinstance\<close> counts \<^verbatim>\<open>True\<close> and \<^verbatim>\<open>False\<close> as integers.\<close>

datatype py_float = Finite rat | Not_a_number | Infinite

datatype json = J_null | J_bool bool | J_int int | J_float py_float | J_str string | J_array "json list" | J_object "(string \<times> json) list"

fun is_int :: "json \<Rightarrow> bool" where
  "is_int (J_bool b) \<longleftrightarrow> True"
| "is_int (J_int n) \<longleftrightarrow> True"
| "is_int _ \<longleftrightarrow> False"

fun is_number :: "json \<Rightarrow> bool" where
  "is_number (J_float x) \<longleftrightarrow> True"
| "is_number j \<longleftrightarrow> is_int j"

text \<open>\<^verbatim>\<open>int(x)\<close> for the numbers that pass that test; it truncates.\<close>

fun int_of :: "json \<Rightarrow> py_error + int" where
  "int_of (J_bool b) = Inr (of_bool b)"
| "int_of (J_int n) = Inr n"
| "int_of (J_float (Finite x)) = Inr (if 0 \<le> x then \<lfloor>x\<rfloor> else \<lceil>x\<rceil>)"
| "int_of (J_float Not_a_number) = Inl Value_error"
| "int_of (J_float Infinite) = Inl Overflow_error"
| "int_of _ = Inl Type_error"

definition submit_new_order ::
  "(nat \<Rightarrow> rat) \<Rightarrow> nat option \<Rightarrow> string \<Rightarrow> json \<Rightarrow> json \<Rightarrow> gateway_link \<Rightarrow> (py_error + int) \<times> gateway_link" where
  "submit_new_order clk res side price quantity s =
     (case next_client_order_id s of
        (coid, s1) \<Rightarrow>
          (case (int_of price, int_of quantity) of
             (Inl e, _) \<Rightarrow> (Inl e, s1)
           | (Inr p, Inl e) \<Rightarrow> (Inl e, s1)
           | (Inr p, Inr q) \<Rightarrow>
               (case new_order_body coid side p q of
                  None \<Rightarrow> (Inl Struct_error, s1)
                | Some body \<Rightarrow>
                    let order = submitted_order coid side p q (clk (clock_reads s1));
                        s2 = s1\<lparr>clock_reads := clock_reads s1 + 1, lk_orders := AList.update coid order (lk_orders s1)\<rparr>;
                        s3 = broadcast (Msg_update order) s2;
                        s4 = s3\<lparr>lk_stats := (lk_stats s3)\<lparr>st_orders_sent := st_orders_sent (lk_stats s3) + 1\<rparr>\<rparr>
                    in case link_send_frame res ''NewOrder'' body s4 of
                         (Inl e, s5) \<Rightarrow> (Inl e, s5)
                       | (Inr sent, s5) \<Rightarrow> (Inr coid, s5))))"

definition submit_cancel :: "nat option \<Rightarrow> json \<Rightarrow> gateway_link \<Rightarrow> (py_error + unit) \<times> gateway_link" where
  "submit_cancel res coid s =
     (case int_of coid of
        Inl e \<Rightarrow> (Inl e, s)
      | Inr i \<Rightarrow>
          (case pack CANCEL_ORDER_FMT [Vint i] of
             None \<Rightarrow> (Inl Struct_error, s)
           | Some body \<Rightarrow>
               (case link_send_frame res ''CancelOrder'' body s of
                  (Inl e, s') \<Rightarrow> (Inl e, s')
                | (Inr sent, s') \<Rightarrow> (Inr (), s'))))"

text \<open>
  \<^verbatim>\<open>_send_frame\<close> once more, as handler threads execute it next to each other: the increment, the packing
  of the header with the number read anew, and \<^verbatim>\<open>sendall\<close> under the lock are separate steps.
\<close>

datatype sender_pc = At_check | At_pack | At_send "u8 list" | Returned bool | Failed

definition sender_step :: "string \<Rightarrow> u8 list \<Rightarrow> sender_pc \<times> gateway_link \<Rightarrow> sender_pc \<times> gateway_link" where
  "sender_step ty body = (\<lambda>(pc, s).
     case pc of
       At_check \<Rightarrow> if lk_connected s then (At_pack, s\<lparr>lk_seq := lk_seq s + 1\<rparr>) else (Returned False, s)
     | At_pack \<Rightarrow> (case link_frame ty (lk_seq s) body of None \<Rightarrow> (Failed, s) | Some frame \<Rightarrow> (At_send frame, s))
     | At_send frame \<Rightarrow> (Returned True, s\<lparr>lk_wire := lk_wire s @ frame\<rparr>)
     | _ \<Rightarrow> (pc, s))"

text \<open>Thread \<open>i\<close> sends the \<open>i\<close>-th message; a schedule names the thread that takes the next step.\<close>

fun run_senders :: "(string \<times> u8 list) list \<Rightarrow> nat list \<Rightarrow> sender_pc list \<Rightarrow> gateway_link \<Rightarrow> sender_pc list \<times> gateway_link" where
  "run_senders ms [] pcs s = (pcs, s)"
| "run_senders ms (i # is) pcs s =
     (case sender_step (fst (ms ! i)) (snd (ms ! i)) (pcs ! i, s) of
        (pc, s') \<Rightarrow> run_senders ms is (pcs[i := pc]) s')"

section \<open>Receiving\<close>

definition status_name :: "int \<Rightarrow> string" where
  "status_name st = (case map_of EXEC_STATUS st of None \<Rightarrow> show_int st | Some name \<Rightarrow> name)"

definition unknown_order :: "int \<Rightarrow> blotter_order" where
  "unknown_order coid = \<lparr>bo_client_order_id = coid, bo_exchange_order_id = 0, bo_side = ''?'', bo_price = 0, bo_quantity = 0,
     bo_status = '''', bo_fill_price = 0, bo_fill_quantity = 0, bo_leaves_quantity = 0, bo_ts = 0\<rparr>"

definition count_status :: "string \<Rightarrow> link_stats \<Rightarrow> link_stats" where
  "count_status name st =
     (if name = ''Filled'' \<or> name = ''PartialFill'' then st\<lparr>st_fills := st_fills st + 1\<rparr>
      else if name = ''Rejected'' then st\<lparr>st_rejects := st_rejects st + 1\<rparr>
      else if name = ''Canceled'' then st\<lparr>st_cancels := st_cancels st + 1\<rparr>
      else st)"

text \<open>The order of a report is created without the fields that are assigned below it.\<close>

definition on_exec_report :: "(nat \<Rightarrow> rat) \<Rightarrow> int \<Rightarrow> int \<Rightarrow> int \<Rightarrow> int \<Rightarrow> int \<Rightarrow> int \<Rightarrow> gateway_link \<Rightarrow> gateway_link" where
  "on_exec_report clk coid exid st fill_price fill_qty leaves_qty s =
     (let name = status_name st;
          order = (case map_of (lk_orders s) coid of None \<Rightarrow> unknown_order coid | Some order \<Rightarrow> order);
          order' = order\<lparr>bo_exchange_order_id := exid, bo_status := name, bo_fill_price := fill_price,
                     bo_fill_quantity := fill_qty, bo_leaves_quantity := leaves_qty, bo_ts := clk (clock_reads s)\<rparr>;
          s1 = s\<lparr>clock_reads := clock_reads s + 1, lk_orders := AList.update coid order' (lk_orders s)\<rparr>;
          s2 = s1\<lparr>lk_stats := count_status name (lk_stats s1)\<rparr>
      in broadcast (Msg_update order') s2)"

definition link_handle :: "(nat \<Rightarrow> rat) \<Rightarrow> int \<Rightarrow> u8 list \<Rightarrow> gateway_link \<Rightarrow> (py_error + unit) \<times> gateway_link" where
  "link_handle clk ty body s =
     (if Some ty = map_of MSG_TYPE ''Logon'' then (Inr (), broadcast (Msg_status True) (s\<lparr>lk_connected := True\<rparr>))
      else if Some ty = map_of MSG_TYPE ''ExecutionReport'' then
        (case unpack EXEC_REPORT_FMT body of
           Some [Vint coid, Vint exid, Vint st, Vint fill_price, Vint fill_qty, Vint leaves_qty] \<Rightarrow>
             (Inr (), on_exec_report clk coid exid st fill_price fill_qty leaves_qty s)
         | _ \<Rightarrow> (Inl Struct_error, s))
      else (Inr (), s))"

text \<open>The body length and the type in the first bytes of the buffer.\<close>

definition peek_header :: "u8 list \<Rightarrow> nat \<times> int" where
  "peek_header buf =
     (case unpack HEADER_FMT (take HEADER_LEN buf) of
        Some [Vint n, Vint ty, Vint seq] \<Rightarrow> (nat n, ty)
      | _ \<Rightarrow> (0, 0))"

function link_drain :: "(nat \<Rightarrow> rat) \<Rightarrow> u8 list \<Rightarrow> gateway_link \<Rightarrow> (py_error + u8 list) \<times> gateway_link" where
  "link_drain clk buf s =
     (if length buf < HEADER_LEN then (Inr buf, s)
      else case peek_header buf of
        (body_len, ty) \<Rightarrow>
          let total_len = HEADER_LEN + body_len
          in if length buf < total_len then (Inr buf, s)
             else case link_handle clk ty (take body_len (drop HEADER_LEN buf)) s of
                    (Inl e, s') \<Rightarrow> (Inl e, s')
                  | (Inr u, s') \<Rightarrow> link_drain clk (drop total_len buf) s')"
  by pat_completeness auto
termination
  by (relation "measure (\<lambda>(clk, buf, s). length buf)") (auto simp: HEADER_LEN_def HEADER_FMT_def)

declare link_drain.simps [simp del]

text \<open>What \<^verbatim>\<open>recv\<close> does: data (the empty string when the gateway has closed), a timeout or an error.\<close>

datatype link_recv = Chunk "u8 list" | Timed_out | Recv_failed

fun link_pump :: "(nat \<Rightarrow> rat) \<Rightarrow> link_recv list \<Rightarrow> u8 list \<Rightarrow> gateway_link \<Rightarrow> (py_error + u8 list) \<times> gateway_link" where
  "link_pump clk [] buf s = (Inr buf, s)"
| "link_pump clk (Timed_out # rs) buf s = link_pump clk rs buf s"
| "link_pump clk (Recv_failed # rs) buf s = (Inl Os_error, s)"
| "link_pump clk (Chunk bs # rs) buf s =
     (if bs = [] then (Inl Os_error, s)
      else case link_drain clk (buf @ bs) s of
             (Inl e, s') \<Rightarrow> (Inl e, s')
           | (Inr buf', s') \<Rightarrow> link_pump clk rs buf' s')"

definition logon_body :: "gateway_link \<Rightarrow> u8 list option" where
  "logon_body s = pack LOGON_FMT [Vint (lk_client_id s), Vint 5000, Vint 0]"

text \<open>
  One connection: \<open>conn\<close> says whether \<^verbatim>\<open>create_connection\<close> succeeds, \<open>res\<close> what \<^verbatim>\<open>sendall\<close> does with the
  logon, and \<open>rs\<close> what the calls of \<^verbatim>\<open>recv\<close> return so far.
\<close>

definition connect_and_pump ::
  "(nat \<Rightarrow> rat) \<Rightarrow> bool \<Rightarrow> nat option \<Rightarrow> link_recv list \<Rightarrow> gateway_link \<Rightarrow> (py_error + u8 list) \<times> gateway_link" where
  "connect_and_pump clk conn res rs s =
     (if \<not> conn then (Inl Os_error, s)
      else let s1 = s\<lparr>lk_seq := 0, lk_wire := []\<rparr>
           in case logon_body s1 of
                None \<Rightarrow> (Inl Struct_error, s1)
              | Some body \<Rightarrow>
                  (case link_raw_send res ''Logon'' body s1 of
                     (Inl e, s2) \<Rightarrow> (Inl e, s2)
                   | (Inr u, s2) \<Rightarrow> link_pump clk rs [] s2))"

text \<open>
  The reader thread over a list of connections, with the pauses it makes. Only \<^verbatim>\<open>OSError\<close> is
  caught: any other exception ends the thread, which is the result \<^const>\<open>Inl\<close>.
\<close>

fun link_run ::
  "(nat \<Rightarrow> rat) \<Rightarrow> (bool \<times> nat option \<times> link_recv list) list \<Rightarrow> rat \<Rightarrow> gateway_link \<Rightarrow> (py_error + rat list) \<times> gateway_link" where
  "link_run clk [] backoff s = (Inr [], s)"
| "link_run clk ((conn, res, rs) # cs) backoff s =
     (case connect_and_pump clk conn res rs s of
        (Inr buf, s') \<Rightarrow> (Inr [], s')
      | (Inl e, s') \<Rightarrow>
          if e \<noteq> Os_error then (Inl e, s')
          else (case link_run clk cs (min (backoff * 2) 5) (broadcast (Msg_status False) (s'\<lparr>lk_connected := False\<rparr>)) of
                  (Inl e, s'') \<Rightarrow> (Inl e, s'')
                | (Inr pauses, s'') \<Rightarrow> (Inr (backoff # pauses), s'')))"

section \<open>The POST handlers\<close>

datatype request_body = Parsed json | Bad_json | Bad_text

datatype reply = Reply_error nat string | Reply_order int | Reply_ok | Reply_not_found | Raised py_error

fun as_dict :: "json \<Rightarrow> (string \<times> json) list option" where
  "as_dict (J_object kvs) = Some kvs"
| "as_dict _ = None"

definition payload_get :: "string \<Rightarrow> (string \<times> json) list \<Rightarrow> json" where
  "payload_get key kvs = (case map_of kvs key of None \<Rightarrow> J_null | Some j \<Rightarrow> j)"

text \<open>\<^verbatim>\<open>side not in SIDE\<close> hashes its operand, which raises for lists and dictionaries.\<close>

fun in_SIDE :: "json \<Rightarrow> py_error + string option" where
  "in_SIDE (J_str x) = Inr (if map_of SIDE x = None then None else Some x)"
| "in_SIDE (J_array js) = Inl Type_error"
| "in_SIDE (J_object kvs) = Inl Type_error"
| "in_SIDE _ = Inr None"

definition post_order :: "(nat \<Rightarrow> rat) \<Rightarrow> nat option \<Rightarrow> (string \<times> json) list \<Rightarrow> gateway_link \<Rightarrow> reply \<times> gateway_link" where
  "post_order clk res payload s =
     (let price = payload_get ''price'' payload; quantity = payload_get ''quantity'' payload;
          usage = Reply_error 400 ''expected {side: buy|sell, price, quantity}''
      in case in_SIDE (payload_get ''side'' payload) of
           Inl e \<Rightarrow> (Raised e, s)
         | Inr None \<Rightarrow> (usage, s)
         | Inr (Some side) \<Rightarrow>
             if \<not> is_number price \<or> \<not> is_number quantity then (usage, s)
             else if \<not> lk_connected s then (Reply_error 503 ''not connected to gateway'', s)
             else (case submit_new_order clk res side price quantity s of
                     (Inl e, s') \<Rightarrow> (Raised e, s')
                   | (Inr coid, s') \<Rightarrow> (Reply_order coid, s')))"

definition post_cancel :: "nat option \<Rightarrow> (string \<times> json) list \<Rightarrow> gateway_link \<Rightarrow> reply \<times> gateway_link" where
  "post_cancel res payload s =
     (let coid = payload_get ''client_order_id'' payload
      in if \<not> is_int coid then (Reply_error 400 ''expected {client_order_id}'', s)
         else if \<not> lk_connected s then (Reply_error 503 ''not connected to gateway'', s)
         else (case submit_cancel res coid s of
                 (Inl e, s') \<Rightarrow> (Raised e, s')
               | (Inr u, s') \<Rightarrow> (Reply_ok, s')))"

definition do_POST :: "(nat \<Rightarrow> rat) \<Rightarrow> nat option \<Rightarrow> string \<Rightarrow> request_body \<Rightarrow> gateway_link \<Rightarrow> reply \<times> gateway_link" where
  "do_POST clk res path body s =
     (case body of
        Bad_json \<Rightarrow> (Reply_error 400 ''bad json'', s)
      | Bad_text \<Rightarrow> (Raised Value_error, s)
      | Parsed payload \<Rightarrow>
          if path = ''/api/order'' then
            (case as_dict payload of None \<Rightarrow> (Raised Attribute_error, s) | Some kvs \<Rightarrow> post_order clk res kvs s)
          else if path = ''/api/cancel'' then
            (case as_dict payload of None \<Rightarrow> (Raised Attribute_error, s) | Some kvs \<Rightarrow> post_cancel res kvs s)
          else (Reply_not_found, s))"

end
