(* ===== verification/Bridge_Properties.thy ===== *)
theory Bridge_Properties
  imports Web_Bridge Gateway_Properties
begin

text \<open>
  The bridge of \<^verbatim>\<open>scripts/web_bridge.py\<close> together with the gateway it talks to: what the browser
  posts reaches the sequencer, what the engine acknowledges reaches the blotter, and what
  happens to a bridge that has nothing to say.
\<close>

section \<open>The two sides agree on the layout\<close>

lemma link_frame_bytes:
  assumes "map_of MSG_TYPE name = Some (uint (byte_of_msg_type ty))" and "length body < 2 ^ 16" and "0 \<le> seq" and "seq < 2 ^ 32"
  shows "link_frame name seq body = Some (frame_bytes ty (of_int seq) body)"
proof -
  have "pack_field (Uint (Suc 0)) (Vint (uint (byte_of_msg_type ty))) = Some [byte_of_msg_type ty]"
    using pack_number(1) [of "uint (byte_of_msg_type ty)"] uint_lt2p [of "byte_of_msg_type ty"] by simp
  moreover have "pack_field (Uint 2) (Vint (int (length body))) = Some (word_bytes (of_nat (length body) :: u16))"
    using pack_number(2) [of "int (length body)"] assms(2) by simp
  ultimately show ?thesis
    using assms(1) pack_number(3) [OF assms(3,4)]
    by (simp add: link_frame_def HEADER_FMT_def frame_bytes_def encode_MsgHeader_def del: pack_field.simps)
qed

lemmas request_frames = link_frame_bytes [of "''NewOrder''" Mt_NewOrder] link_frame_bytes [of "''CancelOrder''" Mt_CancelOrder]
  link_frame_bytes [of "''Logon''" Mt_Logon]

text \<open>The message a new order of the browser is packed into.\<close>

definition ui_order :: "int \<Rightarrow> string \<Rightarrow> int \<Rightarrow> int \<Rightarrow> NewOrderMsg" where
  "ui_order coid side p q = \<lparr>no_client_order_id = of_int coid, no_symbol = [85, 73] @ replicate 6 0,
     no_side = (if side = ''buy'' then Buy else Sell), no_price = of_int p, no_quantity = of_int q\<rparr>"

lemma new_order_body_encodes:
  assumes "new_order_body coid side p q = Some body"
  shows "body = encode_NewOrderMsg (ui_order coid side p q) \<and> side \<in> {''buy'', ''sell''} \<and>
    0 \<le> coid \<and> coid < 2 ^ 64 \<and> 0 \<le> p \<and> p < 2 ^ 32 \<and> 0 \<le> q \<and> q < 2 ^ 32"
proof -
  have side: "side = ''buy'' \<or> side = ''sell''"
    using assms by (auto simp: new_order_body_def SIDE_def split: if_splits)
  have ranges: "0 \<le> coid \<and> coid < 2 ^ 64 \<and> 0 \<le> p \<and> p < 2 ^ 32 \<and> 0 \<le> q \<and> q < 2 ^ 32"
    using assms by (auto simp: new_order_body_def NEW_ORDER_FMT_def split: option.splits if_splits)
  have "pack_field (Uint (Suc 0)) (Vint 0) = Some [0]" "pack_field (Uint (Suc 0)) (Vint 1) = Some [1]"
    by simp_all
  then show ?thesis
    using assms side ranges pack_number(3) [of p] pack_number(3) [of q] pack_number(4) [of coid]
    by (auto simp: new_order_body_def NEW_ORDER_FMT_def SIDE_def encode_NewOrderMsg_def ui_order_def
        simp del: pack_field.simps(1) split: option.splits)
qed

lemma cancel_body_encodes:
  assumes "pack CANCEL_ORDER_FMT [Vint i] = Some body"
  shows "body = encode_CancelOrderMsg \<lparr>co_client_order_id = of_int i\<rparr> \<and> 0 \<le> i \<and> i < 2 ^ 64"
proof -
  have "0 \<le> i \<and> i < 2 ^ 64"
    using assms by (auto simp: CANCEL_ORDER_FMT_def split: option.splits if_splits)
  then show ?thesis
    using assms pack_number(4) [of i]
    by (auto simp: CANCEL_ORDER_FMT_def encode_CancelOrderMsg_def simp del: pack_field.simps(1) split: option.splits)
qed

lemma frame_bytes_ok:
  assumes "length body < 2 ^ 16" and "msg_type_of_byte (byte_of_msg_type ty) = ty"
  shows "frame_ok (frame_bytes ty q body)" and "drop sizeof_MsgHeader (frame_bytes ty q body) = body"
    and "decode_MsgHeader (frame_bytes ty q body) = \<lparr>body_length = of_nat (length body), msg_type = ty, hdr_seq_num = q\<rparr>"
proof -
  let ?h = "\<lparr>body_length = of_nat (length body), msg_type = ty, hdr_seq_num = q\<rparr>"
  show dec: "decode_MsgHeader (frame_bytes ty q body) = ?h"
    using decode_encode_header [of ?h body] assms(2) by (simp add: frame_bytes_def)
  have "unat (of_nat (length body) :: u16) = length body"
    using assms(1) by (simp add: unat_of_nat)
  then show "frame_ok (frame_bytes ty q body)"
    unfolding frame_ok_def dec by (simp add: frame_bytes_def)
  show "drop sizeof_MsgHeader (frame_bytes ty q body) = body"
    by (simp add: frame_bytes_def)
qed

section \<open>From the browser to the sequencer\<close>

text \<open>Requests one after the other; every frame is accepted by the socket.\<close>

fun post_all :: "(nat \<Rightarrow> rat) \<Rightarrow> (string \<times> request_body) list \<Rightarrow> gateway_link \<Rightarrow> reply list \<times> gateway_link" where
  "post_all clk [] s = ([], s)"
| "post_all clk ((path, body) # ps) s =
     (let (r, s1) = do_POST clk None path body s; (rs, s2) = post_all clk ps s1 in (r # rs, s2))"

fun accepted :: "reply \<Rightarrow> bool" where
  "accepted (Reply_order coid) \<longleftrightarrow> True"
| "accepted Reply_ok \<longleftrightarrow> True"
| "accepted _ \<longleftrightarrow> False"

text \<open>The event \<open>ev\<close> asks for what the request with this body and this reply asked for.\<close>

fun serves :: "int \<Rightarrow> request_body \<Rightarrow> reply \<Rightarrow> SequencedEvent \<Rightarrow> bool" where
  "serves fd (Parsed (J_object kvs)) (Reply_order coid) ev \<longleftrightarrow>
     ev_type ev = Ev_NewOrder \<and> ev_session_id ev = of_int fd \<and> uint (ev_client_order_id ev) = coid \<and>
     payload_get ''side'' kvs = J_str (if ev_side ev = Buy then ''buy'' else ''sell'') \<and> ev_side ev \<in> {Buy, Sell} \<and>
     int_of (payload_get ''price'' kvs) = Inr (uint (ev_price ev)) \<and>
     int_of (payload_get ''quantity'' kvs) = Inr (uint (ev_quantity ev))"
| "serves fd (Parsed (J_object kvs)) Reply_ok ev \<longleftrightarrow>
     ev_type ev = Ev_CancelOrder \<and> ev_session_id ev = of_int fd \<and>
     int_of (payload_get ''client_order_id'' kvs) = Inr (uint (ev_client_order_id ev))"
| "serves fd _ _ ev \<longleftrightarrow> False"

text \<open>A frame with number \<open>q\<close> that carries exactly one request.\<close>

definition carries_request :: "int \<Rightarrow> u32 \<Rightarrow> u8 list \<Rightarrow> SequencedEvent \<Rightarrow> bool" where
  "carries_request fd q f ev \<longleftrightarrow> stays_open f \<and> request_of fd f = [ev] \<and> hdr_seq_num (decode_MsgHeader f) = q"

lemma order_frame:
  assumes "new_order_body coid side p q = Some body"
  shows "length body < 2 ^ 16 \<and> carries_request fd n (frame_bytes Mt_NewOrder n body) (order_event fd (ui_order coid side p q))"
proof -
  let ?m = "ui_order coid side p q"
  have m: "length (no_symbol ?m) = 8" "no_side ?m = side_of_byte (byte_of_side (no_side ?m))"
    by (simp_all add: ui_order_def side_of_byte_def)
  have body: "body = encode_NewOrderMsg ?m" "length body = sizeof_NewOrderMsg"
    using new_order_body_encodes [OF assms] m(1) by simp_all
  then have len: "length body < 2 ^ 16"
    by (simp add: sizeof_NewOrderMsg_def)
  have "msg_type_of_byte (byte_of_msg_type Mt_NewOrder) = Mt_NewOrder"
    by (simp add: msg_type_of_byte_def)
  note f = frame_bytes_ok [OF len this, of n]
  show ?thesis
    using len f body(2) decode_encode_new_order [OF m, of "[]"]
    by (simp add: carries_request_def stays_open_def request_of_def Let_def body(1))
qed

lemma cancel_frame:
  assumes "pack CANCEL_ORDER_FMT [Vint i] = Some body"
  shows "length body < 2 ^ 16 \<and> carries_request fd n (frame_bytes Mt_CancelOrder n body) (event_base Ev_CancelOrder fd (of_int i))"
proof -
  let ?m = "\<lparr>co_client_order_id = of_int i :: u64\<rparr>"
  have body: "body = encode_CancelOrderMsg ?m" "length body = sizeof_CancelOrderMsg"
    using cancel_body_encodes [OF assms] by simp_all
  then have len: "length body < 2 ^ 16"
    by (simp add: sizeof_CancelOrderMsg_def)
  have "msg_type_of_byte (byte_of_msg_type Mt_CancelOrder) = Mt_CancelOrder"
    by (simp add: msg_type_of_byte_def)
  note f = frame_bytes_ok [OF len this, of n]
  show ?thesis
    using len f body(2) decode_encode_cancel [of ?m "[]"]
    by (simp add: carries_request_def stays_open_def request_of_def Let_def body(1))
qed

lemma uint_of_number: "0 \<le> v \<Longrightarrow> v < 2 ^ 32 \<Longrightarrow> uint (of_int v :: u32) = v"
  "0 \<le> v \<Longrightarrow> v < 2 ^ 64 \<Longrightarrow> uint (of_int v :: u64) = v"
  by (simp_all add: unsigned_of_int take_bit_int_eq_self)

text \<open>What one request sends: nothing, or the frame of the request it was accepted for.\<close>

definition sends :: "int \<Rightarrow> request_body \<Rightarrow> reply \<Rightarrow> gateway_link \<Rightarrow> gateway_link \<Rightarrow> bool" where
  "sends fd body r s s' \<longleftrightarrow> lk_connected s' = lk_connected s \<and>
     (if accepted r
      then lk_seq s' = lk_seq s + 1 \<and>
        (\<exists>f ev. lk_wire s' = lk_wire s @ f \<and> carries_request fd (of_int (lk_seq s + 1)) f ev \<and> serves fd body r ev)
      else lk_seq s' = lk_seq s \<and> lk_wire s' = lk_wire s)"

lemma broadcast_other [simp]:
  "lk_connected (broadcast m s) = lk_connected s" "lk_seq (broadcast m s) = lk_seq s" "lk_wire (broadcast m s) = lk_wire s"
  "lk_stats (broadcast m s) = lk_stats s" "lk_orders (broadcast m s) = lk_orders s" "clock_reads (broadcast m s) = clock_reads s"
  "order_counter (broadcast m s) = order_counter s" "lk_client_id (broadcast m s) = lk_client_id s"
  by (simp_all add: broadcast_def)

lemma link_send_ok:
  assumes "lk_connected s" and "0 \<le> lk_seq s" and "lk_seq s + 1 < 2 ^ 32" and "length body < 2 ^ 16"
    and "map_of MSG_TYPE name = Some (uint (byte_of_msg_type ty))"
  shows "link_send_frame None name body s =
    (Inr True, s\<lparr>lk_seq := lk_seq s + 1, lk_wire := lk_wire s @ frame_bytes ty (of_int (lk_seq s + 1)) body\<rparr>)"
  using link_frame_bytes [OF assms(5,4), of "lk_seq s + 1"] assms(1-3) by (simp add: link_send_frame_def Let_def)

lemma submit_new_order_sends:
  assumes link: "lk_connected s" "0 \<le> lk_seq s" "lk_seq s + 1 < 2 ^ 32"
    and sub: "submit_new_order clk None side jp jq s = (res, s')"
  shows "lk_connected s' \<and>
    (case res of
       Inl e \<Rightarrow> lk_seq s' = lk_seq s \<and> lk_wire s' = lk_wire s
     | Inr coid \<Rightarrow> coid = order_counter s + 1 \<and> lk_seq s' = lk_seq s + 1 \<and>
         (\<exists>p q body. int_of jp = Inr p \<and> int_of jq = Inr q \<and> new_order_body coid side p q = Some body \<and>
            lk_wire s' = lk_wire s @ frame_bytes Mt_NewOrder (of_int (lk_seq s + 1)) body))"
proof (cases "\<exists>p q body. int_of jp = Inr p \<and> int_of jq = Inr q \<and> new_order_body (order_counter s + 1) side p q = Some body")
  case True
  then obtain p q body where ok: "int_of jp = Inr p" "int_of jq = Inr q" "new_order_body (order_counter s + 1) side p q = Some body"
    by blast
  have ty: "map_of MSG_TYPE ''NewOrder'' = Some (uint (byte_of_msg_type Mt_NewOrder))"
    by (simp add: MSG_TYPE_def)
  have "length body < 2 ^ 16"
    using order_frame [OF ok(3)] by blast
  note send = link_send_ok [OF _ _ _ this ty]
  show ?thesis
    using sub ok link by (auto simp: submit_new_order_def next_client_order_id_def Let_def send)
next
  case False
  with sub link(1) show ?thesis
    by (auto simp: submit_new_order_def next_client_order_id_def split: sum.splits option.splits)
qed

lemma post_order_sends:
  assumes "lk_connected s" and "0 \<le> lk_seq s" and "lk_seq s + 1 < 2 ^ 32" and post: "post_order clk None kvs s = (r, s')"
  shows "sends fd (Parsed (J_object kvs)) r s s'"
proof (cases "\<exists>side res. payload_get ''side'' kvs = J_str side \<and>
    submit_new_order clk None side (payload_get ''price'' kvs) (payload_get ''quantity'' kvs) s = (res, s') \<and>
    r = (case res of Inl e \<Rightarrow> Raised e | Inr coid \<Rightarrow> Reply_order coid)")
  case True
  then obtain side res where side: "payload_get ''side'' kvs = J_str side"
    and sub: "submit_new_order clk None side (payload_get ''price'' kvs) (payload_get ''quantity'' kvs) s = (res, s')"
    and r: "r = (case res of Inl e \<Rightarrow> Raised e | Inr coid \<Rightarrow> Reply_order coid)"
    by blast
  note s' = submit_new_order_sends [OF assms(1-3) sub]
  show ?thesis
  proof (cases res)
    case (Inl e)
    with s' r assms(1) show ?thesis by (simp add: sends_def)
  next
    case (Inr coid)
    with s' obtain p q body where b: "int_of (payload_get ''price'' kvs) = Inr p" "int_of (payload_get ''quantity'' kvs) = Inr q"
      "new_order_body coid side p q = Some body" "lk_wire s' = lk_wire s @ frame_bytes Mt_NewOrder (of_int (lk_seq s + 1)) body"
      by auto
    have "serves fd (Parsed (J_object kvs)) r (order_event fd (ui_order coid side p q))"
      using new_order_body_encodes [OF b(3)] b side r Inr
      by (auto simp: order_event_def event_base_def ui_order_def uint_of_number)
    with order_frame [OF b(3), of fd "of_int (lk_seq s + 1)"] b(4) s' Inr r assms(1) show ?thesis
      unfolding sends_def by auto
  qed
next
  case False
  with post have "s' = s \<and> \<not> accepted r"
    by (auto simp: post_order_def Let_def elim!: in_SIDE.elims split: sum.splits option.splits if_splits prod.splits)
  then show ?thesis
    using assms(1) by (auto simp: sends_def)
qed

lemma post_cancel_sends:
  assumes "lk_connected s" and "0 \<le> lk_seq s" and "lk_seq s + 1 < 2 ^ 32" and post: "post_cancel None kvs s = (r, s')"
  shows "sends fd (Parsed (J_object kvs)) r s s'"
proof (cases "\<exists>i body. is_int (payload_get ''client_order_id'' kvs) \<and>
    int_of (payload_get ''client_order_id'' kvs) = Inr i \<and> pack CANCEL_ORDER_FMT [Vint i] = Some body")
  case True
  then obtain i body where i: "is_int (payload_get ''client_order_id'' kvs)" "int_of (payload_get ''client_order_id'' kvs) = Inr i"
    and body: "pack CANCEL_ORDER_FMT [Vint i] = Some body"
    by blast
  have ty: "map_of MSG_TYPE ''CancelOrder'' = Some (uint (byte_of_msg_type Mt_CancelOrder))"
    by (simp add: MSG_TYPE_def)
  note frame = cancel_frame [OF body, of fd "of_int (lk_seq s + 1)"]
  have "r = Reply_ok" and s': "s' = s\<lparr>lk_seq := lk_seq s + 1, lk_wire := lk_wire s @ frame_bytes Mt_CancelOrder (of_int (lk_seq s + 1)) body\<rparr>"
    using post i body assms(1) link_send_ok [OF assms(1-3) _ ty, of body] frame
    by (simp_all add: post_cancel_def submit_cancel_def)
  moreover have "serves fd (Parsed (J_object kvs)) Reply_ok (event_base Ev_CancelOrder fd (of_int i))"
    using i(2) cancel_body_encodes [OF body] by (simp add: event_base_def uint_of_number)
  ultimately show ?thesis
    using frame unfolding sends_def by auto
next
  case False
  with post have "s' = s \<and> \<not> accepted r"
    by (auto simp: post_cancel_def submit_cancel_def Let_def split: sum.splits option.splits if_splits prod.splits)
  then show ?thesis
    using assms(1) by (auto simp: sends_def)
qed

lemma do_POST_sends:
  assumes "lk_connected s" and "0 \<le> lk_seq s" and "lk_seq s + 1 < 2 ^ 32" and post: "do_POST clk None path body s = (r, s')"
  shows "sends fd body r s s'"
proof -
  consider (order) kvs where "body = Parsed (J_object kvs)" "post_order clk None kvs s = (r, s')"
    | (cancel) kvs where "body = Parsed (J_object kvs)" "post_cancel None kvs s = (r, s')"
    | (nothing) "s' = s" "\<not> accepted r"
    using post by (cases body) (auto simp: do_POST_def split: if_splits option.splits elim!: as_dict.elims)
  then show ?thesis
  proof cases
    case nothing
    then show ?thesis by (simp add: sends_def)
  qed (simp_all add: post_order_sends [OF assms(1-3)] post_cancel_sends [OF assms(1-3)])
qed

text \<open>Frames with consecutive numbers from \<open>q\<close> on, one for each event.\<close>

fun carry_requests :: "int \<Rightarrow> u32 \<Rightarrow> u8 list list \<Rightarrow> SequencedEvent list \<Rightarrow> bool" where
  "carry_requests fd q [] [] \<longleftrightarrow> True"
| "carry_requests fd q (f # fs) (ev # evs) \<longleftrightarrow> carries_request fd q f ev \<and> carry_requests fd (q + 1) fs evs"
| "carry_requests fd q _ _ \<longleftrightarrow> False"

definition served :: "int \<Rightarrow> (string \<times> request_body) list \<Rightarrow> reply list \<Rightarrow> SequencedEvent list \<Rightarrow> bool" where
  "served fd ps rs evs \<longleftrightarrow>
     list_all2 (\<lambda>((path, body), r) ev. serves fd body r ev) (filter (\<lambda>(p, r). accepted r) (zip ps rs)) evs"

lemma carry_requests_ok:
  "carry_requests fd q fs evs \<Longrightarrow> length evs = length fs \<and> (\<forall>f \<in> set fs. frame_ok f)"
  by (induction fd q fs evs rule: carry_requests.induct) (auto simp: carries_request_def stays_open_def)

lemma post_all_frames:
  assumes "lk_connected s" and "0 \<le> lk_seq s" and "lk_seq s + int (length ps) < 2 ^ 32" and "post_all clk ps s = (rs, s')"
  shows "\<exists>fs evs. lk_wire s' = lk_wire s @ concat fs \<and> carry_requests fd (of_int (lk_seq s + 1)) fs evs \<and>
    served fd ps rs evs \<and> lk_seq s' = lk_seq s + int (length fs) \<and> length fs \<le> length ps"
  using assms
proof (induction ps arbitrary: s rs)
  case Nil
  then have "carry_requests fd (of_int (lk_seq s + 1)) [] [] \<and> served fd [] rs []"
    by (simp add: served_def)
  with Nil show ?case by (intro exI [of _ "[]"]) simp
next
  case (Cons p ps)
  obtain path body where p: "p = (path, body)" by (cases p)
  obtain r s1 rs1 where r: "do_POST clk None path body s = (r, s1)" "post_all clk ps s1 = (rs1, s')" "rs = r # rs1"
    using Cons.prems(4) by (auto simp: p split: prod.splits)
  have sends: "sends fd body r s s1"
    using do_POST_sends [OF Cons.prems(1,2) _ r(1)] Cons.prems(3) by simp
  then have s1: "lk_connected s1" "0 \<le> lk_seq s1" "lk_seq s1 + int (length ps) < 2 ^ 32"
    using Cons.prems(1-3) by (auto simp: sends_def split: if_splits)
  from Cons.IH [OF s1 r(2)] obtain fs evs where
    IH: "lk_wire s' = lk_wire s1 @ concat fs" "carry_requests fd (of_int (lk_seq s1 + 1)) fs evs" "served fd ps rs1 evs"
      "lk_seq s' = lk_seq s1 + int (length fs)" "length fs \<le> length ps"
    by blast
  show ?case
  proof (cases "accepted r")
    case True
    with sends obtain f ev where
      f: "lk_seq s1 = lk_seq s + 1" "lk_wire s1 = lk_wire s @ f" "carries_request fd (of_int (lk_seq s + 1)) f ev" "serves fd body r ev"
      by (auto simp: sends_def)
    then have "carry_requests fd (of_int (lk_seq s + 1)) (f # fs) (ev # evs)" "served fd (p # ps) rs (ev # evs)"
      using IH(2,3) True r(3) by (simp_all add: served_def p)
    with IH f show ?thesis
      by (intro exI [of _ "f # fs"] exI [of _ "ev # evs"]) simp
  next
    case False
    with IH sends r(3) show ?thesis
      by (intro exI [of _ fs] exI [of _ evs]) (simp add: sends_def served_def)
  qed
qed

text \<open>
  On the gateway's side: while these frames come in, the session expects the number of the next
  one, so that no gap is reported and nothing is sent back.
\<close>

definition in_step :: "int \<Rightarrow> (int \<times> u8 list) list \<Rightarrow> u32 \<Rightarrow> SequencedEvent list \<Rightarrow> u8 list list \<Rightarrow> gateway \<Rightarrow> bool" where
  "in_step fd w q' all_evs fs g \<longleftrightarrow>
     (\<exists>q evs c. carry_requests fd q fs evs \<and> map_of (connections g) fd = Some c \<and> expected_peer_seq (session c) = q \<and>
        queue_ready (length evs) g \<and> spsc_list (sequencer_input g) @ evs = all_evs \<and> q + of_nat (length fs) = q' \<and> wire g = w)"

lemma push_ready:
  assumes "queue_ready (Suc n) g"
  shows "\<exists>q. push_or_reject net now fd ev g = g\<lparr>sequencer_input := q\<rparr>"
proof -
  have "spsc_inv (sequencer_input g)" "length (spsc_list (sequencer_input g)) < length (buffer (sequencer_input g)) - 1"
    using assms by (simp_all add: queue_ready_def)
  then obtain q where "spsc_push (sequencer_input g) ev = Some q"
    by (rule sq.push_room)
  then show ?thesis
    by (auto simp: push_or_reject_def)
qed

lemma dispatch_in_step:
  assumes f: "carries_request fd q f ev" and c: "map_of (connections g) fd = Some c" and q: "expected_peer_seq (session c) = q"
    and ready: "queue_ready (Suc n) g"
  shows "\<exists>g' c'. dispatch net now fd f g = Some g' \<and> readers g' = readers g \<and> queue_ready n g' \<and>
    spsc_list (sequencer_input g') = spsc_list (sequencer_input g) @ [ev] \<and> wire g' = wire g \<and>
    map_of (connections g') fd = Some c' \<and> expected_peer_seq (session c') = q + 1"
proof -
  let ?h = "decode_MsgHeader f" and ?body = "drop sizeof_MsgHeader f"
  have open_f: "stays_open f" and ev: "request_of fd f = [ev]" and h: "hdr_seq_num ?h = q"
    using f by (simp_all add: carries_request_def)
  from dispatch_request [OF open_f, of fd n g net now] ev ready obtain g' where
    g': "dispatch net now fd f g = Some g'" "readers g' = readers g" "queue_ready n g'"
      "spsc_list (sequencer_input g') = spsc_list (sequencer_input g) @ [ev]"
    by auto
  define s where "s = (session c)\<lparr>last_peer_activity := now, expected_peer_seq := q + 1\<rparr>"
  have gap: "report_seq_gap_if_any net now fd q g = set_session fd s g"
    using c q by (simp add: report_seq_gap_if_any_def track_inbound_seq_def Let_def s_def)
  have len: "\<not> length f < sizeof_MsgHeader" "length ?body = unat (body_length ?h)"
    using open_f frame_body by (auto simp: stays_open_def frame_ok_def)
  have "dispatch net now fd f g = Some (push_or_reject net now fd ev (set_session fd s g))"
    using ev len h gap
    by (auto simp: request_of_def dispatch_def dispatch_new_order_def dispatch_cancel_order_def risk_check_def Let_def split: if_splits)
  moreover obtain qu where "push_or_reject net now fd ev (set_session fd s g) = (set_session fd s g)\<lparr>sequencer_input := qu\<rparr>"
    using push_ready [of n "set_session fd s g" net now fd ev] ready by (auto simp: queue_ready_def)
  ultimately have "g' = (set_session fd s g)\<lparr>sequencer_input := qu\<rparr>"
    using g'(1) by simp
  then have "wire g' = wire g" "map_of (connections g') fd = Some (c\<lparr>session := s\<rparr>)"
    using c by (simp_all add: set_session_lookup)
  with g' show ?thesis by (auto simp: s_def)
qed

lemma in_step_step:
  assumes "in_step fd w q' all_evs (f # fs) g"
  shows "\<exists>g'. dispatch net now fd f g = Some g' \<and> readers g' = readers g \<and> in_step fd w q' all_evs fs g'"
proof -
  obtain q evs0 c where *: "carry_requests fd q (f # fs) evs0" "map_of (connections g) fd = Some c" "expected_peer_seq (session c) = q"
    "queue_ready (length evs0) g" "spsc_list (sequencer_input g) @ evs0 = all_evs" "q + of_nat (length (f # fs)) = q'" "wire g = w"
    using assms unfolding in_step_def by blast
  obtain ev evs where evs: "evs0 = ev # evs" "carries_request fd q f ev" "carry_requests fd (q + 1) fs evs"
    using *(1) by (cases evs0) auto
  have "queue_ready (Suc (length evs)) g"
    using *(4) evs(1) by simp
  from dispatch_in_step [OF evs(2) *(2,3) this, of net now] obtain g' c' where
    g': "dispatch net now fd f g = Some g'" "readers g' = readers g" "queue_ready (length evs) g'" "wire g' = wire g"
      "spsc_list (sequencer_input g') = spsc_list (sequencer_input g) @ [ev]" "map_of (connections g') fd = Some c'"
      "expected_peer_seq (session c') = q + 1"
    by blast
  have "in_step fd w q' all_evs fs g'"
    unfolding in_step_def using g' evs * by (intro exI [of _ "q + 1"] exI [of _ evs] exI [of _ c']) (simp add: ac_simps)
  with g'(1,2) show ?thesis by blast
qed

lemma in_step_set_reader: "in_step fd w q' all_evs fs (set_reader fd r g) = in_step fd w q' all_evs fs g"
proof -
  have "wire (set_reader fd r g) = wire g"
    by (simp add: set_reader_def split: option.split)
  then show ?thesis
    unfolding in_step_def by (fastforce simp: set_reader_lookup)
qed

interpretation st: frame_handler net now fd "in_step fd w q' all_evs" for net now fd w q' all_evs
  by unfold_locales (rule in_step_step, assumption, rule in_step_set_reader)

text \<open>
  (C25) What the browser asks for is what is sequenced. Let any list of POST requests, well formed
  or not, be handled one after the other by a bridge whose session is in step with the gateway's,
  and let the bytes it wrote reach the gateway in any chunks. The gateway then queues exactly one
  event for each request that was answered positively, in the order of the requests, with the
  side, price, quantity and order id of the request as exact numbers; refused and failed requests leave no trace,
  no gap is reported, nothing is sent back and the session is in step again.
\<close>
theorem web_requests_reach_sequencer:
  assumes "lk_connected s" and "0 \<le> lk_seq s" and "lk_seq s + int (length ps) < 2 ^ 32"
    and post: "post_all clk ps s = (rs, s')" and wire: "lk_wire s' = lk_wire s @ concat cs" and "cs \<noteq> []"
    and c: "map_of (connections g) fd = Some c" "fr_buffer (reader c) = []"
    and q: "expected_peer_seq (session c) = of_int (lk_seq s + 1)" and "queue_ready (length ps) g"
  shows "\<exists>g' c' evs. handle_readable net now fd (map Data cs) g = Some g' \<and>
    spsc_list (sequencer_input g') = spsc_list (sequencer_input g) @ evs \<and> served fd ps rs evs \<and> wire g' = wire g \<and>
    map_of (connections g') fd = Some c' \<and> fr_buffer (reader c') = [] \<and> expected_peer_seq (session c') = of_int (lk_seq s' + 1)"
proof -
  obtain fs evs where fs: "lk_wire s' = lk_wire s @ concat fs" "carry_requests fd (of_int (lk_seq s + 1)) fs evs"
    "served fd ps rs evs" "lk_seq s' = lk_seq s + int (length fs)" "length fs \<le> length ps"
    using post_all_frames [OF assms(1-3) post] by blast
  note ok = carry_requests_ok [OF fs(2)]
  have "queue_ready (length evs) g"
    using ok fs(5) \<open>queue_ready (length ps) g\<close> by (simp add: queue_ready_def)
  then have J: "in_step fd (wire g) (of_int (lk_seq s' + 1)) (spsc_list (sequencer_input g) @ evs) fs g"
    unfolding in_step_def using fs(2,4) c(1) q by (intro exI [of _ "of_int (lk_seq s + 1)"] exI [of _ evs] exI [of _ c]) simp
  have "concat cs = concat fs @ []" "next_frame \<lparr>fr_buffer = []\<rparr> = None"
    using wire fs(1) by (simp_all add: next_frame_def sizeof_MsgHeader_def)
  from st.handle_readable_run [OF c this(1) \<open>cs \<noteq> []\<close> _ this(2) J, of net now] ok obtain g' where
    g': "handle_readable net now fd (map Data cs) g = Some g'" "readers g' fd = Some \<lparr>fr_buffer = []\<rparr>"
      "in_step fd (wire g) (of_int (lk_seq s' + 1)) (spsc_list (sequencer_input g) @ evs) [] g'"
    by blast
  from g'(3) obtain evs' c' where "carry_requests fd (of_int (lk_seq s' + 1)) [] evs'" "map_of (connections g') fd = Some c'"
    "expected_peer_seq (session c') = of_int (lk_seq s' + 1)" "spsc_list (sequencer_input g') @ evs' = spsc_list (sequencer_input g) @ evs"
    "wire g' = wire g"
    unfolding in_step_def by auto
  moreover from this have "evs' = []" by (cases evs') simp_all
  ultimately show ?thesis
    using g'(1,2) fs(3) by (auto simp: readers_def)
qed

definition demo_link :: gateway_link where
  "demo_link = link_init\<lparr>lk_connected := True, lk_seq := 1\<rparr>"

definition demo_posts :: "(string \<times> request_body) list" where
  "demo_posts =
    [(''/api/order'', Parsed (J_object [(''side'', J_str ''buy''), (''price'', J_int 100), (''quantity'', J_float (Finite (11 / 2)))])),
     (''/api/order'', Parsed (J_object [(''side'', J_str ''buy''), (''price'', J_str ''100''), (''quantity'', J_int 5)])),
     (''/api/cancel'', Parsed (J_object [(''client_order_id'', J_int 1)]))]"

lemma demo_posts:
  "\<exists>s'. post_all (\<lambda>k. 0) demo_posts demo_link =
     ([Reply_order 1, Reply_error 400 ''expected {side: buy|sell, price, quantity}'', Reply_ok], s')"
  by (simp add: demo_posts_def demo_link_def link_init_def do_POST_def post_order_def post_cancel_def payload_get_def Let_def SIDE_def
      submit_new_order_def next_client_order_id_def new_order_body_def NEW_ORDER_FMT_def submit_cancel_def CANCEL_ORDER_FMT_def
      link_send_frame_def link_frame_def MSG_TYPE_def HEADER_FMT_def broadcast_def)

definition logged_on_gateway :: gateway where
  "logged_on_gateway = demo_gateway\<lparr>connections := [(7, connection_init\<lparr>session := session_init\<lparr>status := LoggedOn, expected_peer_seq := 2\<rparr>\<rparr>)]\<rparr>"

theorem web_requests_reach_sequencer_witness:
  "\<exists>s' g' ev1 ev2. post_all (\<lambda>k. 0) demo_posts demo_link =
      ([Reply_order 1, Reply_error 400 ''expected {side: buy|sell, price, quantity}'', Reply_ok], s') \<and>
    handle_readable (\<lambda>k fd n. int n) 0 7 [Data (lk_wire s')] logged_on_gateway = Some g' \<and>
    spsc_list (sequencer_input g') = [ev1, ev2] \<and> uint (ev_quantity ev1) = 5 \<and> uint (ev_client_order_id ev2) = 1"
proof -
  obtain s' where post: "post_all (\<lambda>k. 0) demo_posts demo_link =
      ([Reply_order 1, Reply_error 400 ''expected {side: buy|sell, price, quantity}'', Reply_ok], s')"
    using demo_posts by blast
  have q: "spsc_inv (spsc_init 4 quiet_event)" "spsc_list (spsc_init 4 quiet_event) = []"
    using spsc_init_inv [OF pow2_4, of quiet_event] by simp_all
  have ready: "queue_ready (length demo_posts) logged_on_gateway"
    using q by (simp add: queue_ready_def logged_on_gateway_def demo_posts_def) (simp add: spsc_init_def)
  have link: "lk_connected demo_link" "lk_seq demo_link = 1" "lk_wire demo_link = []"
    by (simp_all add: demo_link_def link_init_def)
  let ?c = "connection_init\<lparr>session := session_init\<lparr>status := LoggedOn, expected_peer_seq := 2\<rparr>\<rparr>"
  have "map_of (connections logged_on_gateway) 7 = Some ?c" "fr_buffer (reader ?c) = []" "expected_peer_seq (session ?c) = 2"
    by (simp_all add: logged_on_gateway_def connection_init_def)
  from web_requests_reach_sequencer [OF link(1) _ _ post _ _ this(1,2) _ ready, of "[lk_wire s']" "\<lambda>k fd n. int n" 0] this(3) link
  obtain g' evs where g': "handle_readable (\<lambda>k fd n. int n) 0 7 [Data (lk_wire s')] logged_on_gateway = Some g'"
    "spsc_list (sequencer_input g') = evs" "served 7 demo_posts [Reply_order 1, Reply_error 400 ''expected {side: buy|sell, price, quantity}'', Reply_ok] evs"
    using q(2) by (auto simp: demo_posts_def logged_on_gateway_def)
  have "\<lfloor>11 / 2 :: rat\<rfloor> = 5"
    by (simp add: floor_eq_iff)
  with g'(3) obtain ev1 ev2 where "evs = [ev1, ev2]" "uint (ev_quantity ev1) = 5" "uint (ev_client_order_id ev2) = 1"
    by (auto simp: served_def demo_posts_def payload_get_def list_all2_Cons1)
  with post g'(1,2) show ?thesis by blast
qed

section \<open>What the handlers let through\<close>

text \<open>
  A thread that sends without interruption does what \<^verbatim>\<open>_send_frame\<close> does. Two handler threads
  that increment before either of them packs send two frames with the same number, and the number before
  it is never used.
\<close>

lemma sender_alone:
  assumes "lk_connected s" and "link_frame ty (lk_seq s + 1) body = Some frame"
  shows "run_senders [(ty, body)] [0, 0, 0] [At_check] s = ([Returned True], snd (link_send_frame None ty body s))"
  using assms by (simp add: sender_step_def link_send_frame_def Let_def)

lemma concurrent_senders_same_number:
  assumes "lk_connected s" and "0 \<le> lk_seq s" and "lk_seq s + 2 < 2 ^ 32"
    and "map_of MSG_TYPE n1 = Some (uint (byte_of_msg_type t1))" and "map_of MSG_TYPE n2 = Some (uint (byte_of_msg_type t2))"
    and "length b1 < 2 ^ 16" and "length b2 < 2 ^ 16"
  shows "lk_wire (snd (run_senders [(n1, b1), (n2, b2)] [0, 1, 0, 1, 0, 1] [At_check, At_check] s)) =
    lk_wire s @ frame_bytes t1 (of_int (lk_seq s + 2)) b1 @ frame_bytes t2 (of_int (lk_seq s + 2)) b2"
  using assms link_frame_bytes [OF assms(4,6), of "lk_seq s + 2"] link_frame_bytes [OF assms(5,7), of "lk_seq s + 2"]
  by (simp add: sender_step_def ac_simps)

text \<open>
  A number that does not fit the message is not answered with status 400: the handler raises, after the
  order id was taken.
\<close>

lemma negative_price_raises:
  assumes "lk_connected s" and "0 \<le> order_counter s" and "order_counter s + 1 < 2 ^ 64" and "p < 0"
  shows "do_POST clk res ''/api/order'' (Parsed (J_object [(''side'', J_str ''buy''), (''price'', J_int p), (''quantity'', J_int q)])) s =
    (Raised Struct_error, s\<lparr>order_counter := order_counter s + 1\<rparr>)"
  using assms by (simp add: do_POST_def post_order_def payload_get_def Let_def SIDE_def submit_new_order_def next_client_order_id_def
      new_order_body_def NEW_ORDER_FMT_def split: option.split)

text \<open>An order whose frame the socket refuses is answered positively and stays in the blotter as submitted.\<close>

lemma unsent_order_confirmed:
  assumes "lk_connected s" and "0 \<le> lk_seq s" and "lk_seq s + 1 < 2 ^ 32" and "0 \<le> order_counter s" and "order_counter s + 1 < 2 ^ 64"
  shows "\<exists>s'. do_POST clk (Some 0) ''/api/order'' (Parsed (J_object [(''side'', J_str ''buy''), (''price'', J_int 1), (''quantity'', J_int 1)])) s =
      (Reply_order (order_counter s + 1), s') \<and> lk_wire s' = lk_wire s \<and>
    map_option bo_status (map_of (lk_orders s') (order_counter s + 1)) = Some ''Submitted''"
  using assms by (simp add: do_POST_def post_order_def payload_get_def Let_def SIDE_def submit_new_order_def next_client_order_id_def
      new_order_body_def NEW_ORDER_FMT_def link_send_frame_def link_frame_def MSG_TYPE_def HEADER_FMT_def submitted_order_def update_conv')

section \<open>From the engine to the blotter\<close>

lemma uint_pack_field: "v = uint (w :: u8) \<Longrightarrow> pack_field (Uint (Suc 0)) (Vint v) = Some [w]"
  "v = uint (w2 :: u16) \<Longrightarrow> pack_field (Uint 2) (Vint v) = Some (word_bytes w2)"
  "v = uint (w4 :: u32) \<Longrightarrow> pack_field (Uint 4) (Vint v) = Some (word_bytes w4)"
  "v = uint (w8 :: u64) \<Longrightarrow> pack_field (Uint 8) (Vint v) = Some (word_bytes w8)"
  using pack_number(1) [of "uint w"] pack_number(2) [of "uint w2"] pack_number(3) [of "uint w4"] pack_number(4) [of "uint w8"]
    uint_lt2p [of w] uint_lt2p [of w2] uint_lt2p [of w4] uint_lt2p [of w8]
  by (simp_all del: pack_field.simps)

lemma unpack_header:
  "unpack HEADER_FMT (encode_MsgHeader h) =
     Some [Vint (uint (body_length h)), Vint (uint (byte_of_msg_type (msg_type h))), Vint (uint (hdr_seq_num h))]"
  by (rule unpack_pack) (simp_all add: HEADER_FMT_def encode_MsgHeader_def uint_pack_field del: pack_field.simps)

lemma unpack_report:
  "unpack EXEC_REPORT_FMT (encode_ExecutionReportMsg m) =
     Some [Vint (uint (er_client_order_id m)), Vint (uint (er_exchange_order_id m)), Vint (uint (byte_of_exec_status (er_status m))),
       Vint (uint (er_fill_price m)), Vint (uint (er_fill_quantity m)), Vint (uint (er_leaves_quantity m))]"
  by (rule unpack_pack) (simp_all add: EXEC_REPORT_FMT_def encode_ExecutionReportMsg_def uint_pack_field del: pack_field.simps)

lemma header_len: "HEADER_LEN = sizeof_MsgHeader"
  by (simp add: HEADER_LEN_def HEADER_FMT_def sizeof_MsgHeader_def)

lemma link_drain_frame:
  assumes "length body < 2 ^ 16"
  shows "link_drain clk (frame_bytes ty q body @ left) s =
    (case link_handle clk (uint (byte_of_msg_type ty)) body s of (Inl e, s') \<Rightarrow> (Inl e, s') | (Inr u, s') \<Rightarrow> link_drain clk left s')"
proof -
  let ?h = "\<lparr>body_length = of_nat (length body), msg_type = ty, hdr_seq_num = q\<rparr>" and ?buf = "frame_bytes ty q body @ left"
  have "take HEADER_LEN ?buf = encode_MsgHeader ?h"
    by (simp add: header_len frame_bytes_def)
  moreover have "nat (uint (of_nat (length body) :: u16)) = length body"
    using assms by (simp add: unat_of_nat)
  ultimately have peek: "peek_header ?buf = (length body, uint (byte_of_msg_type ty))"
    by (simp add: peek_header_def unpack_header)
  have "take (length body) (drop HEADER_LEN ?buf) = body" "drop (HEADER_LEN + length body) ?buf = left"
    by (simp_all add: header_len frame_bytes_def)
  moreover have "\<not> length ?buf < HEADER_LEN" "\<not> length ?buf < HEADER_LEN + length body"
    by (simp_all add: header_len frame_bytes_def)
  ultimately show ?thesis
    by (subst link_drain.simps) (simp only: peek Let_def if_False prod.case)
qed

text \<open>What an acknowledgement does to the link once its report has arrived.\<close>

definition on_ack :: "(nat \<Rightarrow> rat) \<Rightarrow> OutboundAck \<Rightarrow> gateway_link \<Rightarrow> gateway_link" where
  "on_ack clk a = on_exec_report clk (uint (ack_client_order_id a)) (uint (ack_exchange_order_id a))
     (uint (byte_of_exec_status (ack_status a))) (uint (ack_fill_price a)) (uint (ack_fill_quantity a)) (uint (ack_leaves_quantity a))"

lemma link_handle_report: "link_handle clk 20 (ack_report a) s = (Inr (), on_ack clk a s)"
  by (simp add: link_handle_def MSG_TYPE_def ack_report_def unpack_report on_ack_def)

lemma link_drain_reports: "link_drain clk (report_frames q as @ left) s = link_drain clk left (fold (on_ack clk) as s)"
proof (induction as arbitrary: q s)
  case (Cons a as)
  have "length (ack_report a) < 2 ^ 16"
    by (simp add: ack_report_def)
  from link_drain_frame [OF this, of clk Mt_ExecutionReport q] Cons show ?case
    by (simp add: link_handle_report)
qed simp

text \<open>As for the gateway's reader, it does not matter how the stream is cut.\<close>

lemma peek_header_more: "HEADER_LEN \<le> length buf \<Longrightarrow> peek_header (buf @ ys) = peek_header buf"
  by (simp add: peek_header_def)

lemma link_drain_more:
  "link_drain clk (buf @ ys) s =
     (case link_drain clk buf s of (Inl e, s') \<Rightarrow> (Inl e, s') | (Inr buf', s') \<Rightarrow> link_drain clk (buf' @ ys) s')"
proof (induction clk buf s rule: link_drain.induct)
  case (1 clk buf s)
  obtain n ty where p: "peek_header buf = (n, ty)" by fastforce
  show ?case
  proof (cases "length buf < HEADER_LEN + n")
    case True
    then have "link_drain clk buf s = (Inr buf, s)"
      by (subst link_drain.simps) (simp add: p)
    then show ?thesis by simp
  next
    case False
    then have buf: "\<not> length buf < HEADER_LEN" "\<not> length (buf @ ys) < HEADER_LEN" "\<not> length (buf @ ys) < HEADER_LEN + n"
      "take n (drop HEADER_LEN (buf @ ys)) = take n (drop HEADER_LEN buf)" "drop (HEADER_LEN + n) (buf @ ys) = drop (HEADER_LEN + n) buf @ ys"
      "peek_header (buf @ ys) = (n, ty)"
      by (simp_all add: peek_header_more p)
    have eqs: "link_drain clk buf s = (case link_handle clk ty (take n (drop HEADER_LEN buf)) s of
        (Inl e, s') \<Rightarrow> (Inl e, s') | (Inr u, s') \<Rightarrow> link_drain clk (drop (HEADER_LEN + n) buf) s')"
      "link_drain clk (buf @ ys) s = (case link_handle clk ty (take n (drop HEADER_LEN buf)) s of
        (Inl e, s') \<Rightarrow> (Inl e, s') | (Inr u, s') \<Rightarrow> link_drain clk (drop (HEADER_LEN + n) buf @ ys) s')"
      by (subst link_drain.simps, simp only: buf p False Let_def if_False prod.case)+
    obtain r s1 where handle: "link_handle clk ty (take n (drop HEADER_LEN buf)) s = (r, s1)" by fastforce
    show ?thesis
    proof (cases r)
      case (Inr u)
      then show ?thesis
        using 1 [OF buf(1) p [symmetric] refl False handle [symmetric] Inr] by (simp add: eqs handle)
    qed (simp add: eqs handle)
  qed
qed

text \<open>What the calls of \<^verbatim>\<open>recv\<close> deliver while the connection lasts: data in non-empty pieces, and timeouts.\<close>

fun received :: "link_recv list \<Rightarrow> u8 list option" where
  "received [] = Some []"
| "received (Timed_out # rs) = received rs"
| "received (Recv_failed # rs) = None"
| "received (Chunk bs # rs) = (if bs = [] then None else map_option (append bs) (received rs))"

definition incomplete :: "u8 list \<Rightarrow> bool" where
  "incomplete buf \<longleftrightarrow> length buf < HEADER_LEN \<or> length buf < HEADER_LEN + fst (peek_header buf)"

lemma link_drain_incomplete: "incomplete buf \<Longrightarrow> link_drain clk buf s = (Inr buf, s)"
  by (subst link_drain.simps) (auto simp: incomplete_def split: prod.split)

lemma link_drain_rest: "link_drain clk buf s = (Inr buf', s') \<Longrightarrow> incomplete buf'"
proof (induction clk buf s rule: link_drain.induct)
  case (1 clk buf s)
  then show ?case
    by (subst (asm) (2) link_drain.simps)
      (auto simp: incomplete_def Let_def split: if_splits prod.splits sum.splits)
qed

lemma link_pump_received:
  assumes "received rs = Some bs" and "incomplete buf"
  shows "link_pump clk rs buf s = link_drain clk (buf @ bs) s"
  using assms
proof (induction rs arbitrary: buf s bs rule: received.induct)
  case (4 ch rs)
  obtain bs1 where ch: "ch \<noteq> []" "received rs = Some bs1" "bs = ch @ bs1"
    using "4.prems"(1) by (auto split: if_splits)
  obtain r s1 where r: "link_drain clk (buf @ ch) s = (r, s1)" by fastforce
  show ?case
  proof (cases r)
    case (Inr buf1)
    have "link_pump clk rs buf1 s1 = link_drain clk (buf1 @ bs1) s1"
      using "4.IH" [OF ch(1,2)] link_drain_rest r Inr by blast
    then show ?thesis
      using ch r Inr link_drain_more [of clk "buf @ ch" bs1 s] by simp
  qed (use ch r link_drain_more [of clk "buf @ ch" bs1 s] in simp)
qed (simp_all add: link_drain_incomplete)

text \<open>An order of the blotter shows an acknowledgement.\<close>

fun status_text :: "ExecStatus \<Rightarrow> string" where
  "status_text Accepted = ''Accepted''"
| "status_text Rejected = ''Rejected''"
| "status_text Filled = ''Filled''"
| "status_text PartialFill = ''PartialFill''"
| "status_text Canceled = ''Canceled''"

lemma status_name_text [simp]: "status_name (uint (byte_of_exec_status st)) = status_text st"
  by (cases st) (simp_all add: status_name_def EXEC_STATUS_def)

definition shows_ack :: "blotter_order \<Rightarrow> OutboundAck \<Rightarrow> bool" where
  "shows_ack ord a \<longleftrightarrow> bo_client_order_id ord = uint (ack_client_order_id a) \<and> bo_exchange_order_id ord = uint (ack_exchange_order_id a) \<and>
     bo_status ord = status_text (ack_status a) \<and> bo_fill_price ord = uint (ack_fill_price a) \<and>
     bo_fill_quantity ord = uint (ack_fill_quantity a) \<and> bo_leaves_quantity ord = uint (ack_leaves_quantity a)"

fun latest_ack :: "int \<Rightarrow> OutboundAck list \<Rightarrow> OutboundAck option" where
  "latest_ack i [] = None"
| "latest_ack i (a # as) =
     (case latest_ack i as of
        Some b \<Rightarrow> Some b
      | None \<Rightarrow> if uint (ack_client_order_id a) = i then Some a else None)"

definition known_order :: "gateway_link \<Rightarrow> int \<Rightarrow> blotter_order" where
  "known_order s i = (case map_of (lk_orders s) i of None \<Rightarrow> unknown_order i | Some ord \<Rightarrow> ord)"

definition same_request :: "blotter_order \<Rightarrow> blotter_order \<Rightarrow> bool" where
  "same_request x y \<longleftrightarrow> bo_client_order_id x = bo_client_order_id y \<and> bo_side x = bo_side y \<and>
     bo_price x = bo_price y \<and> bo_quantity x = bo_quantity y"

text \<open>Every entry is filed under its own number.\<close>

definition blotter_inv :: "gateway_link \<Rightarrow> bool" where
  "blotter_inv s \<longleftrightarrow> (\<forall>i ord. map_of (lk_orders s) i = Some ord \<longrightarrow> bo_client_order_id ord = i)"

definition count_acks :: "ExecStatus set \<Rightarrow> OutboundAck list \<Rightarrow> nat" where
  "count_acks S as = length (filter (\<lambda>a. ack_status a \<in> S) as)"

definition blotter_follows :: "OutboundAck list \<Rightarrow> gateway_link \<Rightarrow> gateway_link \<Rightarrow> bool" where
  "blotter_follows as s s' \<longleftrightarrow>
     (\<forall>i. case latest_ack i as of
            None \<Rightarrow> map_of (lk_orders s') i = map_of (lk_orders s) i
          | Some a \<Rightarrow> \<exists>ord. map_of (lk_orders s') i = Some ord \<and> shows_ack ord a \<and> same_request ord (known_order s i)) \<and>
     st_fills (lk_stats s') = st_fills (lk_stats s) + count_acks {Filled, PartialFill} as \<and>
     st_rejects (lk_stats s') = st_rejects (lk_stats s) + count_acks {Rejected} as \<and>
     st_cancels (lk_stats s') = st_cancels (lk_stats s) + count_acks {Canceled} as \<and>
     list_all2 (\<lambda>(q, msgs) (q', msgs'). q' = q \<and> (\<exists>ors. msgs' = msgs @ map Msg_update ors \<and> list_all2 shows_ack ors as))
       (subscribers s) (subscribers s') \<and>
     lk_wire s' = lk_wire s \<and> lk_connected s' = lk_connected s \<and> blotter_inv s'"

definition acked_order :: "(nat \<Rightarrow> rat) \<Rightarrow> OutboundAck \<Rightarrow> gateway_link \<Rightarrow> blotter_order" where
  "acked_order clk a s = (known_order s (uint (ack_client_order_id a)))\<lparr>bo_exchange_order_id := uint (ack_exchange_order_id a),
    bo_status := status_text (ack_status a), bo_fill_price := uint (ack_fill_price a), bo_fill_quantity := uint (ack_fill_quantity a),
    bo_leaves_quantity := uint (ack_leaves_quantity a), bo_ts := clk (clock_reads s)\<rparr>"

lemma on_ack_simps:
  "map_of (lk_orders (on_ack clk a s)) = (map_of (lk_orders s))(uint (ack_client_order_id a) \<mapsto> acked_order clk a s)"
  "subscribers (on_ack clk a s) = map (\<lambda>(q, msgs). (q, msgs @ [Msg_update (acked_order clk a s)])) (subscribers s)"
  "lk_stats (on_ack clk a s) = count_status (status_text (ack_status a)) (lk_stats s)"
  "lk_wire (on_ack clk a s) = lk_wire s" "lk_connected (on_ack clk a s) = lk_connected s"
  by (simp_all add: on_ack_def on_exec_report_def Let_def update_conv' acked_order_def known_order_def broadcast_def split: option.split)

lemma acked_order_shows:
  assumes "blotter_inv s"
  shows "shows_ack (acked_order clk a s) a" and "same_request (acked_order clk a s) (known_order s (uint (ack_client_order_id a)))"
proof -
  have "bo_client_order_id (known_order s i) = i" for i
    using assms by (auto simp: blotter_inv_def known_order_def unknown_order_def split: option.split)
  then show "shows_ack (acked_order clk a s) a" "same_request (acked_order clk a s) (known_order s (uint (ack_client_order_id a)))"
    by (simp_all add: acked_order_def shows_ack_def same_request_def)
qed

lemma blotter_inv_on_ack: "blotter_inv s \<Longrightarrow> blotter_inv (on_ack clk a s)"
  using acked_order_shows(1) [of s clk a] by (simp add: blotter_inv_def on_ack_simps shows_ack_def)

lemma count_status_text:
  "st_fills (count_status (status_text st) x) = st_fills x + of_bool (st \<in> {Filled, PartialFill})"
  "st_rejects (count_status (status_text st) x) = st_rejects x + of_bool (st \<in> {Rejected})"
  "st_cancels (count_status (status_text st) x) = st_cancels x + of_bool (st \<in> {Canceled})"
  by (cases st; simp add: count_status_def)+

lemma count_acks_Cons: "count_acks S (a # as) = of_bool (ack_status a \<in> S) + count_acks S as"
  by (simp add: count_acks_def)

lemma acks_followed: "blotter_inv s \<Longrightarrow> blotter_follows as s (fold (on_ack clk) as s)"
proof (induction as arbitrary: s)
  case Nil
  then show ?case
    by (simp add: blotter_follows_def count_acks_def list.rel_refl split_beta)
next
  case (Cons a as)
  let ?s = "on_ack clk a s" and ?i = "uint (ack_client_order_id a)"
  have IH: "blotter_follows as ?s (fold (on_ack clk) as ?s)"
    by (rule Cons.IH [OF blotter_inv_on_ack [OF Cons.prems]])
  let ?s' = "fold (on_ack clk) as ?s"
  note sa = acked_order_shows [OF Cons.prems, of clk a]
  have known: "same_request (known_order ?s i) (known_order s i)" for i
    using sa(2) by (auto simp: known_order_def [of ?s] on_ack_simps same_request_def) (auto simp: known_order_def)
  have orders: "case latest_ack i (a # as) of
      None \<Rightarrow> map_of (lk_orders ?s') i = map_of (lk_orders s) i
    | Some b \<Rightarrow> \<exists>ord. map_of (lk_orders ?s') i = Some ord \<and> shows_ack ord b \<and> same_request ord (known_order s i)" for i
  proof (cases "latest_ack i as")
    case None
    then have "map_of (lk_orders ?s') i = map_of (lk_orders ?s) i"
      using IH by (auto simp: blotter_follows_def elim: allE [of _ i])
    with None sa show ?thesis by (auto simp: on_ack_simps)
  next
    case (Some b)
    then obtain ord where "map_of (lk_orders ?s') i = Some ord" "shows_ack ord b" "same_request ord (known_order ?s i)"
      using IH unfolding blotter_follows_def by (auto elim!: allE [of _ i])
    with Some known [of i] show ?thesis by (auto simp: same_request_def)
  qed
  have "list_all2 (\<lambda>(q, msgs) (q', msgs'). q' = q \<and> (\<exists>ords. msgs' = msgs @ map Msg_update ords \<and> list_all2 shows_ack ords (a # as)))
      (subscribers s) (subscribers ?s')"
    using IH sa(1) unfolding blotter_follows_def
    by (auto simp: on_ack_simps list_all2_map1 split_beta elim!: list_all2_mono intro: exI [of _ "acked_order clk a s # ords" for ords])
  with orders IH show ?case
    by (simp add: blotter_follows_def on_ack_simps count_status_text count_acks_Cons del: latest_ack.simps)
qed

text \<open>
  (C26) What the engine acknowledges is what the browser is shown. When the gateway drains its queue
  of acknowledgements and the bytes for the bridge's connection arrive there in any pieces, with
  timeouts in between, the bridge's reader raises nothing and keeps no bytes back. Each order of
  the blotter then shows the last acknowledgement for its number (and is untouched when there was
  none), still with the side, price and quantity it was submitted with; the counters of fills,
  rejects and cancels have grown by exactly the acknowledgements of each kind; every subscriber was sent one update per
  acknowledgement, in order; and the bridge answers nothing.
\<close>
theorem acks_reach_blotter:
  assumes "delivers net" and "spsc_inv (ack_queue g)" and "map_of (connections g) fd = Some c" and "blotter_inv s"
    and "received rs = Some bs" and "drain_acks net now g = Some g'" and "sent_to fd (wire g') = sent_to fd (wire g) @ bs"
  shows "\<exists>s'. link_pump clk rs [] s = (Inr [], s') \<and> blotter_follows (acks_for fd (spsc_list (ack_queue g))) s s'"
proof -
  let ?as = "acks_for fd (spsc_list (ack_queue g))"
  have "bs = report_frames (outbound_seq (session c)) ?as"
    using drain_acks_reports [OF assms(1,2) refl, of now] assms(3,6,7) by (simp add: reports_to_def)
  moreover have "incomplete []"
    by (simp add: incomplete_def header_len sizeof_MsgHeader_def)
  ultimately have "link_pump clk rs [] s = (Inr [], fold (on_ack clk) ?as s)"
    using link_pump_received [OF assms(5)] link_drain_reports [of clk _ ?as "[]"] by (simp add: link_drain_incomplete)
  then show ?thesis
    using acks_followed [OF assms(4)] by simp
qed

definition demo_ack_filled :: OutboundAck where
  "demo_ack_filled = \<lparr>ack_session_id = 7, ack_client_order_id = 1, ack_exchange_order_id = 9, ack_status = Filled,
     ack_fill_price = 100, ack_fill_quantity = 5, ack_leaves_quantity = 0\<rparr>"

theorem acks_reach_blotter_witness:
  "\<exists>q g' s' ord. spsc_push (ack_queue logged_on_gateway) demo_ack_filled = Some q \<and>
    drain_acks (\<lambda>k fd n. int n) 0 (logged_on_gateway\<lparr>ack_queue := q\<rparr>) = Some g' \<and>
    link_pump (\<lambda>k. 0) [Timed_out, Chunk (sent_to 7 (wire g'))] [] demo_link = (Inr [], s') \<and>
    map_of (lk_orders s') 1 = Some ord \<and> bo_status ord = ''Filled'' \<and> bo_exchange_order_id ord = 9 \<and> st_fills (lk_stats s') = 1"
proof -
  have q0: "spsc_inv (ack_queue logged_on_gateway)" "spsc_list (ack_queue logged_on_gateway) = []"
    using spsc_init_inv [OF pow2_4, of quiet_ack] by (simp_all add: logged_on_gateway_def)
  moreover have "length (spsc_list (ack_queue logged_on_gateway)) < length (buffer (ack_queue logged_on_gateway)) - 1"
    using q0(2) by (simp add: logged_on_gateway_def) (simp add: spsc_init_def)
  ultimately obtain q where q: "spsc_push (ack_queue logged_on_gateway) demo_ack_filled = Some q" "spsc_inv q" "spsc_list q = [demo_ack_filled]"
    using sq.push_room [of "ack_queue logged_on_gateway" demo_ack_filled] by (metis append_Nil)
  let ?g = "logged_on_gateway\<lparr>ack_queue := q\<rparr>"
  have net: "delivers (\<lambda>k fd n. int n)" and inv: "spsc_inv (ack_queue ?g)" and none: "sent_to 7 (wire ?g) = []"
    using q(2) by (simp_all add: delivers_def logged_on_gateway_def demo_gateway_def accept_new_connection_def sent_to_def)
  obtain c where c: "map_of (connections ?g) 7 = Some c"
    by (simp add: logged_on_gateway_def)
  obtain g' where g': "drain_acks (\<lambda>k fd n. int n) 0 ?g = Some g'" "sent_to 7 (wire g') = sent_to 7 (wire ?g) @ reports_to ?g 7 [demo_ack_filled]"
    using drain_acks_reports [OF net inv refl, of 0] q(3) by auto
  have acks: "acks_for 7 (spsc_list (ack_queue ?g)) = [demo_ack_filled]"
    using q(3) by (simp add: acks_for_def demo_ack_filled_def)
  then have "sent_to 7 (wire g') \<noteq> []"
    using g'(2) c by (simp add: reports_to_def q(3) frame_bytes_def encode_MsgHeader_def)
  then have rec: "received [Timed_out, Chunk (sent_to 7 (wire g'))] = Some (sent_to 7 (wire g'))"
    by simp
  have b: "blotter_inv demo_link"
    by (simp add: blotter_inv_def demo_link_def link_init_def)
  from acks_reach_blotter [OF net inv c b rec g'(1), of "\<lambda>k. 0", unfolded acks] none obtain s' where
    s': "link_pump (\<lambda>k. 0) [Timed_out, Chunk (sent_to 7 (wire g'))] [] demo_link = (Inr [], s')"
      "blotter_follows [demo_ack_filled] demo_link s'"
    by auto
  have l: "latest_ack 1 [demo_ack_filled] = Some demo_ack_filled"
    by (simp add: demo_ack_filled_def)
  then obtain ord where "map_of (lk_orders s') 1 = Some ord" "shows_ack ord demo_ack_filled"
    using s'(2) unfolding blotter_follows_def by (auto elim!: allE [of _ 1])
  moreover have "st_fills (lk_stats s') = 1"
    using s'(2) by (simp add: blotter_follows_def count_acks_def demo_ack_filled_def demo_link_def link_init_def)
  ultimately show ?thesis
    using q(1) g'(1) s'(1) by (auto simp: shows_ack_def demo_ack_filled_def)
qed

section \<open>An idle bridge\<close>

text \<open>Receiving never makes the bridge send: it has no answer to heartbeats and test requests.\<close>

lemma link_handle_wire: "lk_wire (snd (link_handle clk ty body s)) = lk_wire s"
  by (auto simp: link_handle_def on_exec_report_def Let_def split: option.splits list.splits struct_value.splits)

lemma link_drain_wire: "lk_wire (snd (link_drain clk buf s)) = lk_wire s"
proof (induction clk buf s rule: link_drain.induct)
  case (1 clk buf s)
  obtain n ty where p: "peek_header buf = (n, ty)" by fastforce
  obtain r s1 where h: "link_handle clk ty (take n (drop HEADER_LEN buf)) s = (r, s1)" by fastforce
  have "lk_wire s1 = lk_wire s"
    using link_handle_wire [of clk ty "take n (drop HEADER_LEN buf)" s] by (simp add: h)
  with 1 p h show ?case
    by (subst link_drain.simps) (auto simp: Let_def split: sum.split)
qed

lemma link_pump_wire: "lk_wire (snd (link_pump clk rs buf s)) = lk_wire s"
proof (induction clk rs buf s rule: link_pump.induct)
  case (4 clk bs rs buf s)
  then show ?case
    using link_drain_wire [of clk "buf @ bs" s] by (auto split: prod.split sum.split)
qed simp_all

lemma logon_encodes:
  assumes "0 \<le> lk_client_id s" and "lk_client_id s < 2 ^ 64"
  shows "logon_body s = Some (encode_LogonMsg \<lparr>client_id = of_int (lk_client_id s), heartbeat_interval_ms = 5000, starting_seq_num = 0\<rparr>)"
  using pack_number(4) [OF assms] pack_number(3) [of 5000] pack_number(3) [of 0]
  by (simp add: logon_body_def LOGON_FMT_def encode_LogonMsg_def del: pack_field.simps)

lemma logon_sent:
  assumes "0 \<le> lk_client_id s" and "lk_client_id s < 2 ^ 64"
  shows "connect_and_pump clk True None [] s = (Inr [], s\<lparr>lk_seq := 1, lk_wire := frame_bytes Mt_Logon 1
    (encode_LogonMsg \<lparr>client_id = of_int (lk_client_id s), heartbeat_interval_ms = 5000, starting_seq_num = 0\<rparr>)\<rparr>)"
proof -
  let ?body = "encode_LogonMsg \<lparr>client_id = of_int (lk_client_id s), heartbeat_interval_ms = 5000, starting_seq_num = 0\<rparr>"
  have "link_frame ''Logon'' 1 ?body = Some (frame_bytes Mt_Logon 1 ?body)"
    using request_frames(3) [of ?body 1] by (simp add: MSG_TYPE_def sizeof_LogonMsg_def)
  then show ?thesis
    using logon_encodes [of "s\<lparr>lk_seq := 0, lk_wire := []\<rparr>"] assms by (simp add: connect_and_pump_def link_raw_send_def Let_def)
qed

lemma umap_ok_handlers:
  "umap_ok (connections g) \<Longrightarrow> umap_ok (connections (set_reader fd r g))"
  "umap_ok (connections g) \<Longrightarrow> umap_ok (connections (set_session fd s g))"
  "umap_ok (connections g) \<Longrightarrow> umap_ok (connections (send_on net now fd ty body g))"
  by (simp_all add: set_reader_def set_session_def send_on_def split: option.split prod.split)

lemma logon_accepted:
  assumes c: "map_of (connections g) fd = Some c" "reader c = \<lparr>fr_buffer = []\<rparr>" "status (session c) = AwaitingLogon"
    and ok: "umap_ok (connections g)"
  shows "\<exists>g' c'. handle_readable net now fd [Data (frame_bytes Mt_Logon q (encode_LogonMsg m))] g = Some g' \<and>
    map_of (connections g') fd = Some c' \<and> umap_ok (connections g') \<and> reader c' = \<lparr>fr_buffer = []\<rparr> \<and>
    status (session c') = LoggedOn \<and> heartbeat_interval (session c') = uint (heartbeat_interval_ms m) * 1000000 \<and>
    last_peer_activity (session c') = now \<and> expected_peer_seq (session c') = q + 1"
proof -
  let ?f = "frame_bytes Mt_Logon q (encode_LogonMsg m)"
  have f: "frame_ok ?f" "drop sizeof_MsgHeader ?f = encode_LogonMsg m"
    "decode_MsgHeader ?f = \<lparr>body_length = of_nat sizeof_LogonMsg, msg_type = Mt_Logon, hdr_seq_num = q\<rparr>"
    using frame_bytes_ok [of "encode_LogonMsg m" Mt_Logon q] by (simp_all add: sizeof_LogonMsg_def msg_type_of_byte_def)
  define s where "s = snd (handle_logon now (client_id m) (heartbeat_interval_ms m) q (session c))"
  have logon: "handle_logon now (client_id m) (heartbeat_interval_ms m) q (session c) = (True, s)"
    using c(3) by (simp add: s_def handle_logon_def)
  define g1 where "g1 = set_reader fd \<lparr>fr_buffer = []\<rparr> (set_reader fd \<lparr>fr_buffer = ?f\<rparr> g)"
  define g2 where "g2 = send_logon_ack net now fd (set_session fd s g1)"
  have c1: "map_of (connections g1) fd = Some c"
    using c(1,2) by (simp add: g1_def set_reader_lookup)
  have d: "dispatch net now fd ?f g1 = Some g2"
    using f(1) c1 logon decode_encode_logon [of m "[]"]
    by (simp add: dispatch_def dispatch_logon_def f Let_def frame_ok_def g2_def) (simp add: sizeof_LogonMsg_def)
  define c2 where "c2 = c\<lparr>session := mark_outbound_activity now (snd (next_outbound_seq s))\<rparr>"
  have c2: "map_of (connections g2) fd = Some c2"
    using c1 by (simp add: g2_def c2_def send_logon_ack_def send_on_lookup set_session_lookup)
  have "frames_loop net now fd (set_reader fd \<lparr>fr_buffer = ?f\<rparr> g) = frames_loop net now fd g2"
    using c(1) next_frame_ok [OF f(1), of "[]"] d
    by (subst frames_loop.simps) (simp add: set_reader_lookup g1_def)
  also have "\<dots> = Some g2"
    using c2 c(2) by (subst frames_loop.simps) (simp add: c2_def next_frame_def sizeof_MsgHeader_def)
  finally have "handle_readable net now fd [Data ?f] g = Some g2"
    using c by (simp add: handle_readable_def feed_def)
  moreover have "umap_ok (connections g2)"
    unfolding g2_def send_logon_ack_def g1_def by (intro umap_ok_handlers ok)
  ultimately show ?thesis
    using c2 c(2) logon c(3)
    by (auto simp: c2_def handle_logon_def mark_outbound_activity_def next_outbound_seq_def)
qed

text \<open>
  (C27) An idle bridge loses its session. The bridge logs on with a heartbeat interval of five
  seconds but sends frames only for requests: whatever it receives, heartbeats included, it writes
  nothing. So when no request is posted, the gateway, which accepted the logon, removes the
  connection at its first heartbeat check more than ten seconds later.
\<close>
theorem idle_bridge_disconnected:
  assumes "connect_and_pump clk True None [] s = (Inr [], s1)" and "0 \<le> lk_client_id s" and "lk_client_id s < 2 ^ 64"
    and c: "map_of (connections g) fd = Some c" "reader c = \<lparr>fr_buffer = []\<rparr>" "status (session c) = AwaitingLogon"
    and ok: "umap_ok (connections g)" and late: "t + 10 * 10 ^ 9 < now"
  shows "\<exists>g1 c1. handle_readable net t fd [Data (lk_wire s1)] g = Some g1 \<and>
    map_of (connections g1) fd = Some c1 \<and> status (session c1) = LoggedOn \<and>
    lk_wire (snd (link_pump clk rs buf s1)) = lk_wire s1 \<and>
    map_of (connections (check_heartbeats net now g1)) fd = None"
proof -
  let ?m = "\<lparr>client_id = of_int (lk_client_id s), heartbeat_interval_ms = 5000, starting_seq_num = 0\<rparr>"
  have s1: "lk_wire s1 = frame_bytes Mt_Logon 1 (encode_LogonMsg ?m)"
    using logon_sent [OF assms(2,3), of clk] assms(1) by auto
  from logon_accepted [OF c ok, of net t 1 ?m] obtain g1 c1 where
    g1: "handle_readable net t fd [Data (lk_wire s1)] g = Some g1" "map_of (connections g1) fd = Some c1" "umap_ok (connections g1)"
      "status (session c1) = LoggedOn" "heartbeat_interval (session c1) = 5000 * 1000000" "last_peer_activity (session c1) = t"
    unfolding s1 by auto
  have "map_of (connections (check_heartbeats net now g1)) fd = None"
    unfolding check_heartbeats_lookup [OF g1(3)] using g1(2,4-6) late by (simp add: after_heartbeat_def is_peer_dead_def)
  with g1(1,2,4) show ?thesis
    by (auto simp: link_pump_wire)
qed

theorem idle_bridge_disconnected_witness:
  "\<exists>s1 g1. connect_and_pump (\<lambda>k. 0) True None [] link_init = (Inr [], s1) \<and>
    handle_readable (\<lambda>k fd n. int n) 0 7 [Data (lk_wire s1)] demo_gateway = Some g1 \<and>
    map_of (connections (check_heartbeats (\<lambda>k fd n. int n) 10000000001 g1)) 7 = None"
proof -
  have id: "0 \<le> lk_client_id link_init" "lk_client_id link_init < 2 ^ 64"
    by (simp_all add: link_init_def)
  obtain s1 where s1: "connect_and_pump (\<lambda>k. 0) True None [] link_init = (Inr [], s1)"
    using logon_sent [OF id] by blast
  have "umap_ok (connections demo_gateway)"
    by (simp add: demo_gateway_def accept_new_connection_def umap_ok_def)
  from idle_bridge_disconnected [OF s1 id demo_gateway(1) _ _ this, of 0 10000000001 "\<lambda>k fd n. int n" "[]" "[]"] s1
  show ?thesis
    by (auto simp: connection_init_def session_init_def)
qed

end
