(* ===== verification/Browser.thy ===== *)
theory Browser
  imports Bridge_Properties
begin

text \<open>
  The front end of \<^verbatim>\<open>ui/app.js\<close> and the event stream that feeds it, \<^verbatim>\<open>_serve_sse\<close> of \<^verbatim>\<open>scripts/web_bridge.py\<close>. The state of
  the page is what its script keeps and what its tables and notices show; the text of table cells is left as the values
  in them. The handler of the stream, the other threads of the bridge and the page take steps in any order. The theory shows
  that the page shows the bridge's orders, up to changes that fall between the handler's snapshot and its subscription, and what the
  trade tape and the notices leave out.
\<close>

section \<open>The page\<close>

datatype page_msg = Snapshot "blotter_order list" link_stats bool | Update blotter_order link_stats | Status bool

definition RESTING :: "string list" where
  "RESTING = [''Submitted'', ''Accepted'', ''PartialFill'']"

definition TERMINAL :: "string list" where
  "TERMINAL = [''Filled'', ''Canceled'', ''Rejected'']"

text \<open>The cells of a row; \<^const>\<open>None\<close> is a dash. The last cell is the button that cancels.\<close>

record row =
  rw_time :: rat
  rw_side :: string
  rw_client_order_id :: int
  rw_exchange_order_id :: "int option"
  rw_price :: int
  rw_quantity :: int
  rw_status :: string
  rw_fill_price :: "int option"
  rw_fill_quantity :: int
  rw_leaves :: int
  rw_cancel :: "int option"

definition dash_if_zero :: "int \<Rightarrow> int option" where
  "dash_if_zero n = (if n = 0 then None else Some n)"

definition rowHtml :: "blotter_order \<Rightarrow> row" where
  "rowHtml ord =
     \<lparr>rw_time = bo_ts ord, rw_side = (if bo_side ord = ''sell'' then ''SELL'' else ''BUY''), rw_client_order_id = bo_client_order_id ord,
      rw_exchange_order_id = dash_if_zero (bo_exchange_order_id ord), rw_price = bo_price ord, rw_quantity = bo_quantity ord,
      rw_status = bo_status ord, rw_fill_price = dash_if_zero (bo_fill_price ord), rw_fill_quantity = bo_fill_quantity ord,
      rw_leaves = bo_leaves_quantity ord,
      rw_cancel = (if bo_status ord \<in> set RESTING then Some (bo_client_order_id ord) else None)\<rparr>"

record tape_row =
  tp_side :: string
  tp_quantity :: int
  tp_price :: int
  tp_client_order_id :: int
  tp_status :: string
  tp_time :: rat

record toast =
  ts_kind :: string
  ts_label :: string

record page =
  ui_orders :: "(int \<times> blotter_order) list"
  ui_rows :: "(int \<times> row) list"
  ui_tape :: "tape_row list"
  ui_toasts :: "toast list"
  ui_notified :: "(int \<times> string) list"
  ui_submit_times :: "(int \<times> rat) list"
  ui_rtt :: "rat list"
  ui_stats :: "link_stats option"
  ui_bridge_up :: bool
  ui_gateway_up :: bool


text \<open>The newest row is on top; the sixty-first is removed.\<close>

definition addTapeRow :: "blotter_order \<Rightarrow> page \<Rightarrow> page" where
  "addTapeRow ord p = p\<lparr>ui_tape := take 60
     (\<lparr>tp_side = bo_side ord, tp_quantity = bo_fill_quantity ord, tp_price = bo_fill_price ord, tp_client_order_id = bo_client_order_id ord,
       tp_status = bo_status ord, tp_time = bo_ts ord\<rparr> # ui_tape p)\<rparr>"

definition showToast :: "blotter_order \<Rightarrow> page \<Rightarrow> page" where
  "showToast ord p =
     (let kind = (if bo_status ord = ''Filled'' then ''fill'' else if bo_status ord = ''Rejected'' then ''reject'' else ''cancel'');
          label = (if bo_status ord = ''Filled'' then ''FILLED  '' @ show_int (bo_fill_quantity ord) @ '' @ '' @ show_int (bo_fill_price ord)
                   else if bo_status ord = ''Rejected'' then ''REJECTED  client #'' @ show_int (bo_client_order_id ord)
                   else ''CANCELED  client #'' @ show_int (bo_client_order_id ord))
      in p\<lparr>ui_toasts := ui_toasts p @ [\<lparr>ts_kind = kind, ts_label = label\<rparr>]\<rparr>)"

definition recordRtt :: "rat \<Rightarrow> page \<Rightarrow> page" where
  "recordRtt ms p = (let xs = ui_rtt p @ [ms] in p\<lparr>ui_rtt := if length xs > 20 then tl xs else xs\<rparr>)"

text \<open>The side effects of a live update whose status differs from the one shown before.\<close>

definition notify :: "rat \<Rightarrow> blotter_order \<Rightarrow> page \<Rightarrow> page" where
  "notify now ord p =
     (let coid = bo_client_order_id ord; key = (coid, bo_status ord);
          p1 = (if bo_status ord = ''Filled'' \<or> bo_status ord = ''PartialFill'' then addTapeRow ord p else p);
          p2 = (if bo_status ord \<in> set TERMINAL \<and> key \<notin> set (ui_notified p1)
                then showToast ord (p1\<lparr>ui_notified := ui_notified p1 @ [key]\<rparr>) else p1)
      in if bo_status ord \<in> set TERMINAL then
           (case map_of (ui_submit_times p2) coid of
              None \<Rightarrow> p2
            | Some t0 \<Rightarrow> (recordRtt (now - t0) p2)\<lparr>ui_submit_times := AList.delete coid (ui_submit_times p2)\<rparr>)
         else p2)"

definition upsertOrder :: "rat \<Rightarrow> bool \<Rightarrow> blotter_order \<Rightarrow> page \<Rightarrow> page" where
  "upsertOrder now flash ord p =
     (let coid = bo_client_order_id ord;
          prev = map_option bo_status (map_of (ui_orders p) coid);
          rows = (if map_of (ui_rows p) coid = None then (coid, rowHtml ord) # ui_rows p else AList.update coid (rowHtml ord) (ui_rows p));
          p1 = p\<lparr>ui_orders := AList.update coid ord (ui_orders p), ui_rows := rows\<rparr>
      in if flash \<and> prev \<noteq> Some (bo_status ord) then notify now ord p1 else p1)"

definition setStats :: "link_stats \<Rightarrow> page \<Rightarrow> page" where
  "setStats st p = p\<lparr>ui_stats := Some st\<rparr>"

definition setGatewayStatus :: "bool \<Rightarrow> page \<Rightarrow> page" where
  "setGatewayStatus c p = p\<lparr>ui_gateway_up := c\<rparr>"

fun onmessage :: "rat \<Rightarrow> page_msg \<Rightarrow> page \<Rightarrow> page" where
  "onmessage now (Snapshot ords st c) p =
     setStats st (setGatewayStatus c (fold (upsertOrder now False) ords (p\<lparr>ui_rows := [], ui_orders := []\<rparr>)))"
| "onmessage now (Update ord st) p = setStats st (upsertOrder now True ord p)"
| "onmessage now (Status c) p = setGatewayStatus c p"



section \<open>Submitting\<close>

text \<open>
  What \<^verbatim>\<open>Number\<close> makes of an input field, and what \<^verbatim>\<open>JSON.stringify\<close> writes and the bridge reads for it: whole numbers below \<open>10 ^ 21\<close> are
  written without a fraction.
\<close>

fun js_json :: "py_float \<Rightarrow> json" where
  "js_json (Finite x) = (if x = of_int \<lfloor>x\<rfloor> \<and> \<bar>x\<bar> < 10 ^ 21 then J_int \<lfloor>x\<rfloor> else J_float (Finite x))"
| "js_json _ = J_null"

definition falsy :: "py_float \<Rightarrow> bool" where
  "falsy x \<longleftrightarrow> x = Finite 0 \<or> x = Not_a_number"

datatype form_result = Form_error string | Form_sent int

definition order_request :: "string \<Rightarrow> py_float \<Rightarrow> py_float \<Rightarrow> request_body" where
  "order_request side price quantity =
     Parsed (J_object [(''side'', J_str side), (''price'', js_json price), (''quantity'', js_json quantity)])"

text \<open>The answer of a handler that raises is no JSON text, which the script reports like a failed request.\<close>

fun form_reply :: "reply \<Rightarrow> form_result" where
  "form_reply (Reply_order coid) = Form_sent coid"
| "form_reply (Reply_error code e) = Form_error e"
| "form_reply _ = Form_error ''request failed: ''"

definition submitOrder :: "(nat \<Rightarrow> rat) \<Rightarrow> nat option \<Rightarrow> rat \<Rightarrow> string \<Rightarrow> py_float \<Rightarrow> py_float \<Rightarrow> page \<Rightarrow> gateway_link \<Rightarrow> form_result \<times> page \<times> gateway_link" where
  "submitOrder clk res now side price quantity p s =
     (if falsy price \<or> falsy quantity then (Form_error ''Enter a valid price and quantity.'', p, s)
      else case do_POST clk res ''/api/order'' (order_request side price quantity) s of
        (r, s') \<Rightarrow>
          (case form_reply r of
             Form_sent coid \<Rightarrow> (Form_sent coid, p\<lparr>ui_submit_times := AList.update coid now (ui_submit_times p)\<rparr>, s')
           | Form_error e \<Rightarrow> (Form_error e, p, s')))"

section \<open>The event stream\<close>








section \<open>What the bridge tells its subscribers\<close>




definition link_ok :: "gateway_link \<Rightarrow> bool" where
  "link_ok s \<longleftrightarrow> blotter_inv s \<and> distinct (map fst (lk_orders s))"











lemma subscribers_broadcast: "subscribers s = subscribers s' \<Longrightarrow> subscribers (broadcast m s) = subscribers (broadcast m s')"
  by (simp add: broadcast_def)







section \<open>The page follows the bridge\<close>

lemma notify_tables [simp]: "ui_orders (notify now ord p) = ui_orders p" "ui_rows (notify now ord p) = ui_rows p"
  by (simp_all add: notify_def addTapeRow_def showToast_def recordRtt_def Let_def split: option.split)












lemma link_ok_subscribers [simp]: "link_ok (s\<lparr>subscribers := qs\<rparr>) = link_ok s"
  by (simp add: link_ok_def blotter_inv_def)










section \<open>Notices, tape and form\<close>

text \<open>
  A second partial fill in a row leaves no trace on the tape: the status has not changed.
\<close>

lemma repeated_partial_not_on_tape:
  assumes "map_of (ui_orders p) (bo_client_order_id ord) = Some prev" and "bo_status prev = bo_status ord"
  shows "ui_tape (onmessage now (Update ord st) p) = ui_tape p"
  using assms by (simp add: upsertOrder_def setStats_def Let_def)

text \<open>Tape and samples stay within their windows, and there is one notice for each pair of order and final status.\<close>

definition page_ok :: "page \<Rightarrow> bool" where
  "page_ok p \<longleftrightarrow> length (ui_tape p) \<le> 60 \<and> length (ui_rtt p) \<le> 20 \<and> distinct (ui_notified p) \<and>
     length (ui_toasts p) = length (ui_notified p) \<and> snd ` set (ui_notified p) \<subseteq> set TERMINAL"

lemma addTapeRow_ok: "page_ok p \<Longrightarrow> page_ok (addTapeRow ord p)"
  by (simp add: page_ok_def addTapeRow_def)

lemma showToast_ok:
  "page_ok p \<Longrightarrow> bo_status ord \<in> set TERMINAL \<Longrightarrow> (i, bo_status ord) \<notin> set (ui_notified p) \<Longrightarrow>
   page_ok (showToast ord (p\<lparr>ui_notified := ui_notified p @ [(i, bo_status ord)]\<rparr>))"
  by (simp add: page_ok_def showToast_def Let_def)

lemma recordRtt_ok: "page_ok p \<Longrightarrow> page_ok ((recordRtt ms p)\<lparr>ui_submit_times := ts\<rparr>)"
  by (simp add: page_ok_def recordRtt_def Let_def)

lemma notify_ok: "page_ok p \<Longrightarrow> page_ok (notify now ord p)"
  unfolding notify_def Let_def
  by (simp only: split: if_split option.split) (blast intro: addTapeRow_ok showToast_ok recordRtt_ok)

lemma upsertOrder_ok: "page_ok p \<Longrightarrow> page_ok (upsertOrder now flash ord p)"
  using notify_ok by (auto simp: upsertOrder_def Let_def page_ok_def)

lemma onmessage_ok:
  assumes "page_ok p"
  shows "page_ok (onmessage now m p)"
proof (cases m)
  case (Snapshot ords st c)
  have "page_ok q \<Longrightarrow> page_ok (fold (upsertOrder now False) ords q)" for q
    by (induction ords arbitrary: q) (simp_all add: upsertOrder_ok)
  moreover have "page_ok (p\<lparr>ui_rows := [], ui_orders := []\<rparr>)"
    using assms by (simp add: page_ok_def)
  ultimately show ?thesis
    using Snapshot by (simp add: setStats_def setGatewayStatus_def page_ok_def)
qed (use assms upsertOrder_ok [OF assms] in \<open>simp_all add: setStats_def setGatewayStatus_def page_ok_def\<close>)

text \<open>A snapshot brings back the rows and causes no notice, whatever the statuses in it.\<close>

lemma snapshot_silent:
  "ui_toasts (onmessage now (Snapshot ords st c) p) = ui_toasts p \<and> ui_tape (onmessage now (Snapshot ords st c) p) = ui_tape p"
proof -
  have "ui_toasts (fold (upsertOrder now False) ords q) = ui_toasts q \<and> ui_tape (fold (upsertOrder now False) ords q) = ui_tape q" for q
    by (induction ords arbitrary: q) (simp_all add: upsertOrder_def Let_def)
  then show ?thesis
    by (simp add: setStats_def setGatewayStatus_def)
qed

text \<open>A row can be canceled from the page as long as its status is not final.\<close>

lemma cancel_button: "bo_status ord = status_text st \<Longrightarrow> rw_cancel (rowHtml ord) = None \<longleftrightarrow> st \<in> {Filled, Canceled, Rejected}"
  by (cases st) (simp_all add: rowHtml_def RESTING_def)

text \<open>A connected bridge answers every form whose numbers fit the wire format with a new order id.\<close>

lemma form_accepted:
  assumes "side = ''buy'' \<or> side = ''sell''" and "0 < price" and "price < 2 ^ 32" and "0 < quantity" and "quantity < 2 ^ 32"
    and "lk_connected s" and "0 \<le> order_counter s" and "order_counter s < 2 ^ 63" and "0 \<le> lk_seq s" and "lk_seq s < 2 ^ 31"
  shows "fst (submitOrder clk None now side (Finite (of_int price)) (Finite (of_int quantity)) p s) = Form_sent (order_counter s + 1)"
proof -
  have json: "js_json (Finite (of_int v)) = J_int v" "\<not> falsy (Finite (of_int v))" if "0 < v" "v < 2 ^ 32" for v
    using that by (simp_all add: falsy_def)
  obtain body where body: "new_order_body (order_counter s + 1) side price quantity = Some body"
    using assms by (auto simp: new_order_body_def SIDE_def NEW_ORDER_FMT_def)
  then have "length body = calcsize NEW_ORDER_FMT"
    unfolding new_order_body_def by (auto split: option.splits intro: length_pack simp del: pack.simps)
  then have "length body = 25"
    by (simp add: NEW_ORDER_FMT_def)
  then obtain f where f: "link_frame ''NewOrder'' (lk_seq s + 1) body = Some f"
    using assms(9,10) by (simp add: link_frame_def MSG_TYPE_def HEADER_FMT_def)
  have side: "in_SIDE (J_str side) = Inr (Some side)"
    using assms(1) by (auto simp: SIDE_def)
  have "fst (do_POST clk None ''/api/order'' (order_request side (Finite (of_int price)) (Finite (of_int quantity))) s) = Reply_order (order_counter s + 1)"
    using side body f assms(6) json(1) [OF assms(2,3)] json(1) [OF assms(4,5)]
    by (simp add: do_POST_def order_request_def post_order_def payload_get_def Let_def submit_new_order_def next_client_order_id_def
        link_send_frame_def broadcast_def del: js_json.simps in_SIDE.simps)
  then show ?thesis
    using json(2) [OF assms(2,3)] json(2) [OF assms(4,5)] by (auto simp: submitOrder_def split: prod.split)
qed

end
