(* ===== verification/Double.thy ===== *)
theory Double
  imports Complex_Main Hft_Prelude
begin

text \<open>
  Arithmetic on \<^verbatim>\<open>double\<close>, as far as the program uses it: non-negative numbers far from the limits of the
  format. A double is the rational number it denotes; every operation is the exact one followed by rounding to 53
  significant bits, to nearest with ties to even. The theory shows that rounding is monotone, exact on
  integers up to \<open>2 ^ 53\<close> and otherwise off by at most one part in \<open>2 ^ 53\<close>.
\<close>

section \<open>Rounding\<close>

text \<open>To an integer, ties to even.\<close>

definition round_even :: "rat \<Rightarrow> int" where
  "round_even q =
     (let f = \<lfloor>q\<rfloor>; d = q - of_int f
      in if d < 1 / 2 then f else if 1 / 2 < d then f + 1 else if even f then f else f + 1)"

fun bit_width :: "nat \<Rightarrow> nat" where
  "bit_width n = (if n = 0 then 0 else Suc (bit_width (n div 2)))"

declare bit_width.simps [simp del]

text \<open>The exponent of a positive number, and the number rounded to 53 bits.\<close>

definition exponent :: "rat \<Rightarrow> int" where
  "exponent x = (if 1 \<le> x then int (bit_width (nat \<lfloor>x\<rfloor>)) - 1 else - int (bit_width (nat (\<lceil>1 / x\<rceil> - 1))))"

definition dbl :: "rat \<Rightarrow> rat" where
  "dbl x = (if x \<le> 0 then 0 else let s = 2 powi (exponent x - 52) in of_int (round_even (x / s)) * s)"

text \<open>The conversions between \<^verbatim>\<open>uint64_t\<close> and \<^verbatim>\<open>double\<close>; a value that does not fit makes the cast undefined.\<close>

definition double_of :: "u64 \<Rightarrow> rat" where
  "double_of w = dbl (of_nat (unat w))"

definition u64_of :: "rat \<Rightarrow> u64 option" where
  "u64_of x = (if 0 \<le> x \<and> \<lfloor>x\<rfloor> < 2 ^ 64 then Some (of_int \<lfloor>x\<rfloor>) else None)"

section \<open>Rounding to an integer\<close>

lemma round_even_cases: "round_even q = \<lfloor>q\<rfloor> \<and> q - of_int \<lfloor>q\<rfloor> \<le> 1 / 2 \<or> round_even q = \<lfloor>q\<rfloor> + 1 \<and> 1 / 2 \<le> q - of_int \<lfloor>q\<rfloor>"
  by (simp add: round_even_def Let_def)

lemma round_even_close: "\<bar>of_int (round_even q) - q\<bar> \<le> 1 / 2"
  using round_even_cases [of q] of_int_floor_le [of q] floor_correct [of q] by auto

lemma round_even_int [simp]: "round_even (of_int k) = k"
  by (simp add: round_even_def)

lemma round_even_mono:
  assumes "p \<le> q"
  shows "round_even p \<le> round_even q"
proof (cases "\<lfloor>p\<rfloor> = \<lfloor>q\<rfloor>")
  case True
  with assms show ?thesis
    by (auto simp: round_even_def Let_def)
next
  case False
  then have "\<lfloor>p\<rfloor> + 1 \<le> \<lfloor>q\<rfloor>"
    using floor_mono [OF assms] by simp
  then show ?thesis
    using round_even_cases [of p] round_even_cases [of q] by linarith
qed

lemma round_even_le: "q \<le> of_int k \<Longrightarrow> round_even q \<le> k"
  using round_even_mono [of q "of_int k"] by simp

lemma round_even_ge: "of_int k \<le> q \<Longrightarrow> k \<le> round_even q"
  using round_even_mono [of "of_int k" q] by simp

section \<open>The exponent\<close>

lemma bit_width_bounds: "0 < n \<Longrightarrow> 0 < bit_width n \<and> 2 ^ (bit_width n - 1) \<le> n \<and> n < 2 ^ bit_width n"
proof (induction n rule: bit_width.induct)
  case (1 n)
  show ?case
  proof (cases "n div 2 = 0")
    case True
    with 1(2) have "n = 1" by simp
    then show ?thesis by (simp add: bit_width.simps)
  next
    case False
    then have ih: "0 < bit_width (n div 2)" "2 ^ (bit_width (n div 2) - 1) \<le> n div 2" "n div 2 < 2 ^ bit_width (n div 2)"
      using 1 by auto
    obtain k where k: "bit_width (n div 2) = Suc k"
      using ih(1) gr0_implies_Suc by blast
    have "bit_width n = Suc (Suc k)"
      using 1(2) k by (subst bit_width.simps) simp
    with ih(2,3) k show ?thesis
      by simp linarith
  qed
qed

lemma bit_width_rat:
  assumes "0 < n"
  shows "(2 :: rat) ^ (bit_width n - 1) \<le> of_nat n" and "of_nat n + 1 \<le> (2 :: rat) ^ bit_width n"
proof -
  have "(of_nat (2 ^ (bit_width n - 1)) :: rat) \<le> of_nat n" "(of_nat (n + 1) :: rat) \<le> of_nat (2 ^ bit_width n)"
    unfolding of_nat_le_iff using bit_width_bounds [OF assms] by linarith+
  then show "(2 :: rat) ^ (bit_width n - 1) \<le> of_nat n" and "of_nat n + 1 \<le> (2 :: rat) ^ bit_width n"
    by simp_all
qed

lemma exponent_bounds:
  assumes "0 < x"
  shows "2 powi exponent x \<le> x" and "x < 2 powi (exponent x + 1)"
proof -
  have "2 powi exponent x \<le> x \<and> x < 2 powi (exponent x + 1)"
  proof (cases "1 \<le> x")
    case True
    let ?n = "nat \<lfloor>x\<rfloor>" and ?k = "bit_width (nat \<lfloor>x\<rfloor>)"
    have n: "0 < ?n" "of_nat ?n \<le> x" "x < of_nat ?n + 1"
      using True floor_correct [of x] by (auto simp: of_nat_nat)
    note b = bit_width_bounds [OF n(1)]
    have "2 ^ (?k - 1) \<le> x" "x < 2 ^ ?k"
      using n bit_width_rat [OF n(1)] by linarith+
    moreover have "exponent x = int (?k - 1)" "exponent x + 1 = int ?k"
      using True b by (simp_all add: exponent_def of_nat_diff)
    ultimately show ?thesis
      by (simp only: power_int_of_nat)
  next
    case False
    let ?y = "1 / x" and ?n = "nat (\<lceil>1 / x\<rceil> - 1)" and ?k = "bit_width (nat (\<lceil>1 / x\<rceil> - 1))"
    have "1 < ?y"
      using False assms by simp
    then have "1 < \<lceil>?y\<rceil>"
      by simp
    then have n: "0 < ?n" "of_nat ?n < ?y" "?y \<le> of_nat ?n + 1"
      by (auto simp: of_nat_nat) linarith+
    note b = bit_width_bounds [OF n(1)]
    have y: "2 ^ (?k - 1) < ?y" "?y \<le> 2 ^ ?k"
      using n bit_width_rat [OF n(1)] by linarith+
    then have "2 ^ (?k - 1) * x < 1" "1 \<le> 2 ^ ?k * x"
      using assms by (simp_all add: field_simps)
    moreover have "exponent x = - int ?k" "exponent x + 1 = - int (?k - 1)"
      using False b by (simp_all add: exponent_def of_nat_diff)
    ultimately show ?thesis
      by (simp only: power_int_minus power_int_of_nat) (simp add: field_simps)
  qed
  then show "2 powi exponent x \<le> x" and "x < 2 powi (exponent x + 1)"
    by simp_all
qed

lemma exponent_mono:
  assumes "0 < x" and "x \<le> y"
  shows "exponent x \<le> exponent y"
proof -
  have "(2 :: rat) powi exponent x < 2 powi (exponent y + 1)"
    using exponent_bounds [of x] exponent_bounds [of y] assms by linarith
  moreover have "(2 :: rat) powi (exponent y + 1) \<le> 2 powi exponent x" if "exponent y < exponent x"
    using that by (intro power_int_increasing) simp_all
  ultimately show ?thesis
    by linarith
qed

lemma exponent_unique:
  assumes "2 powi e \<le> x" and "x < 2 powi (e + 1)"
  shows "exponent x = e"
proof -
  have "0 < x"
    using assms(1) by (rule less_le_trans [rotated]) simp
  note b = exponent_bounds [OF this]
  have "\<not> e + 1 \<le> exponent x" "\<not> exponent x + 1 \<le> e"
    using power_int_increasing [of "e + 1" "exponent x" "2 :: rat"] power_int_increasing [of "exponent x + 1" e "2 :: rat"] b assms
    by linarith+
  then show ?thesis by simp
qed

section \<open>Rounding to 53 bits\<close>

lemma powi_split: "(2 :: rat) powi (e - 52) * 2 ^ 52 = 2 powi e"
proof -
  have "(2 :: rat) powi (e - 52 + 52) = 2 powi (e - 52) * 2 powi 52"
    by (rule power_int_add) simp
  then show ?thesis by simp
qed

lemma dbl_0 [simp]: "dbl 0 = 0"
  by (simp add: dbl_def)

lemma dbl_range:
  assumes "0 < x"
  shows "2 powi exponent x \<le> dbl x" and "dbl x \<le> 2 powi (exponent x + 1)"
proof -
  define s where "s = (2 :: rat) powi (exponent x - 52)"
  have s: "0 < s" "s * 2 ^ 52 = 2 powi exponent x"
    by (simp_all only: s_def powi_split) simp
  have two: "s * 2 ^ 53 = 2 powi (exponent x + 1)"
    using s(2) by (simp add: power_int_add)
  have q: "of_int (2 ^ 52) \<le> x / s" "x / s \<le> of_int (2 ^ 53)"
    using exponent_bounds [OF assms] s two by (simp_all add: field_simps)
  have "2 ^ 52 \<le> round_even (x / s)" "round_even (x / s) \<le> 2 ^ 53"
    using round_even_ge [OF q(1)] round_even_le [OF q(2)] .
  then have r: "(2 :: rat) ^ 52 \<le> of_int (round_even (x / s))" "of_int (round_even (x / s)) \<le> (2 :: rat) ^ 53"
    using of_int_le_iff [of "2 ^ 52" "round_even (x / s)", where 'a = rat]
      of_int_le_iff [of "round_even (x / s)" "2 ^ 53", where 'a = rat] by simp_all
  have d: "dbl x = of_int (round_even (x / s)) * s"
    using assms by (simp add: dbl_def Let_def s_def)
  show "2 powi exponent x \<le> dbl x" "dbl x \<le> 2 powi (exponent x + 1)"
    unfolding d s(2) [symmetric] two [symmetric] using s(1) r by (simp_all add: mult.commute)
qed

lemma dbl_pos: "0 < x \<Longrightarrow> 0 < dbl x"
  by (rule less_le_trans [OF _ dbl_range(1)]) simp_all

lemma dbl_nonneg [simp]: "0 \<le> dbl x"
  using dbl_pos [of x] by (cases "0 < x") (auto simp: dbl_def)

lemma dbl_mono:
  assumes "x \<le> y"
  shows "dbl x \<le> dbl y"
proof (cases "0 < x")
  case False
  then show ?thesis by (simp add: dbl_def [of x])
next
  case True
  show ?thesis
  proof (cases "exponent x = exponent y")
    case eq: True
    have "round_even (x / 2 powi (exponent y - 52)) \<le> round_even (y / 2 powi (exponent y - 52))"
      using assms by (intro round_even_mono divide_right_mono) simp_all
    then show ?thesis
      using True assms by (simp add: dbl_def Let_def eq)
  next
    case False
    then have "(2 :: rat) powi (exponent x + 1) \<le> 2 powi exponent y"
      using exponent_mono [OF True assms] by (intro power_int_increasing) simp_all
    then show ?thesis
      using dbl_range(2) [OF True] dbl_range(1) [of y] True assms by linarith
  qed
qed

lemma dbl_close:
  assumes "0 \<le> x"
  shows "\<bar>dbl x - x\<bar> \<le> x / 2 ^ 53"
proof (cases "x = 0")
  case False
  with assms have "0 < x" by simp
  define s where "s = (2 :: rat) powi (exponent x - 52)"
  have s: "0 < s" "s * 2 ^ 52 = 2 powi exponent x"
    by (simp_all only: s_def powi_split) simp
  have "dbl x - x = (of_int (round_even (x / s)) - x / s) * s"
    using \<open>0 < x\<close> s(1) by (simp add: dbl_def Let_def s_def [symmetric] field_simps)
  then have "\<bar>dbl x - x\<bar> \<le> 1 / 2 * s"
    using round_even_close [of "x / s"] s(1) by (simp only: abs_mult abs_of_pos mult_right_mono less_imp_le)
  also have "1 / 2 * s = s * 2 ^ 52 / 2 ^ 53"
    by simp
  also have "\<dots> \<le> x / 2 ^ 53"
    unfolding s(2) using exponent_bounds(1) [OF \<open>0 < x\<close>] by (intro divide_right_mono) simp_all
  finally show ?thesis .
qed simp

lemma dbl_int:
  assumes "n \<le> 2 ^ 53"
  shows "dbl (of_nat n) = of_nat n"
proof (cases "n = 0")
  case False
  then have pos: "0 < (of_nat n :: rat)" by simp
  show ?thesis
  proof (cases "exponent (of_nat n) \<le> 52")
    case True
    define s where "s = (2 :: rat) powi (exponent (of_nat n) - 52)"
    have "s = 1 / 2 ^ nat (52 - exponent (of_nat n))"
      using True by (simp add: s_def power_int_def power_one_over)
    then have "of_nat n / s = of_int (int n * 2 ^ nat (52 - exponent (of_nat n)))" "0 < s"
      by simp_all
    then have "of_int (round_even (of_nat n / s)) * s = of_nat n"
      by (metis nonzero_divide_eq_eq order_less_irrefl round_even_int)
    then show ?thesis
      using pos by (simp add: dbl_def Let_def s_def)
  next
    case False
    have "(2 :: rat) powi 53 \<le> 2 powi exponent (of_nat n)"
      using False by (intro power_int_increasing) simp_all
    then have "(2 :: rat) ^ 53 \<le> of_nat n"
      using exponent_bounds(1) [OF pos] by simp
    then have "of_nat (2 ^ 53) \<le> (of_nat n :: rat)"
      by simp
    with assms have "n = 2 ^ 53"
      unfolding of_nat_le_iff by simp
    moreover have "exponent (2 ^ 53) = 53"
      by (rule exponent_unique) simp_all
    ultimately show ?thesis
      using round_even_int [of "2 ^ 52"] by (simp add: dbl_def Let_def)
  qed
qed simp

lemma round_even_eqI: "\<bar>q - of_int m\<bar> < 1 / 2 \<Longrightarrow> round_even q = m"
  using round_even_close [of q] by linarith

lemma dbl_eqI:
  assumes "2 powi e \<le> x" and "x < 2 powi (e + 1)" and "\<bar>x / 2 powi (e - 52) - of_int m\<bar> < 1 / 2"
  shows "dbl x = of_int m * 2 powi (e - 52)"
proof -
  have "0 < x"
    using assms(1) by (rule less_le_trans [rotated]) simp
  then show ?thesis
    using round_even_eqI [OF assms(3)] by (simp add: dbl_def Let_def exponent_unique [OF assms(1,2)])
qed

end
