(* ===== verification/Bridge_History.thy ===== *)
theory Bridge_History
  imports Bridge_Properties Db_Consumer Sequencer Double
begin

text \<open>
  The GET handlers of \<^verbatim>\<open>scripts/web_bridge.py\<close>: order history and statistics read from the database that the gateway writes,
  and the files of the front end. The statements of the two queries are given their meaning on the
  tables of \<open>Db_Consumer\<close>, whose execution reports are in the order of their automatic keys. The theory shows that the
  history of one run gives each order with its latest report, and what it gives after a restart of the gateway.
\<close>

section \<open>The queries\<close>

text \<open>The database file may be missing, or reading it may raise \<^verbatim>\<open>sqlite3.Error\<close> with some text.\<close>

datatype db_file = No_file | Unreadable string | Tables tables

record history_row =
  hr_seq_num :: int
  hr_session_id :: int
  hr_client_order_id :: int
  hr_side :: string
  hr_price :: int
  hr_quantity :: int
  hr_exchange_order_id :: int
  hr_status :: string
  hr_fill_price :: int
  hr_fill_quantity :: int
  hr_leaves_quantity :: int
  hr_ts :: rat

definition SIDE_NAME :: "(int \<times> string) list" where
  "SIDE_NAME = [(0, ''buy''), (1, ''sell'')]"

text \<open>The report with row number 1 in the partition of an exchange order id: the one with the highest key.\<close>

definition latest_report :: "int list list \<Rightarrow> int \<Rightarrow> int list option" where
  "latest_report execs seq =
     (case filter (\<lambda>r. r ! 3 \<noteq> 0 \<and> r ! 3 = seq) execs of [] \<Rightarrow> None | r # rs \<Rightarrow> Some (last (r # rs)))"

text \<open>A negative limit is no limit.\<close>

definition sql_limit :: "int \<Rightarrow> 'a list \<Rightarrow> 'a list" where
  "sql_limit n xs = (if n < 0 then xs else take (nat n) xs)"

definition HISTORY_QUERY :: "int \<Rightarrow> tables \<Rightarrow> (int list \<times> int list option) list" where
  "HISTORY_QUERY limit T = (case T of (orders, execs) \<Rightarrow>
     sql_limit limit (map (\<lambda>r. (r, latest_report execs (r ! 0))) (rev (sort_key (\<lambda>r. r ! 0) (filter (\<lambda>r. r ! 2 = 1) orders)))))"

text \<open>Dividing an integer by \<^verbatim>\<open>1e9\<close> in floating point.\<close>

definition seconds :: "int \<Rightarrow> rat" where
  "seconds ns = (if ns < 0 then - dbl (dbl (of_int (- ns)) / 10 ^ 9) else dbl (dbl (of_int ns) / 10 ^ 9))"

definition history_entry :: "int list \<times> int list option \<Rightarrow> history_row" where
  "history_entry x = (case x of (r, e) \<Rightarrow>
     \<lparr>hr_seq_num = r ! 0, hr_session_id = r ! 3, hr_client_order_id = r ! 4,
      hr_side = (case map_of SIDE_NAME (r ! 5) of None \<Rightarrow> ''?'' | Some n \<Rightarrow> n), hr_price = r ! 6, hr_quantity = r ! 7,
      hr_exchange_order_id = (case e of None \<Rightarrow> 0 | Some f \<Rightarrow> f ! 3),
      hr_status = (case e of None \<Rightarrow> ''Submitted'' | Some f \<Rightarrow> (case map_of EXEC_STATUS (f ! 4) of None \<Rightarrow> ''Submitted'' | Some n \<Rightarrow> n)),
      hr_fill_price = (case e of None \<Rightarrow> 0 | Some f \<Rightarrow> f ! 5), hr_fill_quantity = (case e of None \<Rightarrow> 0 | Some f \<Rightarrow> f ! 6),
      hr_leaves_quantity = (case e of None \<Rightarrow> r ! 7 | Some f \<Rightarrow> f ! 7),
      hr_ts = seconds (case e of None \<Rightarrow> r ! 1 | Some f \<Rightarrow> f ! 0)\<rparr>)"

definition query_history :: "db_file \<Rightarrow> int \<Rightarrow> string + history_row list" where
  "query_history db limit =
     (case db of
        No_file \<Rightarrow> Inr []
      | Unreadable e \<Rightarrow> Inl e
      | Tables T \<Rightarrow> Inr (map history_entry (HISTORY_QUERY limit T)))"

definition query_stats :: "db_file \<Rightarrow> string + int \<times> nat" where
  "query_stats db =
     (case db of
        No_file \<Rightarrow> Inr (0, 0)
      | Unreadable e \<Rightarrow> Inl e
      | Tables (orders, execs) \<Rightarrow> Inr (if orders = [] then 0 else Max (set (map hd orders)), length orders))"

section \<open>The GET handlers\<close>

text \<open>\<^verbatim>\<open>int\<close> of a text: white space around it, a sign, and digits with single underscores between them.\<close>

definition py_space :: "char \<Rightarrow> bool" where
  "py_space c \<longleftrightarrow> is_space c \<or> (of_char c :: nat) \<in> {28, 29, 30, 31, 133, 160}"

fun py_digits :: "string \<Rightarrow> bool" where
  "py_digits [] = False"
| "py_digits [c] = is_digit c"
| "py_digits (c # d # cs) = (is_digit c \<and> (if d = CHR ''_'' then py_digits cs else py_digits (d # cs)))"

definition py_int :: "string \<Rightarrow> int option" where
  "py_int t =
     (case sign_of (rev (dropWhile py_space (rev (dropWhile py_space t)))) of
        (neg, ds) \<Rightarrow>
          if py_digits ds then Some (let n = int (digits_val (filter is_digit ds)) in if neg then - n else n) else None)"

datatype get_reply =
    Get_file string string                  \<comment> \<open>content type and content\<close>
  | Get_stream                              \<comment> \<open>the event stream\<close>
  | Get_history "history_row list"
  | Get_stats int nat
  | Get_error nat string
  | Get_not_found
  | Get_raised py_error

definition serve_file :: "string option \<Rightarrow> string \<Rightarrow> get_reply" where
  "serve_file content content_type = (case content of None \<Rightarrow> Get_not_found | Some body \<Rightarrow> Get_file content_type body)"

text \<open>
  \<open>ui\<close> are the files in the directory of the front end and \<open>params\<close> what \<^verbatim>\<open>parse_qs\<close> makes of the text after the question mark:
  each name with its values, of which there is at least one.
\<close>

definition history_limit :: "(string \<times> string list) list \<Rightarrow> int option" where
  "history_limit params = map_option (\<lambda>n. min n 500) (py_int (hd (case map_of params ''limit'' of None \<Rightarrow> [''50''] | Some vs \<Rightarrow> vs)))"

definition do_GET :: "(string \<Rightarrow> string option) \<Rightarrow> db_file \<Rightarrow> string \<Rightarrow> (string \<times> string list) list \<Rightarrow> get_reply" where
  "do_GET ui db path params =
     (if path = ''/'' \<or> path = ''/index.html'' then serve_file (ui ''index.html'') ''text/html''
      else if path = ''/app.js'' then serve_file (ui ''app.js'') ''application/javascript''
      else if path = ''/events'' then Get_stream
      else if path = ''/api/history'' then
        (case history_limit params of
           None \<Rightarrow> Get_raised Value_error
         | Some limit \<Rightarrow> (case query_history db limit of Inl e \<Rightarrow> Get_error 500 e | Inr rows \<Rightarrow> Get_history rows))
      else if path = ''/api/stats'' then
        (case query_stats db of Inl e \<Rightarrow> Get_error 500 e | Inr (m, n) \<Rightarrow> Get_stats m n)
      else Get_not_found)"

section \<open>What the history shows\<close>

definition last_ack :: "OutboundAck list \<Rightarrow> u64 \<Rightarrow> OutboundAck option" where
  "last_ack as n = (case filter (\<lambda>a. ack_exchange_order_id a = n) as of [] \<Rightarrow> None | a # bs \<Rightarrow> Some (last (a # bs)))"

definition side_text :: "Side \<Rightarrow> string" where
  "side_text sd = (case map_of SIDE_NAME (uint (byte_of_side sd)) of None \<Rightarrow> ''?'' | Some n \<Rightarrow> n)"

text \<open>A row shows a new order with its latest acknowledgement.\<close>

definition shows_event :: "OutboundAck list \<Rightarrow> SequencedEvent \<Rightarrow> history_row \<Rightarrow> bool" where
  "shows_event as ev h \<longleftrightarrow>
     hr_seq_num h = uint (ev_seq_num ev) \<and> hr_session_id h = uint (ev_session_id ev) \<and> hr_client_order_id h = sint (ev_client_order_id ev) \<and>
     hr_side h = side_text (ev_side ev) \<and> hr_price h = uint (ev_price ev) \<and> hr_quantity h = uint (ev_quantity ev) \<and>
     (case last_ack as (ev_seq_num ev) of
        None \<Rightarrow> hr_status h = ''Submitted'' \<and> hr_fill_quantity h = 0 \<and> hr_leaves_quantity h = uint (ev_quantity ev)
      | Some a \<Rightarrow> hr_exchange_order_id h = uint (ev_seq_num ev) \<and> hr_status h = status_text (ack_status a) \<and>
          hr_fill_price h = uint (ack_fill_price a) \<and> hr_fill_quantity h = uint (ack_fill_quantity a) \<and>
          hr_leaves_quantity h = uint (ack_leaves_quantity a))"

lemma list_all2_last: "list_all2 P xs ys \<Longrightarrow> xs \<noteq> [] \<Longrightarrow> P (last xs) (last ys)"
  by (induction rule: list_all2_induct) (auto split: if_splits)

lemma reports_of_order:
  assumes "n \<noteq> 0"
  shows "list_all2 (\<lambda>r a. \<exists>w. r = exec_row w a) (filter (\<lambda>r. r ! 3 \<noteq> 0 \<and> r ! 3 = sint n) (exec_rows wall k as))
    (filter (\<lambda>a. ack_exchange_order_id a = n) as)"
proof -
  have "sint n \<noteq> 0"
    using assms sint_eq_iff [of n 0] by simp
  then show ?thesis
    by (induction as arbitrary: k) (auto simp: exec_row_def sint_eq_iff)
qed

lemma latest_report_ack:
  assumes "n \<noteq> 0"
  shows "rel_option (\<lambda>r a. \<exists>w. r = exec_row w a) (latest_report (exec_rows wall k as) (sint n)) (last_ack as n)"
  using reports_of_order [OF assms, of wall k as] list_all2_last [OF reports_of_order [OF assms, of wall k as]]
  by (auto simp: latest_report_def last_ack_def split: list.splits)

lemma last_ack_id:
  assumes "last_ack as n = Some a"
  shows "ack_exchange_order_id a = n"
proof -
  have "filter (\<lambda>a. ack_exchange_order_id a = n) as \<noteq> []" "a = last (filter (\<lambda>a. ack_exchange_order_id a = n) as)"
    using assms by (auto simp: last_ack_def split: list.splits)
  then have "a \<in> set (filter (\<lambda>a. ack_exchange_order_id a = n) as)"
    using last_in_set by blast
  then show ?thesis by simp
qed

lemma exec_status_name: "map_of EXEC_STATUS (uint (byte_of_exec_status st)) = Some (status_text st)"
  by (cases st) (simp_all add: EXEC_STATUS_def)

lemma small_number:
  assumes "n < 2 ^ 63"
  shows "sint (of_nat n :: u64) = int n" and "uint (of_nat n :: u64) = int n"
proof -
  show "sint (of_nat n :: u64) = int n"
    using assms by (simp add: signed_of_nat signed_take_bit_int_eq_self)
  show "uint (of_nat n :: u64) = int n"
    using assms by (simp add: unsigned_of_nat take_bit_nat_eq_self)
qed

lemma history_entry_shows:
  assumes "0 < n" and "n < 2 ^ 63" and "ev_seq_num ev = of_nat n"
  shows "shows_event as ev (history_entry (order_row ev, latest_report (exec_rows wall k as) (order_row ev ! 0)))"
proof -
  have seq: "sint (ev_seq_num ev) = int n" "uint (ev_seq_num ev) = int n"
    using small_number [OF assms(2)] by (simp_all add: assms(3))
  then have nonzero: "ev_seq_num ev \<noteq> 0"
    using assms(1) by auto
  have row: "order_row ev ! 0 = sint (ev_seq_num ev)"
    by (simp add: order_row_def)
  show ?thesis
    unfolding row
    using latest_report_ack [OF nonzero, of wall k as] last_ack_id [of as "ev_seq_num ev"]
    by (cases "last_ack as (ev_seq_num ev)")
      (auto simp: shows_event_def history_entry_def order_row_def exec_row_def side_text_def exec_status_name seq option_rel_Some2 split: option.split)
qed

text \<open>The tables that a run leaves in a new database.\<close>

definition run_tables :: "(u64 \<Rightarrow> u64) \<Rightarrow> SequencedEvent list \<Rightarrow> OutboundAck list \<Rightarrow> tables" where
  "run_tables wall hist as = (order_rows hist [], exec_rows wall 0 as)"

definition new_orders :: "SequencedEvent list \<Rightarrow> SequencedEvent list" where
  "new_orders hist = filter (\<lambda>ev. ev_type ev = Ev_NewOrder) hist"

lemma event_number:
  assumes "numbered hist" and "ev \<in> set hist"
  obtains n where "0 < n" and "n \<le> length hist" and "ev_seq_num ev = of_nat n"
proof -
  have "ev_seq_num ev \<in> of_nat ` {1..<Suc (length hist)}"
    using assms unfolding numbered_def by (metis image_eqI list.set_map set_upt)
  then obtain n where "n \<in> {1..<Suc (length hist)}" "ev_seq_num ev = of_nat n"
    by blast
  with that [of n] show thesis by simp
qed

lemma run_orders:
  assumes "numbered hist" and "length hist < 2 ^ 63"
  shows "order_rows hist [] = map order_row (filter is_request hist)" and "sorted (map (\<lambda>ev. sint (ev_seq_num ev)) hist)"
proof -
  have seqs: "map (\<lambda>ev. sint (ev_seq_num ev)) hist = map int [1..<Suc (length hist)]"
  proof -
    have "map sint (map ev_seq_num hist) = map (\<lambda>n. sint (of_nat n :: u64)) [1..<Suc (length hist)]"
      using assms(1) unfolding numbered_def by (simp add: comp_def)
    moreover have "map (\<lambda>n. sint (of_nat n :: u64)) [1..<Suc (length hist)] = map int [1..<Suc (length hist)]"
      using assms(2) by (intro map_cong refl small_number(1)) auto
    ultimately show ?thesis by (simp add: comp_def)
  qed
  show "sorted (map (\<lambda>ev. sint (ev_seq_num ev)) hist)"
    unfolding seqs by (simp add: sorted_map strict_sorted_imp_sorted del: upt_Suc)
  have "distinct (map sint (map ev_seq_num hist))"
    using seqs by (simp add: comp_def distinct_map inj_on_def del: upt_Suc)
  then have "distinct (map ev_seq_num hist)"
    by (simp only: distinct_map)
  then show "order_rows hist [] = map order_row (filter is_request hist)"
    using order_rows_fresh [of hist "[]"] by simp
qed

lemma history_query:
  assumes "numbered hist" and "length hist < 2 ^ 63" and "0 \<le> limit"
  shows "HISTORY_QUERY limit (run_tables wall hist as) =
    map (\<lambda>ev. (order_row ev, latest_report (exec_rows wall 0 as) (order_row ev ! 0))) (take (nat limit) (rev (new_orders hist)))"
proof -
  have "order_row ev ! 2 = 1 \<longleftrightarrow> ev_type ev = Ev_NewOrder" for ev
    by (cases "ev_type ev") (simp_all add: order_row_def)
  then have news: "filter (\<lambda>r. r ! 2 = 1) (map order_row (filter is_request hist)) = map order_row (new_orders hist)"
    by (auto simp: filter_map new_orders_def is_request_def comp_def intro!: filter_cong arg_cong [where f = "map order_row"])
  have "sorted (map (\<lambda>r. r ! 0) (map order_row (new_orders hist)))"
    using sorted_filter [OF run_orders(2) [OF assms(1,2)]] by (simp add: new_orders_def order_row_def comp_def)
  then have "sort_key (\<lambda>r. r ! 0) (map order_row (new_orders hist)) = map order_row (new_orders hist)"
    by (rule sort_key_id_if_sorted)
  with assms(3) news show ?thesis
    by (simp add: HISTORY_QUERY_def run_tables_def run_orders(1) [OF assms(1,2)] sql_limit_def rev_map take_map comp_def)
qed

lemma sorted_Max:
  fixes xs :: "'a :: linorder list"
  assumes "sorted xs" and "xs \<noteq> []"
  shows "Max (set xs) = last xs"
proof (rule Max_eqI)
  fix y
  assume "y \<in> set xs"
  then obtain i where "i < length xs" "y = xs ! i"
    by (metis in_set_conv_nth)
  with assms show "y \<le> last xs"
    by (simp add: last_conv_nth sorted_nth_mono)
qed (use assms in simp_all)

lemma last_number:
  assumes "numbered hist" and "length hist < 2 ^ 63" and "filter is_request hist \<noteq> []"
  shows "Max (hd ` set (map order_row (filter is_request hist))) = uint (ev_seq_num (last (filter is_request hist)))"
proof -
  let ?fs = "filter is_request hist"
  have "sorted (map (\<lambda>ev. sint (ev_seq_num ev)) ?fs)"
    by (rule sorted_filter [OF run_orders(2) [OF assms(1,2)]])
  then have "Max (set (map (\<lambda>ev. sint (ev_seq_num ev)) ?fs)) = last (map (\<lambda>ev. sint (ev_seq_num ev)) ?fs)"
    using assms(3) by (intro sorted_Max) simp_all
  moreover have "last ?fs \<in> set hist"
    using last_in_set [OF assms(3)] by simp
  then have "sint (ev_seq_num (last ?fs)) = uint (ev_seq_num (last ?fs))"
    using event_number [OF assms(1)] small_number assms(2) by (metis le_less_trans)
  ultimately show ?thesis
    using assms(3) by (simp add: last_map image_image order_row_def)
qed

text \<open>
  (C29) The history endpoint. When a run has written its history and its acknowledgements to a new database, \<^verbatim>\<open>/api/history\<close> answers with
  the newest orders first, at most as many as asked for and never more than 500: each with its number,
  connection, client order id, side, price and quantity, and with status, fill and remaining quantity of the last acknowledgement
  for its number, or as submitted when there is none. \<^verbatim>\<open>/api/stats\<close> answers with the number of the last order or
  cancel and with how many there are.
\<close>
theorem history_latest_reports:
  assumes "map ev_seq_num hist = map of_nat [1..<Suc (length hist)]" and "length hist < 2 ^ 63"
    and "history_limit params = Some limit" and "0 \<le> limit"
  shows "\<exists>rows m. do_GET ui (Tables (run_tables wall hist as)) ''/api/history'' params = Get_history rows \<and> limit \<le> 500 \<and>
    list_all2 (shows_event as) (take (nat limit) (rev (new_orders hist))) rows \<and>
    do_GET ui (Tables (run_tables wall hist as)) ''/api/stats'' params = Get_stats m (length (filter is_request hist)) \<and>
    (if filter is_request hist = [] then m = 0 else m = uint (ev_seq_num (last (filter is_request hist))))"
proof -
  have num: "numbered hist"
    using assms(1) by (simp add: numbered_def)
  have entry: "shows_event as ev (history_entry (order_row ev, latest_report (exec_rows wall 0 as) (order_row ev ! 0)))" if "ev \<in> set hist" for ev
  proof -
    obtain n where "0 < n" "n \<le> length hist" "ev_seq_num ev = of_nat n"
      using event_number [OF num \<open>ev \<in> set hist\<close>] .
    with assms(2) show ?thesis
      by (intro history_entry_shows [of n]) simp_all
  qed
  have "set (take (nat limit) (rev (new_orders hist))) \<subseteq> set hist"
    using set_take_subset [of "nat limit" "rev (new_orders hist)"] by (auto simp: new_orders_def)
  with entry have "list_all2 (shows_event as) (take (nat limit) (rev (new_orders hist)))
      (map (\<lambda>ev. history_entry (order_row ev, latest_report (exec_rows wall 0 as) (order_row ev ! 0))) (take (nat limit) (rev (new_orders hist))))"
    by (auto simp: list_all2_map2 list_all2_same)
  moreover have "limit \<le> 500"
    using assms(3) by (auto simp: history_limit_def)
  moreover have "query_stats (Tables (run_tables wall hist as)) =
      Inr (if filter is_request hist = [] then 0 else uint (ev_seq_num (last (filter is_request hist))), length (filter is_request hist))"
    using last_number [OF num assms(2)] by (auto simp: query_stats_def run_tables_def run_orders(1) [OF num assms(2)] image_image)
  ultimately show ?thesis
    using assms(3) by (simp add: do_GET_def query_history_def history_query [OF num assms(2,4)] comp_def)
qed

text \<open>One order that was filled.\<close>

definition demo_first :: SequencedEvent where
  "demo_first = \<lparr>ev_seq_num = 1, ev_ingress_ts_ns = 0, ev_sequence_ts_ns = 5, ev_type = Ev_NewOrder, ev_producer = Gateway, ev_session_id = 7,
     ev_client_order_id = 10, ev_side = Sell, ev_price = 100, ev_quantity = 3\<rparr>"

definition demo_report :: "u64 \<Rightarrow> ExecStatus \<Rightarrow> OutboundAck" where
  "demo_report coid st = \<lparr>ack_session_id = 7, ack_client_order_id = coid, ack_exchange_order_id = 1, ack_status = st, ack_fill_price = 100,
     ack_fill_quantity = 3, ack_leaves_quantity = 0\<rparr>"

lemma default_limit: "history_limit [] = Some 50"
  by code_simp

theorem history_latest_reports_witness:
  "\<exists>h. do_GET (\<lambda>f. None) (Tables (run_tables (\<lambda>n. n) [demo_first] [demo_report 10 Accepted, demo_report 10 Filled])) ''/api/history'' [] = Get_history [h] \<and>
    hr_seq_num h = 1 \<and> hr_status h = ''Filled'' \<and> hr_side h = ''sell'' \<and> hr_fill_quantity h = 3"
proof -
  have hist: "map ev_seq_num [demo_first] = map of_nat [1..<Suc (length [demo_first])]" "length [demo_first] < 2 ^ 63"
    by (simp_all add: demo_first_def)
  let ?as = "[demo_report 10 Accepted, demo_report 10 Filled]"
  let ?get = "do_GET (\<lambda>f. None) (Tables (run_tables (\<lambda>n. n) [demo_first] ?as)) ''/api/history'' []"
  have news: "take (nat 50) (rev (new_orders [demo_first])) = [demo_first]"
    by (simp add: new_orders_def demo_first_def)
  have "(0 :: int) \<le> 50"
    by simp
  from history_latest_reports [OF hist default_limit this, of "\<lambda>f. None" "\<lambda>n. n" ?as, unfolded news] obtain rows where
    rows: "?get = Get_history rows" "list_all2 (shows_event ?as) [demo_first] rows"
    by (elim exE conjE) (rule that)
  from rows(2) obtain h where h: "rows = [h]" "shows_event ?as demo_first h"
    unfolding list_all2_Cons1 by (elim exE conjE) simp
  have "last_ack ?as (ev_seq_num demo_first) = Some (demo_report 10 Filled)"
    by (simp add: last_ack_def demo_first_def demo_report_def)
  with h(2) have "hr_seq_num h = 1" "hr_status h = ''Filled''" "hr_side h = ''sell''" "hr_fill_quantity h = 3"
    by (simp_all add: shows_event_def) (simp_all add: demo_first_def demo_report_def side_text_def SIDE_NAME_def)
  with rows(1) h(1) show ?thesis by blast
qed

section \<open>After a restart\<close>

text \<open>
  The numbers start again with the gateway. The order of a second run finds its key taken and is not stored, its report
  is: the history shows it on the order of the first run, whatever the two orders are.
\<close>

lemma restart_mixes_runs:
  assumes "ev_seq_num ev = 1"
  shows "query_history (Tables (order_rows [ev] (order_rows [demo_first] []), exec_rows wall 0 [demo_report 10 Filled, demo_report 99 Rejected])) 50 =
    Inr [history_entry (order_row demo_first, Some (exec_row (wall 1) (demo_report 99 Rejected)))]"
proof -
  have row: "order_row demo_first ! 0 = 1" "order_row demo_first ! 2 = 1" "hd (order_row demo_first) = 1"
    by (simp_all add: order_row_def demo_first_def)
  have "order_rows [demo_first] [] = [order_row demo_first]"
    by (simp add: order_rows_def keyed_insert_def is_request_def demo_first_def)
  moreover have "order_rows [ev] [order_row demo_first] = [order_row demo_first]"
    using assms row(3) by (simp add: order_rows_def keyed_insert_def) (simp add: order_row_def)
  moreover have "exec_row w (demo_report coid st) ! 3 = 1" for w coid st
    by (simp add: exec_row_def demo_report_def)
  then have "latest_report (exec_rows wall 0 [demo_report 10 Filled, demo_report 99 Rejected]) 1 = Some (exec_row (wall 1) (demo_report 99 Rejected))"
    by (simp add: latest_report_def)
  ultimately show ?thesis
    by (simp add: query_history_def HISTORY_QUERY_def sql_limit_def row)
qed

text \<open>A negative limit in the request asks for the whole table.\<close>

lemma negative_limit_unbounded:
  "history_limit [(''limit'', [''-1''])] = Some (- 1) \<and> length (HISTORY_QUERY (- 1) T) = length (filter (\<lambda>r. r ! 2 = 1) (fst T))"
proof
  show "history_limit [(''limit'', [''-1''])] = Some (- 1)"
    by code_simp
qed (simp add: HISTORY_QUERY_def sql_limit_def split_beta)

lemma bad_limit_raises: "do_GET ui db ''/api/history'' [(''limit'', [''all''])] = Get_raised Value_error"
proof -
  have "history_limit [(''limit'', [''all''])] = None"
    by code_simp
  then show ?thesis
    by (simp add: do_GET_def)
qed

end
