(* ===== verification/Market_Maker.thy ===== *)
theory Market_Maker
  imports Book_Properties
begin

text \<open>
  The market-making strategy of \<^verbatim>\<open>include/strategy.hpp\<close>. Prices are \<^verbatim>\<open>int64_t\<close>: every sum
  or difference outside its range is undefined behaviour in the source and \<^const>\<open>None\<close> here.
  The theory shows, over the interface of the order book, what a requoting tick does to
  the book and that the strategy never trades with its own quotes or anyone else's.
\<close>

section \<open>The strategy\<close>

record MarketMaker =
  half_spread :: Price
  quote_size :: Qty
  requote_threshold :: Price
  quoting :: bool
  last_mid :: Price
  my_bid_id :: OrderId
  my_ask_id :: OrderId

definition market_maker_init :: "Price \<Rightarrow> Qty \<Rightarrow> Price \<Rightarrow> MarketMaker" where
  "market_maker_init hs qs th = \<lparr>half_spread = hs, quote_size = qs, requote_threshold = th, quoting = False,
     last_mid = 0, my_bid_id = 0, my_ask_id = 0\<rparr>"

text \<open>Integer division by two, rounding towards zero.\<close>

definition half :: "int \<Rightarrow> int" where
  "half x = (if 0 \<le> x then x div 2 else - (- x div 2))"

definition checked :: "int \<Rightarrow> int option" where
  "checked x = (if i64_range x then Some x else None)"

text \<open>The mid price and how far it moved, when both sides have a best price.\<close>

definition mid_move :: "MarketMaker \<Rightarrow> Price \<Rightarrow> Price \<Rightarrow> (Price \<times> Price) option" where
  "mid_move mm bid_px ask_px =
     (case checked (bid_px + ask_px) of
        None \<Rightarrow> None
      | Some both \<Rightarrow>
          let mid = half both
          in case checked (mid - last_mid mm) of
               None \<Rightarrow> None
             | Some delta \<Rightarrow>
                 if delta < 0 then map_option (Pair mid) (checked (- delta)) else Some (mid, delta))"

definition pull_quotes :: "MarketMaker \<Rightarrow> book \<Rightarrow> book option" where
  "pull_quotes mm b =
     (if quoting mm then
        (case cancel b (my_bid_id mm) of
           None \<Rightarrow> None
         | Some (_, b1) \<Rightarrow> map_option snd (cancel b1 (my_ask_id mm)))
      else Some b)"

definition place_quotes :: "MarketMaker \<Rightarrow> Price \<Rightarrow> book \<Rightarrow> OrderId \<Rightarrow> Nanos \<Rightarrow> Trade list
    \<Rightarrow> (MarketMaker \<times> book \<times> OrderId \<times> Trade list) option" where
  "place_quotes mm mid b next_id ts trades =
     (let bid_id = next_id; ask_id = next_id + 1
      in case (checked (mid - half_spread mm), checked (mid + half_spread mm)) of
           (Some bid_px, Some ask_px) \<Rightarrow>
             (case add_limit_order b bid_id Buy bid_px (quote_size mm) ts trades of
                None \<Rightarrow> None
              | Some (b1, trades1) \<Rightarrow>
                  (case add_limit_order b1 ask_id Sell ask_px (quote_size mm) ts trades1 of
                     None \<Rightarrow> None
                   | Some (b2, trades2) \<Rightarrow>
                       Some (mm\<lparr>my_bid_id := bid_id, my_ask_id := ask_id, last_mid := mid, quoting := True\<rparr>,
                             b2, next_id + 2, trades2)))
         | _ \<Rightarrow> None)"

definition on_tick :: "MarketMaker \<Rightarrow> book \<Rightarrow> OrderId \<Rightarrow> Nanos \<Rightarrow> Trade list
    \<Rightarrow> (MarketMaker \<times> book \<times> OrderId \<times> Trade list) option" where
  "on_tick mm b next_id ts trades =
     (case (best_bid b, best_ask b) of
        (Some (Some (bid_px, _)), Some (Some (ask_px, _))) \<Rightarrow>
          (case mid_move mm bid_px ask_px of
             None \<Rightarrow> None
           | Some (mid, delta) \<Rightarrow>
               if quoting mm \<and> delta < requote_threshold mm then Some (mm, b, next_id, trades)
               else (case pull_quotes mm b of
                       None \<Rightarrow> None
                     | Some b' \<Rightarrow> place_quotes mm mid b' next_id ts trades))
      | (None, _) \<Rightarrow> None
      | (_, None) \<Rightarrow> None
      | _ \<Rightarrow> Some (mm, b, next_id, trades))"

section \<open>Orders that do not cross\<close>

lemma fill_list_passive:
  "\<forall>r \<in> set rs. \<not> cr (ord_price r) \<Longrightarrow> fill_list cr q rs = (rs, q, [])"
  by (cases rs) simp_all

lemma spec_add_passive:
  assumes "\<forall>r \<in> set (other_side side a). \<not> acceptable side price (ord_price r)"
    and "qty \<noteq> 0" and "length (a_orders a) < a_cap a"
  shows "snd (spec_add a oid side price qty ts) = []"
    and "other_side side (fst (spec_add a oid side price qty ts)) = other_side side a"
    and "own_side side (fst (spec_add a oid side price qty ts)) = prio_insert (side_before side)
      \<lparr>ord_id = oid, ord_side = side, ord_price = price, ord_qty = qty, ord_ts_ns = ts\<rparr> (own_side side a)"
proof -
  obtain rs' q' fs where fl: "fill_list (acceptable side price) qty (other_side side a) = (rs', q', fs)"
    and s: "snd (spec_add a oid side price qty ts) = fill_trades oid side ts fs"
      "other_side side (fst (spec_add a oid side price qty ts)) = rs'"
      "own_side side (fst (spec_add a oid side price qty ts)) =
      (if q' \<noteq> 0 \<and> length (own_side side a) + length rs' < a_cap a
       then prio_insert (side_before side)
         \<lparr>ord_id = oid, ord_side = side, ord_price = price, ord_qty = q', ord_ts_ns = ts\<rparr> (own_side side a)
       else own_side side a)"
    by (rule spec_add_fill)
  have "rs' = other_side side a" "q' = qty" "fs = []"
    using fill_list_passive [of "other_side side a" "acceptable side price" qty, OF assms(1)] fl by simp_all
  moreover have "length (own_side side a) + length (other_side side a) = length (a_orders a)"
    by (simp add: own_side_def other_side_def a_orders_def)
  ultimately show "snd (spec_add a oid side price qty ts) = []"
    "other_side side (fst (spec_add a oid side price qty ts)) = other_side side a"
    "own_side side (fst (spec_add a oid side price qty ts)) = prio_insert (side_before side)
      \<lparr>ord_id = oid, ord_side = side, ord_price = price, ord_qty = qty, ord_ts_ns = ts\<rparr> (own_side side a)"
    using assms(2,3) unfolding s by (simp_all add: fill_trades_def)
qed

lemma a_cap_ops [simp]: "a_cap (fst (spec_add a oid side price qty ts)) = a_cap a" "a_cap (snd (spec_cancel a oid)) = a_cap a"
  by (simp_all add: spec_add_def spec_cancel_def split_beta Let_def)

section \<open>One tick\<close>

definition my_orders :: "MarketMaker \<Rightarrow> OrderId set" where
  "my_orders mm = (if quoting mm then {my_bid_id mm, my_ask_id mm} else {})"

definition quote :: "OrderId \<Rightarrow> Side \<Rightarrow> Price \<Rightarrow> Qty \<Rightarrow> Nanos \<Rightarrow> Order" where
  "quote oid side px q ts = \<lparr>ord_id = oid, ord_side = side, ord_price = px, ord_qty = q, ord_ts_ns = ts\<rparr>"

lemma pull_quotes_book:
  assumes "book_inv b"
  shows "\<exists>b'. pull_quotes mm b = Some b' \<and> book_inv b' \<and> a_cap (abs_book b') = a_cap (abs_book b) \<and>
    a_bids (abs_book b') = filter (\<lambda>r. ord_id r \<notin> my_orders mm) (a_bids (abs_book b)) \<and>
    a_asks (abs_book b') = filter (\<lambda>r. ord_id r \<notin> my_orders mm) (a_asks (abs_book b))"
proof (cases "quoting mm")
  case True
  from lb.cancel_law [OF assms, of "my_bid_id mm"] obtain b1 where b1:
    "cancel b (my_bid_id mm) = Some (fst (spec_cancel (abs_book b) (my_bid_id mm)), b1)" "book_inv b1"
    "abs_book b1 = snd (spec_cancel (abs_book b) (my_bid_id mm))"
    by blast
  from lb.cancel_law [OF b1(2), of "my_ask_id mm"] obtain b2 where b2:
    "cancel b1 (my_ask_id mm) = Some (fst (spec_cancel (abs_book b1) (my_ask_id mm)), b2)" "book_inv b2"
    "abs_book b2 = snd (spec_cancel (abs_book b1) (my_ask_id mm))"
    by blast
  have sel: "(\<lambda>r. ord_id r \<notin> my_orders mm) = (\<lambda>r. ord_id r \<noteq> my_bid_id mm \<and> ord_id r \<noteq> my_ask_id mm)"
    using True by (auto simp: my_orders_def)
  show ?thesis
    using True b1 b2 by (simp add: pull_quotes_def spec_cancel_def sel conj_commute)
next
  case False
  with assms show ?thesis by (simp add: pull_quotes_def my_orders_def)
qed

lemma place_quotes_book:
  fixes mm mid next_id ts
  defines "qb \<equiv> quote next_id Buy (mid - half_spread mm) (quote_size mm) ts"
    and "qa \<equiv> quote (next_id + 1) Sell (mid + half_spread mm) (quote_size mm) ts"
  assumes inv: "book_inv b" and fresh: "next_id \<notin> a_ids (abs_book b)" "next_id + 1 \<notin> a_ids (abs_book b)"
    and room: "Suc (length (a_orders (abs_book b))) < a_cap (abs_book b)" and "quote_size mm \<noteq> 0"
    and "0 < half_spread mm" and "i64_range (mid - half_spread mm)" and "i64_range (mid + half_spread mm)"
    and asks: "\<forall>r \<in> set (a_asks (abs_book b)). mid - half_spread mm < ord_price r"
    and bids: "\<forall>r \<in> set (a_bids (abs_book b)). ord_price r < mid + half_spread mm"
  shows "\<exists>b'. place_quotes mm mid b next_id ts trs =
      Some (mm\<lparr>my_bid_id := next_id, my_ask_id := next_id + 1, last_mid := mid, quoting := True\<rparr>, b', next_id + 2, trs) \<and>
    book_inv b' \<and> set (a_bids (abs_book b')) = insert qb (set (a_bids (abs_book b))) \<and>
    set (a_asks (abs_book b')) = insert qa (set (a_asks (abs_book b)))"
proof -
  let ?a = "abs_book b" and ?bp = "mid - half_spread mm" and ?ap = "mid + half_spread mm"
  note pass = spec_add_passive [where side = Buy and a = ?a and price = ?bp and qty = "quote_size mm" and oid = next_id and ts = ts]
  from lb.add_law [OF inv fresh(1), of Buy ?bp "quote_size mm" ts trs] obtain b1 where b1:
    "add_limit_order b next_id Buy ?bp (quote_size mm) ts trs = Some (b1, trs @ snd (spec_add ?a next_id Buy ?bp (quote_size mm) ts))"
    "book_inv b1" "abs_book b1 = fst (spec_add ?a next_id Buy ?bp (quote_size mm) ts)"
    by blast
  have 1: "snd (spec_add ?a next_id Buy ?bp (quote_size mm) ts) = []" "a_asks (abs_book b1) = a_asks ?a"
    "a_bids (abs_book b1) = prio_insert (side_before Buy) qb (a_bids ?a)"
    using pass asks room assms(7) by (fastforce simp: other_side_def own_side_def acceptable_def b1(3) qb_def quote_def)+
  let ?a1 = "abs_book b1"
  note pass1 = spec_add_passive [where side = Sell and a = ?a1 and price = ?ap and qty = "quote_size mm" and oid = "next_id + 1" and ts = ts]
  have "next_id + 1 \<notin> a_ids ?a1"
    using fresh(2) 1 by (auto simp: a_ids_def a_orders_def qb_def quote_def)
  from lb.add_law [OF b1(2) this, of Sell ?ap "quote_size mm" ts trs] obtain b2 where b2:
    "add_limit_order b1 (next_id + 1) Sell ?ap (quote_size mm) ts trs =
       Some (b2, trs @ snd (spec_add ?a1 (next_id + 1) Sell ?ap (quote_size mm) ts))"
    "book_inv b2" "abs_book b2 = fst (spec_add ?a1 (next_id + 1) Sell ?ap (quote_size mm) ts)"
    by blast
  have "\<forall>r \<in> set (a_bids ?a1). ord_price r < ?ap"
    using bids 1(3) assms(8) by (auto simp: qb_def quote_def)
  moreover have "length (a_orders ?a1) < a_cap ?a1"
    using room 1 by (simp add: a_orders_def b1(3))
  ultimately have 2: "snd (spec_add ?a1 (next_id + 1) Sell ?ap (quote_size mm) ts) = []" "a_bids (abs_book b2) = a_bids ?a1"
    "a_asks (abs_book b2) = prio_insert (side_before Sell) qa (a_asks ?a1)"
    using pass1 assms(7) by (fastforce simp: other_side_def own_side_def acceptable_def b2(3) qa_def quote_def)+
  show ?thesis
    using b1 b2 1 2 assms(9,10) by (simp add: place_quotes_def checked_def Let_def)
qed

lemma half_bounds: "a < b \<Longrightarrow> a \<le> half (a + b) \<and> half (a + b) \<le> b" for a b :: int
  by (auto simp: half_def)

lemma sorted_wrt_remdups: "sorted_wrt P xs \<Longrightarrow> sorted_wrt P (remdups xs)"
  by (induction xs) auto

lemma level_rows_best:
  assumes "prio_sorted before rs" and "level_rows rs = (px, q) # rows" and "\<not> before px px"
  shows "\<forall>r \<in> set rs. \<not> before (ord_price r) px"
proof -
  have "sorted_wrt (\<lambda>p q. \<not> before q p) (map ord_price rs)"
    using assms(1) by (simp add: prio_sorted_def sorted_wrt_map)
  then have s: "sorted_wrt (\<lambda>p q. \<not> before q p) (remdups (map ord_price rs))"
    by (rule sorted_wrt_remdups)
  obtain ps where ps: "remdups (map ord_price rs) = px # ps"
    using assms(2) by (auto simp: level_rows_def)
  then have "ord_price ` set rs = insert px (set ps)"
    by (metis list.simps(15) set_map set_remdups)
  then show ?thesis
    using s assms(3) unfolding ps by fastforce
qed

lemma book_top:
  assumes "book_inv b" and "best_bid b = Some (Some (bp, bq))" and "best_ask b = Some (Some (ap, aq))"
  shows "bp < ap" and "\<forall>r \<in> set (a_bids (abs_book b)). ord_price r \<le> bp" and "\<forall>r \<in> set (a_asks (abs_book b)). ap \<le> ord_price r"
proof -
  have inv: "abook_inv (abs_book b)"
    using assms(1) by (rule lb.inv_abs)
  show "bp < ap"
    using assms by (rule lb.top_uncrossed)
  obtain rows where "level_rows (a_bids (abs_book b)) = (bp, bq) # rows"
    using assms(2) lb.top_bid_law [OF assms(1)] by (auto split: list.splits)
  from level_rows_best [OF _ this, of bid_before] inv show "\<forall>r \<in> set (a_bids (abs_book b)). ord_price r \<le> bp"
    by (auto simp: abook_inv_def bid_before_def not_less)
  obtain rows' where "level_rows (a_asks (abs_book b)) = (ap, aq) # rows'"
    using assms(3) lb.top_ask_law [OF assms(1)] by (auto split: list.splits)
  from level_rows_best [OF _ this, of ask_before] inv show "\<forall>r \<in> set (a_asks (abs_book b)). ap \<le> ord_price r"
    by (auto simp: abook_inv_def ask_before_def not_less)
qed

definition sane :: "int \<Rightarrow> bool" where
  "sane x \<longleftrightarrow> - (2 ^ 60) < x \<and> x < 2 ^ 60"

text \<open>
  (C33) A requoting tick. When both sides have a price and the mid moved far enough (or the
  strategy is not quoting yet), the strategy replaces its two orders: afterwards the book
  holds everybody else's orders unchanged plus one bid and one ask of the strategy, one
  half-spread away from the mid, and no trade happened. Prices of ordinary size, two fresh ids
  and two free pool slots are assumed.
\<close>
theorem on_tick_requotes:
  assumes "book_inv b" and "best_bid b = Some (Some (bp, bq))" and "best_ask b = Some (Some (ap, aq))"
    and "\<not> quoting mm \<or> requote_threshold mm \<le> \<bar>half (bp + ap) - last_mid mm\<bar>"
    and "0 < half_spread mm" and "quote_size mm \<noteq> 0"
    and "sane bp" and "sane ap" and "sane (half_spread mm)" and "sane (last_mid mm)"
    and "next_id \<notin> a_ids (abs_book b)" and "next_id + 1 \<notin> a_ids (abs_book b)"
    and "length (a_orders (abs_book b)) + 2 \<le> a_cap (abs_book b)"
  defines "mid \<equiv> half (bp + ap)"
  shows "\<exists>b'. on_tick mm b next_id ts trs =
      Some (mm\<lparr>my_bid_id := next_id, my_ask_id := next_id + 1, last_mid := mid, quoting := True\<rparr>, b', next_id + 2, trs) \<and>
    book_inv b' \<and> set (a_orders (abs_book b')) = {r \<in> set (a_orders (abs_book b)). ord_id r \<notin> my_orders mm} \<union>
      {quote next_id Buy (mid - half_spread mm) (quote_size mm) ts, quote (next_id + 1) Sell (mid + half_spread mm) (quote_size mm) ts}"
proof -
  note top = book_top [OF assms(1-3)]
  have mid: "bp \<le> mid" "mid \<le> ap"
    using half_bounds [OF top(1)] by (simp_all add: mid_def)
  have range: "i64_range (bp + ap)" "i64_range (mid - last_mid mm)" "i64_range (- (mid - last_mid mm))"
    "i64_range (mid - half_spread mm)" "i64_range (mid + half_spread mm)"
    using mid assms(7-10) unfolding i64_range_def sane_def by auto
  then have move: "mid_move mm bp ap = Some (mid, \<bar>mid - last_mid mm\<bar>)"
    by (simp add: mid_move_def checked_def Let_def mid_def)
  from pull_quotes_book [OF assms(1), of mm] obtain b1 where b1: "pull_quotes mm b = Some b1" "book_inv b1"
    "a_cap (abs_book b1) = a_cap (abs_book b)"
    "a_bids (abs_book b1) = filter (\<lambda>r. ord_id r \<notin> my_orders mm) (a_bids (abs_book b))"
    "a_asks (abs_book b1) = filter (\<lambda>r. ord_id r \<notin> my_orders mm) (a_asks (abs_book b))"
    by blast
  have "length (a_orders (abs_book b1)) \<le> length (a_orders (abs_book b))"
    unfolding a_orders_def b1(4,5) by (simp add: add_mono)
  then have room: "Suc (length (a_orders (abs_book b1))) < a_cap (abs_book b1)"
    using assms(13) b1(3) by simp
  have fresh: "next_id \<notin> a_ids (abs_book b1)" "next_id + 1 \<notin> a_ids (abs_book b1)"
    using assms(11,12) by (auto simp: a_ids_def a_orders_def b1(4,5))
  have "\<forall>r \<in> set (a_asks (abs_book b1)). mid - half_spread mm < ord_price r"
    "\<forall>r \<in> set (a_bids (abs_book b1)). ord_price r < mid + half_spread mm"
    using top(2,3) mid assms(5) by (fastforce simp: b1(4,5))+
  from place_quotes_book [OF b1(2) fresh room assms(6,5) range(4,5) this, of ts trs] obtain b2 where
    "place_quotes mm mid b1 next_id ts trs =
      Some (mm\<lparr>my_bid_id := next_id, my_ask_id := next_id + 1, last_mid := mid, quoting := True\<rparr>, b2, next_id + 2, trs)"
    "book_inv b2"
    "set (a_bids (abs_book b2)) = insert (quote next_id Buy (mid - half_spread mm) (quote_size mm) ts) (set (a_bids (abs_book b1)))"
    "set (a_asks (abs_book b2)) = insert (quote (next_id + 1) Sell (mid + half_spread mm) (quote_size mm) ts) (set (a_asks (abs_book b1)))"
    by blast
  then show ?thesis
    using assms(4) by (auto simp: on_tick_def assms(2,3) move b1(1) a_orders_def b1(4,5) mid_def)
qed

definition quoted_book :: book where
  "quoted_book = fst (the (fold_opt (client_op add_limit_order cancel) [Op_add 1 Sell 106 5 10, Op_add 2 Buy 100 4 12] (book_init 8, [])))"

lemma quoted_book:
  "book_inv quoted_book"
  "abs_book quoted_book = \<lparr>a_bids = [quote 2 Buy 100 4 12], a_asks = [quote 1 Sell 106 5 10], a_cap = 8\<rparr>"
proof -
  let ?ops = "[Op_add 1 Sell 106 5 10, Op_add 2 Buy 100 4 12]"
  have init: "book_inv (book_init 8)" "abs_book (book_init 8) = \<lparr>a_bids = [], a_asks = [], a_cap = 8\<rparr>"
    by (rule book_inv_init; simp)+
  obtain b trs where run: "fold_opt (client_op add_limit_order cancel) ?ops (book_init 8, []) = Some (b, trs)"
    and b: "book_inv b" "(abs_book b, trs) = fold spec_op ?ops (abs_book (book_init 8), [])"
    using lb.run_refines [OF init(1), of "{}" ?ops "[]"] init(2) by auto
  have "fold spec_op ?ops (\<lparr>a_bids = [], a_asks = [], a_cap = 8\<rparr>, []) =
      (\<lparr>a_bids = [quote 2 Buy 100 4 12], a_asks = [quote 1 Sell 106 5 10], a_cap = 8\<rparr>, [])"
    by code_simp
  with run b init(2) show "book_inv quoted_book"
    "abs_book quoted_book = \<lparr>a_bids = [quote 2 Buy 100 4 12], a_asks = [quote 1 Sell 106 5 10], a_cap = 8\<rparr>"
    by (simp_all add: quoted_book_def)
qed

theorem on_tick_requotes_witness:
  "\<exists>b'. on_tick (market_maker_init 3 10 2) quoted_book 50 9 [] =
      Some ((market_maker_init 3 10 2)\<lparr>my_bid_id := 50, my_ask_id := 51, last_mid := 103, quoting := True\<rparr>, b', 52, []) \<and>
    book_inv b' \<and> quote 50 Buy 100 10 9 \<in> set (a_orders (abs_book b'))"
proof -
  have "best_bid quoted_book = Some (Some (100, 4))" "best_ask quoted_book = Some (Some (106, 5))"
    using lb.top_bid_law [OF quoted_book(1)] lb.top_ask_law [OF quoted_book(1)]
    by (simp_all add: quoted_book(2) level_rows_def qty_at_def quote_def)
  from on_tick_requotes [OF quoted_book(1) this, of "market_maker_init 3 10 2" 50 9 "[]"] show ?thesis
    by (auto simp: quoted_book(2) a_ids_def a_orders_def quote_def market_maker_init_def sane_def half_def)
qed

end
