(* ===== verification/Latency_Histogram.thy ===== *)
theory Latency_Histogram
  imports Double "HOL-Library.Multiset"
begin

text \<open>
  The log-linear latency histogram of \<^verbatim>\<open>include/latency_histogram.hpp\<close>. Samples and counters
  are 64-bit words; the mean and the target rank of a percentile are computed with \<^verbatim>\<open>double\<close>. The theory shows that no
  sample indexes outside the table, that the rank is off by at most one, that a percentile is the sample of that rank up to one
  part in \<^verbatim>\<open>sub_bucket_count\<close>, and that the mean is the exact one rounded once.
\<close>

section \<open>The histogram\<close>

record LatencyHistogram =
  sub_bucket_bits :: nat
  counts :: "u64 list"
  total_count :: u64
  sum_ns :: u64
  min_ns :: u64
  max_ns :: u64

lemma unat_half: "unat (drop_bit 1 (v :: u64)) = unat v div 2"
  by (subst unat_drop_bit_eq) (simp add: drop_bit_eq_div)

lemma drop_bit_one_less:
  assumes "drop_bit 1 (v :: u64) \<noteq> 0"
  shows "unat (drop_bit 1 v) < unat v"
proof -
  have "unat (drop_bit 1 v) \<noteq> 0"
    using assms by (simp only: unat_eq_zero not_False_eq_True)
  then show ?thesis
    unfolding unat_half by auto
qed

function highest_bit :: "u64 \<Rightarrow> nat" where
  "highest_bit v = (let v' = drop_bit 1 v in if v' = 0 then 0 else Suc (highest_bit v'))"
  by pat_completeness auto

termination
  by (relation "measure unat") (auto simp del: One_nat_def intro: drop_bit_one_less)

declare highest_bit.simps [simp del]

definition sub_bucket_count :: "LatencyHistogram \<Rightarrow> nat" where
  "sub_bucket_count h = 2 ^ sub_bucket_bits h"

definition histogram_init :: "u64 \<Rightarrow> nat \<Rightarrow> LatencyHistogram" where
  "histogram_init max_value_ns bits = \<lparr>sub_bucket_bits = bits, counts = replicate ((highest_bit max_value_ns + 2) * 2 ^ bits) 0,
     total_count = 0, sum_ns = 0, min_ns = - 1, max_ns = 0\<rparr>"

definition index_for :: "LatencyHistogram \<Rightarrow> u64 \<Rightarrow> nat" where
  "index_for h v =
     (if v = 0 then 0
      else let octave = highest_bit v;
               base = push_bit octave 1;
               offset = v - base;
               sub = take_bit 32 (unat (if sub_bucket_bits h \<le> octave then drop_bit (octave - sub_bucket_bits h) offset else offset));
               idx = octave * sub_bucket_count h + min sub (sub_bucket_count h - 1)
           in min idx (length (counts h) - 1))"

definition value_for_index :: "LatencyHistogram \<Rightarrow> nat \<Rightarrow> u64" where
  "value_for_index h idx =
     (let octave = idx div sub_bucket_count h;
          sub = idx mod sub_bucket_count h;
          base = push_bit octave 1;
          width = (if sub_bucket_bits h \<le> octave then push_bit (octave - sub_bucket_bits h) 1 else 1)
      in base + of_nat sub * width)"

text \<open>An access outside \<^verbatim>\<open>counts_\<close> would be undefined and is \<^const>\<open>None\<close>.\<close>

definition hist_record :: "u64 \<Rightarrow> LatencyHistogram \<Rightarrow> LatencyHistogram option" where
  "hist_record v h =
     (let i = index_for h v
      in if length (counts h) \<le> i then None
         else Some (h\<lparr>total_count := total_count h + 1, sum_ns := sum_ns h + v, min_ns := min (min_ns h) v,
                      max_ns := max (max_ns h) v, counts := (counts h)[i := counts h ! i + 1]\<rparr>))"

definition hist_min :: "LatencyHistogram \<Rightarrow> u64" where
  "hist_min h = (if total_count h \<noteq> 0 then min_ns h else 0)"

fun scan_counts :: "u64 list \<Rightarrow> nat \<Rightarrow> u64 \<Rightarrow> u64 \<Rightarrow> nat option" where
  "scan_counts [] i running target = None"
| "scan_counts (c # cs) i running target =
     (if target \<le> running + c then Some i else scan_counts cs (Suc i) (running + c) target)"

text \<open>The percentage is a double; the cast of the rank would be undefined if it did not fit.\<close>

definition target_rank :: "rat \<Rightarrow> u64 \<Rightarrow> u64 option" where
  "target_rank p n = u64_of (of_int \<lceil>dbl (dbl (p / 100) * double_of n)\<rceil>)"

definition percentile :: "rat \<Rightarrow> LatencyHistogram \<Rightarrow> u64 option" where
  "percentile p h =
     (if total_count h = 0 then Some 0
      else case target_rank p (total_count h) of
             None \<Rightarrow> None
           | Some t \<Rightarrow>
               Some (case scan_counts (counts h) 0 0 (max 1 t) of Some i \<Rightarrow> value_for_index h i | None \<Rightarrow> max_ns h))"

definition hist_mean :: "LatencyHistogram \<Rightarrow> rat" where
  "hist_mean h = (if total_count h \<noteq> 0 then dbl (double_of (sum_ns h) / double_of (total_count h)) else 0)"

section \<open>Buckets\<close>

lemma highest_bit_bounds:
  "v \<noteq> 0 \<Longrightarrow> 2 ^ highest_bit v \<le> unat v \<and> unat v < 2 ^ Suc (highest_bit v)"
proof (induction v rule: highest_bit.induct)
  case (1 v)
  show ?case
  proof (cases "drop_bit 1 v = 0")
    case True
    then have "unat v div 2 = 0"
      by (simp only: unat_half [symmetric] unsigned_0)
    moreover have "0 < unat v"
      using 1(2) by (simp add: word_gt_0_unat [symmetric] word_neq_0_conv)
    moreover have "highest_bit v = 0"
      using True by (subst highest_bit.simps) (simp only: Let_def simp_thms if_True)
    ultimately show ?thesis
      by simp
  next
    case False
    define k where "k = highest_bit (drop_bit 1 v)"
    have "highest_bit v = Suc k"
      unfolding k_def using False by (subst highest_bit.simps) (simp only: Let_def simp_thms if_False)
    moreover have "2 ^ k \<le> unat v div 2 \<and> unat v div 2 < 2 ^ Suc k"
      using 1(1) [OF refl False False] unfolding k_def unat_half .
    then have "2 * 2 ^ k \<le> unat v \<and> unat v < 2 * 2 ^ Suc k"
      by (auto simp: less_eq_div_iff_mult_less_eq div_less_iff_less_mult)
    ultimately show ?thesis
      by simp
  qed
qed

lemma highest_bit_less: "highest_bit v < 64"
proof (cases "v = 0")
  case True
  then show ?thesis by (simp add: highest_bit.simps)
next
  case False
  have "unat v < 2 ^ 64"
    by (rule order_less_le_trans [OF unsigned_less]) simp
  then have "2 ^ highest_bit v < (2 :: nat) ^ 64"
    using highest_bit_bounds [OF False] by linarith
  then show ?thesis
    by (rule power_less_imp_less_exp [rotated]) simp
qed

lemma highest_bit_mono:
  assumes "v \<noteq> 0" and "v \<le> w"
  shows "highest_bit v \<le> highest_bit w"
proof -
  have "w \<noteq> 0"
    using assms by auto
  then have "2 ^ highest_bit v < (2 :: nat) ^ Suc (highest_bit w)"
    using highest_bit_bounds [OF assms(1)] highest_bit_bounds [of w] assms(2) by (simp add: word_le_nat_alt)
  then have "highest_bit v < Suc (highest_bit w)"
    by (rule power_less_imp_less_exp [rotated]) simp
  then show ?thesis by simp
qed

lemma highest_bit_unique:
  assumes "2 ^ k \<le> unat v" and "unat v < 2 ^ Suc k"
  shows "highest_bit v = k"
proof -
  have "v \<noteq> 0"
    using assms(1) by auto
  note b = highest_bit_bounds [OF this]
  have "2 ^ highest_bit v < (2 :: nat) ^ Suc k" "2 ^ k < (2 :: nat) ^ Suc (highest_bit v)"
    using assms b by linarith+
  then have "highest_bit v < Suc k" "k < Suc (highest_bit v)"
    using power_less_imp_less_exp [of "2 :: nat" "highest_bit v" "Suc k"]
      power_less_imp_less_exp [of "2 :: nat" k "Suc (highest_bit v)"] by simp_all
  then show ?thesis by simp
qed

lemma u64_of_nat: "n < 2 ^ 64 \<Longrightarrow> unat (of_nat n :: u64) = n"
  by (simp only: unsigned_of_nat) (simp add: take_bit_nat_eq_self)

lemma unat_pow:
  assumes "k < 64"
  shows "unat (2 ^ k :: u64) = 2 ^ k"
proof -
  have "(2 :: nat) ^ k < 2 ^ 64"
    using assms by (rule power_strict_increasing) simp
  then have "unat (of_nat (2 ^ k) :: u64) = 2 ^ k"
    by (rule u64_of_nat)
  then show ?thesis by simp
qed

text \<open>The bucket of a sample: octave and linear slot, before clamping to the table.\<close>

definition slot_of :: "nat \<Rightarrow> u64 \<Rightarrow> nat" where
  "slot_of b v = (unat v - 2 ^ highest_bit v) div 2 ^ (highest_bit v - b)"

definition bucket_of :: "nat \<Rightarrow> u64 \<Rightarrow> nat" where
  "bucket_of b v = (if v = 0 then 0 else highest_bit v * 2 ^ b + slot_of b v)"

definition hist_ok :: "LatencyHistogram \<Rightarrow> bool" where
  "hist_ok h \<longleftrightarrow> sub_bucket_bits h \<le> 32 \<and> 2 ^ sub_bucket_bits h dvd length (counts h) \<and>
     0 < length (counts h) \<and> length (counts h) \<le> 64 * 2 ^ sub_bucket_bits h"

lemma slot_of_less:
  assumes "v \<noteq> 0"
  shows "slot_of b v < 2 ^ b"
proof -
  let ?o = "highest_bit v"
  have "unat v - 2 ^ ?o < 2 ^ ?o"
    using highest_bit_bounds [OF assms] by (auto simp: less_diff_conv2)
  also have "(2 :: nat) ^ ?o \<le> 2 ^ (b + (?o - b))"
    by (rule power_increasing) simp_all
  finally show ?thesis
    by (simp add: slot_of_def power_add less_mult_imp_div_less)
qed

lemma index_for_bucket:
  assumes "hist_ok h"
  shows "index_for h v = min (bucket_of (sub_bucket_bits h) v) (length (counts h) - 1)"
proof (cases "v = 0")
  case False
  let ?o = "highest_bit v" and ?b = "sub_bucket_bits h"
  have off: "unat (v - push_bit ?o 1) = unat v - 2 ^ ?o"
    using highest_bit_bounds [OF False] by (subst unat_sub) (simp_all add: word_le_nat_alt unat_pow highest_bit_less)
  have sub: "unat (if ?b \<le> ?o then drop_bit (?o - ?b) (v - push_bit ?o 1) else v - push_bit ?o 1) = slot_of ?b v"
  proof (cases "?b \<le> ?o")
    case True
    then show ?thesis
      by (simp only: if_True unat_drop_bit_eq off drop_bit_eq_div [of _ "_ :: nat"] slot_of_def)
  next
    case False
    then show ?thesis
      by (simp only: if_False off) (simp add: slot_of_def)
  qed
  have small: "slot_of ?b v < 2 ^ ?b"
    by (rule slot_of_less [OF False])
  also have "(2 :: nat) ^ ?b \<le> 2 ^ 32"
    using assms by (intro power_increasing) (simp_all add: hist_ok_def)
  finally have "take_bit 32 (slot_of ?b v) = slot_of ?b v"
    by (rule take_bit_nat_eq_self)
  then show ?thesis
    using False small unfolding index_for_def Let_def sub by (simp add: bucket_of_def sub_bucket_count_def)
qed (simp add: index_for_def bucket_of_def)

lemma index_for_in_range: "hist_ok h \<Longrightarrow> index_for h v < length (counts h)"
  by (simp add: index_for_bucket min_less_iff_disj) (simp add: hist_ok_def)

lemma bucket_of_mono:
  assumes "v \<le> w"
  shows "bucket_of b v \<le> bucket_of b w"
proof (cases "v = 0")
  case False
  with assms have w: "w \<noteq> 0" by auto
  show ?thesis
  proof (cases "highest_bit v = highest_bit w")
    case True
    have "slot_of b v \<le> slot_of b w"
      using assms by (simp add: slot_of_def True word_le_nat_alt div_le_mono diff_le_mono)
    with True False w show ?thesis by (simp add: bucket_of_def)
  next
    case neq: False
    then have "Suc (highest_bit v) * 2 ^ b \<le> highest_bit w * 2 ^ b"
      using highest_bit_mono [OF False assms] by (intro mult_le_mono1) simp
    with slot_of_less [OF False, of b] False w show ?thesis
      by (simp add: bucket_of_def)
  qed
qed (simp add: bucket_of_def)

lemma index_for_mono: "hist_ok h \<Longrightarrow> v \<le> w \<Longrightarrow> index_for h v \<le> index_for h w"
  using bucket_of_mono by (simp add: index_for_bucket min.coboundedI1)

text \<open>A bucket reports its lowest value, which is within one part in \<open>2 ^ b\<close> of the sample.\<close>

lemma value_of_bucket:
  assumes "v \<noteq> 0" and b: "b = sub_bucket_bits h"
  shows "unat (value_for_index h (bucket_of b v)) = 2 ^ highest_bit v + slot_of b v * 2 ^ (highest_bit v - b)"
proof -
  let ?o = "highest_bit v" and ?s = "slot_of b v"
  have s: "?s < 2 ^ b"
    by (rule slot_of_less [OF assms(1)])
  then have ix: "bucket_of b v div 2 ^ b = ?o" "bucket_of b v mod 2 ^ b = ?s"
    using assms(1) by (simp_all add: bucket_of_def)
  have "?s * 2 ^ (?o - b) \<le> unat v - 2 ^ ?o"
    by (simp add: slot_of_def)
  then have le: "2 ^ ?o + ?s * 2 ^ (?o - b) \<le> unat v"
    using highest_bit_bounds [OF assms(1)] by linarith
  have "unat v < 2 ^ 64"
    by (rule order_less_le_trans [OF unsigned_less]) simp
  then have "unat (of_nat (2 ^ ?o + ?s * 2 ^ (?o - b)) :: u64) = 2 ^ ?o + ?s * 2 ^ (?o - b)"
    using le by (intro u64_of_nat) simp
  moreover have "value_for_index h (bucket_of b v) = of_nat (2 ^ ?o + ?s * 2 ^ (?o - b))"
    by (simp add: value_for_index_def sub_bucket_count_def Let_def ix flip: b)
  ultimately show ?thesis by simp
qed

lemma value_of_bucket_close:
  assumes "v \<noteq> 0" and b: "b = sub_bucket_bits h"
  shows "unat (value_for_index h (bucket_of b v)) \<le> unat v"
    and "(unat v - unat (value_for_index h (bucket_of b v))) * 2 ^ b \<le> unat v"
proof -
  let ?o = "highest_bit v" and ?d = "unat v - 2 ^ highest_bit v"
  note o = highest_bit_bounds [OF assms(1)]
  note val = value_of_bucket [OF assms]
  have split: "?d = slot_of b v * 2 ^ (?o - b) + ?d mod 2 ^ (?o - b)"
    unfolding slot_of_def by (rule div_mult_mod_eq [symmetric])
  with o val show "unat (value_for_index h (bucket_of b v)) \<le> unat v"
    by linarith
  have err: "unat v - unat (value_for_index h (bucket_of b v)) = ?d mod 2 ^ (?o - b)"
    using split o val by linarith
  show "(unat v - unat (value_for_index h (bucket_of b v))) * 2 ^ b \<le> unat v"
  proof (cases "b \<le> ?o")
    case True
    have "?d mod 2 ^ (?o - b) * 2 ^ b \<le> 2 ^ (?o - b) * 2 ^ b"
      by (intro mult_le_mono1 less_imp_le) simp
    also have "\<dots> = 2 ^ ?o"
      using True by (simp flip: power_add)
    finally show ?thesis
      using o unfolding err by linarith
  qed (simp add: err)
qed

section \<open>Recording samples\<close>

definition hist_inv :: "LatencyHistogram \<Rightarrow> u64 list \<Rightarrow> bool" where
  "hist_inv h vs \<longleftrightarrow> hist_ok h \<and>
     counts h = map (\<lambda>i. of_nat (length (filter (\<lambda>v. index_for h v = i) vs))) [0..<length (counts h)] \<and>
     total_count h = of_nat (length vs) \<and> min_ns h = fold min vs (- 1) \<and> max_ns h = fold max vs 0 \<and>
     sum_ns h = sum_list vs"

lemma index_for_cong:
  "sub_bucket_bits h' = sub_bucket_bits h \<Longrightarrow> length (counts h') = length (counts h) \<Longrightarrow> index_for h' = index_for h"
  by (simp add: index_for_def sub_bucket_count_def fun_eq_iff cong: if_cong)

lemma hist_record_inv:
  assumes "hist_inv h vs"
  shows "\<exists>h'. hist_record v h = Some h' \<and> hist_inv h' (vs @ [v]) \<and> index_for h' = index_for h \<and>
    sub_bucket_bits h' = sub_bucket_bits h \<and> length (counts h') = length (counts h)"
proof -
  let ?i = "index_for h v"
  have i: "?i < length (counts h)"
    using assms by (simp add: hist_inv_def index_for_in_range)
  define h' where "h' = h\<lparr>total_count := total_count h + 1, sum_ns := sum_ns h + v, min_ns := min (min_ns h) v,
     max_ns := max (max_ns h) v, counts := (counts h)[?i := counts h ! ?i + 1]\<rparr>"
  have ix: "index_for h' = index_for h"
    by (rule index_for_cong) (simp_all add: h'_def)
  have cs: "counts h ! j = of_nat (length (filter (\<lambda>v. index_for h v = j) vs))" if "j < length (counts h)" for j
    using assms that by (simp add: hist_inv_def) (metis (no_types, lifting) add.left_neutral length_map length_upt nth_map nth_upt)
  have "counts h' = map (\<lambda>i. of_nat (length (filter (\<lambda>v. index_for h' v = i) (vs @ [v])))) [0..<length (counts h')]"
    by (rule nth_equalityI) (simp_all add: h'_def [THEN arg_cong, of counts] ix nth_list_update cs add.commute)
  moreover have "hist_ok h'"
    using assms by (simp add: hist_inv_def hist_ok_def h'_def)
  moreover have "total_count h' = of_nat (length (vs @ [v]))" "min_ns h' = fold min (vs @ [v]) (- 1)"
    "max_ns h' = fold max (vs @ [v]) 0" "sum_ns h' = sum_list (vs @ [v])"
    using assms by (simp_all add: hist_inv_def h'_def min.commute max.commute)
  ultimately have "hist_inv h' (vs @ [v])"
    unfolding hist_inv_def by blast
  with i ix show ?thesis
    by (simp add: hist_record_def Let_def h'_def)
qed

lemma hist_record_all:
  assumes "hist_inv h us"
  shows "\<exists>h'. fold_opt hist_record vs h = Some h' \<and> hist_inv h' (us @ vs) \<and> index_for h' = index_for h \<and>
    sub_bucket_bits h' = sub_bucket_bits h \<and> length (counts h') = length (counts h)"
  using assms
proof (induction vs arbitrary: h us)
  case (Cons v vs)
  from hist_record_inv [OF Cons.prems, of v] obtain h1 where h1: "hist_record v h = Some h1" "hist_inv h1 (us @ [v])"
    "index_for h1 = index_for h" "sub_bucket_bits h1 = sub_bucket_bits h" "length (counts h1) = length (counts h)"
    by blast
  with Cons.IH [OF h1(2)] show ?case by auto
qed simp

lemma histogram_init_inv:
  assumes "bits \<le> 32" and "highest_bit m < 63"
  shows "hist_inv (histogram_init m bits) []"
  using assms by (simp add: hist_inv_def hist_ok_def histogram_init_def map_replicate_const)

lemma recorded_nonempty: "hist_inv h vs \<Longrightarrow> vs \<noteq> [] \<Longrightarrow> length vs < 2 ^ 64 \<Longrightarrow> total_count h \<noteq> 0"
  using u64_of_nat [of "length vs"] by (metis hist_inv_def length_0_conv unsigned_0)

section \<open>The target rank\<close>

lemma double_of_nat: "n \<le> 2 ^ 53 \<Longrightarrow> double_of (of_nat n) = of_nat n"
proof -
  assume *: "n \<le> 2 ^ 53"
  then have "unat (of_nat n :: u64) = n"
    by (intro u64_of_nat) simp
  with * show "double_of (of_nat n) = of_nat n"
    by (simp add: double_of_def dbl_int)
qed

text \<open>Three roundings in a row: of the percentage as written, of its hundredth, and of the product.\<close>

lemma rank_error:
  assumes "0 < q" and "q \<le> 100" and "n \<le> 2 ^ 50"
  shows "\<bar>dbl (dbl (dbl q / 100) * of_nat n) - q / 100 * of_nat n\<bar> < 1"
    and "dbl (dbl (dbl q / 100) * of_nat n) \<le> of_nat n"
proof -
  define a where "a = dbl q / 100"
  define b where "b = dbl a"
  have a: "0 \<le> a" "a \<le> 1"
    using dbl_mono [OF assms(2)] dbl_int [of 100] by (simp_all add: a_def)
  have b: "0 \<le> b" "b \<le> 1"
    using dbl_mono [OF a(2)] dbl_int [of 1] by (simp_all add: b_def)
  have n: "(of_nat n :: rat) \<le> 2 ^ 50"
    using of_nat_le_iff [of n "2 ^ 50", where 'a = rat] assms(3) by simp
  have bn: "0 \<le> b * of_nat n" "b * of_nat n \<le> of_nat n"
    using b by (simp_all add: mult_left_le_one_le)
  show "dbl (dbl (dbl q / 100) * of_nat n) \<le> of_nat n"
    using dbl_mono [OF bn(2)] dbl_int [of n] assms(3) by (simp add: a_def [symmetric] b_def [symmetric])
  have "\<bar>a - q / 100\<bar> \<le> 1 / 2 ^ 53"
    using dbl_close [of q] assms(1,2) by (auto simp: a_def abs_le_iff field_simps)
  moreover have "\<bar>b - a\<bar> \<le> 1 / 2 ^ 53"
    using dbl_close [OF a(1)] a(2) by (simp add: b_def abs_le_iff field_simps)
  ultimately have "\<bar>b - q / 100\<bar> \<le> 2 / 2 ^ 53"
    by linarith
  then have "\<bar>b - q / 100\<bar> * of_nat n \<le> 2 / 2 ^ 53 * 2 ^ 50"
    using n by (intro mult_mono) simp_all
  then have 1: "\<bar>b * of_nat n - q / 100 * of_nat n\<bar> \<le> 1 / 4"
    unfolding left_diff_distrib [symmetric] abs_mult by simp
  have "b * of_nat n / 2 ^ 53 \<le> 2 ^ 50 / 2 ^ 53"
    using bn(2) n by (intro divide_right_mono) simp_all
  then have "\<bar>dbl (b * of_nat n) - b * of_nat n\<bar> \<le> 1 / 8"
    using dbl_close [OF bn(1)] by simp
  with 1 show "\<bar>dbl (dbl (dbl q / 100) * of_nat n) - q / 100 * of_nat n\<bar> < 1"
    unfolding a_def [symmetric] b_def [symmetric] by linarith
qed

lemma target_rank_close:
  assumes "0 < q" and "q \<le> 100" and "0 < n" and "n \<le> 2 ^ 50"
  shows "\<exists>k < n. target_rank (dbl q) (of_nat n) = Some (of_nat (Suc k)) \<and> \<bar>int (Suc k) - \<lceil>q / 100 * of_nat n\<rceil>\<bar> \<le> 1"
proof -
  define r where "r = dbl (dbl (dbl q / 100) * of_nat n)"
  note err = rank_error [OF assms(1,2,4), folded r_def]
  have "0 < r"
    using assms(1,3) by (simp add: r_def dbl_pos)
  then have r: "0 < \<lceil>r\<rceil>" "\<lceil>r\<rceil> \<le> int n"
    using err(2) by (simp_all add: ceiling_le_iff)
  define k where "k = nat \<lceil>r\<rceil> - 1"
  have k: "k < n" "\<lceil>r\<rceil> = int (Suc k)"
    using r unfolding k_def by linarith+
  have "\<bar>\<lceil>r\<rceil> - \<lceil>q / 100 * of_nat n\<rceil>\<bar> \<le> 1"
    using err(1) by linarith
  moreover have "target_rank (dbl q) (of_nat n) = Some (of_nat (Suc k))"
  proof -
    have "double_of (of_nat n) = of_nat n"
      using assms(4) by (intro double_of_nat) simp
    then have "target_rank (dbl q) (of_nat n) = u64_of (of_int \<lceil>r\<rceil>)"
      by (simp add: target_rank_def r_def)
    then show ?thesis
      using k assms(4) by (simp add: u64_of_def)
  qed
  ultimately show ?thesis
    using k by auto
qed

section \<open>Percentiles\<close>

lemma scan_counts_least:
  assumes "k < length ns" and "unat running + sum_list ns < 2 ^ 64"
    and "unat running + sum_list (take k ns) < unat target" and "unat target \<le> unat running + sum_list (take (Suc k) ns)"
  shows "scan_counts (map of_nat ns) i running target = Some (i + k)"
  using assms
proof (induction ns arbitrary: k i running)
  case (Cons n ns)
  have "n < 2 ^ 64"
    using Cons.prems(2) by simp
  then have add: "unat (running + of_nat n) = unat running + n"
    using Cons.prems(2) by (subst unat_add_lem [THEN iffD1]) (simp_all add: u64_of_nat)
  show ?case
  proof (cases k)
    case 0
    then show ?thesis
      using Cons.prems(4) add by (simp add: word_le_nat_alt)
  next
    case (Suc j)
    then have "scan_counts (map of_nat ns) (Suc i) (running + of_nat n) target = Some (Suc i + j)"
      using Cons.prems add by (intro Cons.IH) simp_all
    moreover have "\<not> target \<le> running + of_nat n"
      using Cons.prems(3) add Suc by (simp add: word_le_nat_alt)
    ultimately show ?thesis
      using Suc by simp
  qed
qed simp

lemma sum_bucket_counts:
  "sum_list (map (\<lambda>i. length (filter (\<lambda>v. f v = i) vs)) [0..<k]) = length (filter (\<lambda>v. f v < (k :: nat)) vs)"
proof (induction k)
  case (Suc k)
  have "length (filter (\<lambda>v. f v < Suc k) vs) = length (filter (\<lambda>v. f v < k) vs) + length (filter (\<lambda>v. f v = k) vs)"
    by (induction vs) auto
  with Suc show ?case by simp
qed simp

lemma sorted_rank:
  assumes "\<And>v w. v \<le> w \<Longrightarrow> f v \<le> (f w :: nat)" and "k < length vs"
  shows "k < length (filter (\<lambda>v. f v < Suc (f (sort vs ! k))) vs)"
    and "length (filter (\<lambda>v. f v < f (sort vs ! k)) vs) \<le> k"
proof -
  let ?ws = "sort vs" and ?q = "f (sort vs ! k)"
  have le: "f (?ws ! i) \<le> ?q" if "i \<le> k" for i
    using that assms by (intro assms(1) sorted_nth_mono) simp_all
  have ge: "?q \<le> f (?ws ! i)" if "k \<le> i" "i < length vs" for i
    using that by (intro assms(1) sorted_nth_mono) simp_all
  have same: "length (filter P ?ws) = length (filter P vs)" for P
    by (metis mset_filter mset_sort size_mset)
  have "filter (\<lambda>v. f v < Suc ?q) (take (Suc k) ?ws) = take (Suc k) ?ws"
    using le by (auto simp: filter_id_conv in_set_conv_nth less_Suc_eq_le)
  then have "Suc k \<le> length (filter (\<lambda>v. f v < Suc ?q) (take (Suc k) ?ws @ drop (Suc k) ?ws))"
    using assms(2) by (simp only: filter_append length_append) simp
  then show "k < length (filter (\<lambda>v. f v < Suc ?q) vs)"
    by (simp add: same del: filter_append)
  have "filter (\<lambda>v. f v < ?q) (drop k ?ws) = []"
    using ge by (auto simp: filter_empty_conv in_set_conv_nth not_less)
  then have "length (filter (\<lambda>v. f v < ?q) (take k ?ws @ drop k ?ws)) \<le> k"
    using length_filter_le [of "\<lambda>v. f v < ?q" "take k ?ws"] by (simp only: filter_append length_append) simp
  then show "length (filter (\<lambda>v. f v < ?q) vs) \<le> k"
    by (simp add: same del: filter_append)
qed

text \<open>A percentile is the representative of the bucket of the sample with that rank.\<close>

lemma percentile_bucket:
  assumes inv: "hist_inv h vs" and n: "vs \<noteq> []" "length vs < 2 ^ 64"
    and target: "target_rank p (of_nat (length vs)) = Some t" "max 1 t = of_nat (Suc k)" and k: "k < length vs"
  shows "percentile p h = Some (value_for_index h (index_for h (sort vs ! k)))"
proof -
  let ?f = "index_for h" and ?q = "index_for h (sort vs ! k)"
  let ?ns = "map (\<lambda>i. length (filter (\<lambda>v. ?f v = i) vs)) [0..<length (counts h)]"
  have ok: "hist_ok h" and total: "total_count h = of_nat (length vs)" and cs: "counts h = map of_nat ?ns"
    using inv by (simp_all add: hist_inv_def o_def)
  have q: "?q < length (counts h)"
    using ok by (rule index_for_in_range)
  have sums: "sum_list (take j ?ns) = length (filter (\<lambda>v. ?f v < j) vs)" if "j \<le> length (counts h)" for j
    using that by (simp add: take_map sum_bucket_counts)
  note rank = sorted_rank [of ?f, OF index_for_mono [OF ok] k]
  have all: "sum_list ?ns \<le> length vs"
    by (simp add: sum_bucket_counts)
  have "unat (of_nat (Suc k) :: u64) = Suc k"
    using k n by (intro u64_of_nat) simp
  then have "scan_counts (map of_nat ?ns) 0 0 (of_nat (Suc k)) = Some (0 + ?q)"
    using rank q all n sums [of ?q] sums [of "Suc ?q"] by (intro scan_counts_least) simp_all
  then have "scan_counts (counts h) 0 0 (of_nat (Suc k)) = Some ?q"
    using cs by (simp del: of_nat_Suc)
  moreover have "total_count h \<noteq> 0"
    using recorded_nonempty [OF inv n] .
  ultimately show ?thesis
    by (simp only: percentile_def total target Let_def if_False option.case)
qed

lemma rank_at_least_one: "k < n \<Longrightarrow> n < 2 ^ 64 \<Longrightarrow> max 1 (of_nat (Suc k)) = (of_nat (Suc k) :: u64)"
proof (rule max_absorb2)
  assume "k < n" "n < 2 ^ 64"
  then have "unat (of_nat (Suc k) :: u64) = Suc k"
    by (intro u64_of_nat) simp
  then show "1 \<le> (of_nat (Suc k) :: u64)"
    by (simp only: word_le_nat_alt) simp
qed

section \<open>Properties\<close>

text \<open>The histogram the measuring programs use: 128 slots per octave up to about 17 seconds.\<close>

definition default_histogram :: LatencyHistogram where
  "default_histogram = histogram_init (2 ^ 34) 7"

lemma default_histogram:
  "hist_inv default_histogram []" "sub_bucket_bits default_histogram = 7" "length (counts default_histogram) = 36 * 2 ^ 7"
proof -
  have "highest_bit (2 ^ 34) = 34"
    using unat_pow [of 34] by (intro highest_bit_unique) (simp_all only: power_Suc, simp_all)
  then show "hist_inv default_histogram []" "sub_bucket_bits default_histogram = 7"
    "length (counts default_histogram) = 36 * 2 ^ 7"
    by (simp_all add: default_histogram_def histogram_init_inv) (simp_all add: histogram_init_def)
qed

lemma unclamped:
  assumes "hist_ok h" and "sub_bucket_bits h = 7" and "length (counts h) = 36 * 2 ^ 7" and "v \<noteq> 0" and "v < 2 ^ 36"
  shows "index_for h v = bucket_of 7 v"
proof -
  have "unat v < 2 ^ 36"
    using assms(5) unat_pow [of 36] by (simp add: word_less_nat_alt)
  then have "2 ^ highest_bit v < (2 :: nat) ^ 36"
    using highest_bit_bounds [OF assms(4)] by linarith
  then have "highest_bit v < 36"
    by (rule power_less_imp_less_exp [rotated]) simp
  then have "bucket_of 7 v < 36 * 2 ^ 7"
    using slot_of_less [OF assms(4), of 7] assms(4) by (simp add: bucket_of_def)
  then show ?thesis
    using assms by (simp add: index_for_bucket)
qed

lemma fold_min_max:
  fixes vs :: "u64 list"
  assumes "vs \<noteq> []"
  shows "fold min vs (- 1) = Min (set vs)" and "fold max vs 0 = Max (set vs)"
proof -
  have "fold min vs (- 1) = Min (insert (- 1) (set vs))" "fold max vs 0 = Max (insert 0 (set vs))"
    using Min.set_eq_fold [of "- 1" vs] Max.set_eq_fold [of 0 vs] by simp_all
  moreover have "Min (insert (- 1) (set vs)) = min (- 1) (Min (set vs))" "Max (insert 0 (set vs)) = max 0 (Max (set vs))"
    using assms by (simp_all add: Min.insert Max.insert)
  ultimately show "fold min vs (- 1) = Min (set vs)" "fold max vs 0 = Max (set vs)"
    by (simp_all add: min_def max_def word_order.extremum word_order.extremum_unique)
qed

text \<open>
  (C34) The reported percentiles are accurate. After recording any samples between 1 ns and
  \<^verbatim>\<open>2^36\<close> ns, no recording having left the table, the percentile of a percentage \<open>q\<close>, written as the nearest double, is defined. It is
  the sample of some rank up to one part in 128, from below, and that rank is \<open>q\<close> percent of the
  samples, rounded up, or next to it; the reported minimum and maximum are exact.
\<close>
theorem percentile_precision:
  assumes "vs \<noteq> []" and "length vs \<le> 2 ^ 50" and "\<forall>v \<in> set vs. v \<noteq> 0 \<and> v < 2 ^ 36" and "0 < q" and "q \<le> 100"
  shows "\<exists>h k v. fold_opt hist_record vs default_histogram = Some h \<and> percentile (dbl q) h = Some v \<and>
    k < length vs \<and> \<bar>int (Suc k) - \<lceil>q / 100 * of_nat (length vs)\<rceil>\<bar> \<le> 1 \<and>
    unat v \<le> unat (sort vs ! k) \<and> (unat (sort vs ! k) - unat v) * 128 \<le> unat (sort vs ! k) \<and>
    hist_min h = Min (set vs) \<and> max_ns h = Max (set vs)"
proof -
  have n: "0 < length vs" "length vs < 2 ^ 64"
    using assms(1,2) by simp_all
  from target_rank_close [OF assms(4,5) n(1) assms(2)] obtain k where
    k: "k < length vs" "target_rank (dbl q) (of_nat (length vs)) = Some (of_nat (Suc k))" "\<bar>int (Suc k) - \<lceil>q / 100 * of_nat (length vs)\<rceil>\<bar> \<le> 1"
    by blast
  let ?q = "sort vs ! k"
  from hist_record_all [OF default_histogram(1), of vs] default_histogram(2,3) obtain h where
    h: "fold_opt hist_record vs default_histogram = Some h" "hist_inv h vs" "sub_bucket_bits h = 7"
      "length (counts h) = 36 * 2 ^ 7"
    by auto
  have "?q \<in> set vs"
    using k(1) by (metis length_sort nth_mem set_sort)
  then have q: "?q \<noteq> 0" "?q < 2 ^ 36"
    using assms(3) by auto
  have "percentile (dbl q) h = Some (value_for_index h (bucket_of 7 ?q))"
    using percentile_bucket [OF h(2) assms(1) n(2) k(2) rank_at_least_one [OF k(1) n(2)] k(1)] unclamped [of h ?q] h q
    by (simp add: hist_inv_def)
  moreover note value_of_bucket_close [OF q(1), of 7 h] h(3)
  moreover have "total_count h \<noteq> 0"
    using recorded_nonempty [OF h(2) assms(1) n(2)] .
  then have "hist_min h = Min (set vs)" "max_ns h = Max (set vs)"
    using h(2) fold_min_max [OF assms(1)] by (simp_all add: hist_min_def hist_inv_def)
  ultimately show ?thesis
    using h(1) k(1,3) by auto
qed

theorem percentile_precision_witness:
  "\<exists>h k v. fold_opt hist_record [700, 100, 900] default_histogram = Some h \<and> percentile (dbl 50) h = Some v \<and>
    k < 3 \<and> \<bar>int (Suc k) - 2\<bar> \<le> 1 \<and>
    unat v \<le> unat (sort [700, 100, 900 :: u64] ! k) \<and> (unat (sort [700, 100, 900 :: u64] ! k) - unat v) * 128 \<le> unat (sort [700, 100, 900 :: u64] ! k) \<and>
    hist_min h = Min (set [700, 100, 900]) \<and> max_ns h = Max (set [700, 100, 900])"
proof -
  have "\<lceil>(50 :: rat) / 100 * of_nat (length [700, 100, 900 :: u64])\<rceil> = 2"
    by (simp add: ceiling_eq_iff)
  with percentile_precision [of "[700, 100, 900]" 50] show ?thesis
    by (simp add: numeral_3_eq_3 del: fold_opt.simps)
qed

text \<open>
  A sample of 0 ns shares the bucket of 1 ns, whose lowest value is 1, so a percentile over
  such samples exceeds the maximum that is reported beside it.
\<close>

lemma zero_samples_reported_as_one:
  assumes "n \<noteq> 0" and "n \<le> 2 ^ 50" and "0 < q" and "q \<le> 100"
  shows "\<exists>h. fold_opt hist_record (replicate n 0) default_histogram = Some h \<and> percentile (dbl q) h = Some 1 \<and> max_ns h = 0"
proof -
  from hist_record_all [OF default_histogram(1), of "replicate n 0"] default_histogram(2,3) obtain h where
    h: "fold_opt hist_record (replicate n 0) default_histogram = Some h" "hist_inv h (replicate n 0)"
    by auto
  from target_rank_close [OF assms(3,4) _ assms(2)] assms(1) obtain k where
    k: "k < n" "target_rank (dbl q) (of_nat n) = Some (of_nat (Suc k))"
    by blast
  have "n < 2 ^ 64"
    using assms(2) by simp
  have "sort (replicate n (0 :: u64)) ! k = 0"
    using k(1) by (metis in_set_replicate length_replicate length_sort nth_mem set_sort)
  then have "percentile (dbl q) h = Some (value_for_index h 0)"
    using percentile_bucket [OF h(2), of "dbl q" "of_nat (Suc k)" k] rank_at_least_one [OF k(1) \<open>n < 2 ^ 64\<close>] k assms(1) \<open>n < 2 ^ 64\<close>
    by (simp add: index_for_def)
  moreover have "max_ns h = 0"
    using h(2) fold_min_max(2) [of "replicate n 0"] assms(1) by (simp add: hist_inv_def)
  ultimately show ?thesis
    using h(1) by (simp add: value_for_index_def Let_def)
qed

text \<open>
  The rank can be off by one: 99.9 percent of 200000 samples, the default run, are 199800, but 99.9 has no exact
  double and the computation gives 199801.
\<close>

lemma p999_rank_off_by_one:
  "target_rank (dbl (999 / 10)) 200000 = Some 199801" "\<lceil>999 / 10 / 100 * (200000 :: rat)\<rceil> = 199800"
proof -
  have "dbl (999 / 10) = of_int 7029837543348634 * 2 powi (6 - 52)"
    by (rule dbl_eqI) (simp_all add: power_int_def power_one_over abs_if)
  then have 1: "dbl (999 / 10) = 7029837543348634 / 2 ^ 46"
    by (simp add: power_int_def power_one_over)
  have "dbl (dbl (999 / 10) / 100) = of_int 8998192055486252 * 2 powi (- 1 - 52)"
    unfolding 1 by (rule dbl_eqI) (simp_all add: power_int_def power_one_over abs_if)
  then have 2: "dbl (dbl (999 / 10) / 100) = 8998192055486252 / 2 ^ 53"
    by (simp add: power_int_def power_one_over)
  have "dbl (dbl (dbl (999 / 10) / 100) * 200000) = of_int 6865075725926401 * 2 powi (17 - 52)"
    unfolding 2 by (rule dbl_eqI) (simp_all add: power_int_def power_one_over abs_if)
  then have 3: "dbl (dbl (dbl (999 / 10) / 100) * 200000) = 6865075725926401 / 2 ^ 35"
    by (simp add: power_int_def power_one_over)
  have "double_of 200000 = 200000"
    using double_of_nat [of 200000] by simp
  moreover have "\<lceil>6865075725926401 / (2 :: rat) ^ 35\<rceil> = 199801"
    by (simp add: ceiling_eq_iff)
  ultimately show "target_rank (dbl (999 / 10)) 200000 = Some 199801"
    unfolding target_rank_def by (simp only: 3) (simp add: u64_of_def)
  show "\<lceil>999 / 10 / 100 * (200000 :: rat)\<rceil> = 199800"
    by (simp add: ceiling_eq_iff)
qed

text \<open>The mean of samples whose sum stays below \<open>2 ^ 53\<close> ns, 104 days, is the exact mean rounded once.\<close>

lemma unat_sum_list: "sum_list (map unat vs) < 2 ^ 64 \<Longrightarrow> unat (sum_list (vs :: u64 list)) = sum_list (map unat vs)"
proof (induction vs)
  case (Cons v vs)
  then show ?case
    by (simp add: unat_add_lem [THEN iffD1])
qed simp

lemma mean_rounded_once:
  assumes "vs \<noteq> []" and "sum_list (map unat vs) \<le> 2 ^ 53" and "length vs \<le> 2 ^ 53"
  shows "\<exists>h. fold_opt hist_record vs default_histogram = Some h \<and>
    hist_mean h = dbl (of_nat (sum_list (map unat vs)) / of_nat (length vs))"
proof -
  from hist_record_all [OF default_histogram(1), of vs] obtain h where
    h: "fold_opt hist_record vs default_histogram = Some h" "hist_inv h vs"
    by auto
  have "unat (sum_list vs) = sum_list (map unat vs)"
    using assms(2) by (intro unat_sum_list) simp
  then have "double_of (sum_list vs) = of_nat (sum_list (map unat vs))"
    using dbl_int [OF assms(2)] by (simp add: double_of_def)
  moreover have "total_count h \<noteq> 0"
    using recorded_nonempty [OF h(2) assms(1)] assms(3) by simp
  ultimately show ?thesis
    using h double_of_nat [OF assms(3)] by (auto simp: hist_mean_def hist_inv_def)
qed

lemma mean_between:
  assumes "vs \<noteq> []" and "sum_list (map unat vs) \<le> 2 ^ 53" and "length vs \<le> 2 ^ 53"
  shows "\<exists>h. fold_opt hist_record vs default_histogram = Some h \<and>
    of_nat (unat (hist_min h)) \<le> hist_mean h \<and> hist_mean h \<le> of_nat (unat (max_ns h))"
proof -
  from hist_record_all [OF default_histogram(1), of vs] mean_rounded_once [OF assms] obtain h where
    h: "fold_opt hist_record vs default_histogram = Some h" "hist_inv h vs"
      "hist_mean h = dbl (of_nat (sum_list (map unat vs)) / of_nat (length vs))"
    by auto
  let ?lo = "Min (set vs)" and ?hi = "Max (set vs)" and ?n = "of_nat (length vs) :: rat" and ?s = "sum_list (map unat vs)"
  have mm: "hist_min h = ?lo" "max_ns h = ?hi"
    using h(2) recorded_nonempty [OF h(2) assms(1)] assms(3) fold_min_max [OF assms(1)] by (simp_all add: hist_min_def hist_inv_def)
  have "unat ?lo \<le> unat v \<and> unat v \<le> unat ?hi" if "v \<in> set vs" for v
    using that by (simp add: word_le_nat_alt [symmetric])
  then have "length vs * unat ?lo \<le> ?s" "?s \<le> length vs * unat ?hi"
    using sum_list_mono [of vs "\<lambda>v. unat ?lo" unat] sum_list_mono [of vs unat "\<lambda>v. unat ?hi"] by (simp_all add: sum_list_triv)
  then have "?n * of_nat (unat ?lo) \<le> of_nat ?s" "of_nat ?s \<le> ?n * of_nat (unat ?hi)"
    unfolding of_nat_mult [symmetric] of_nat_le_iff by simp_all
  then have "of_nat (unat ?lo) \<le> of_nat ?s / ?n" "of_nat ?s / ?n \<le> of_nat (unat ?hi)"
    using assms(1) by (simp_all add: field_simps)
  moreover have "unat v \<le> 2 ^ 53" if "v \<in> set vs" for v
    using that member_le_sum_list [of "unat v" "map unat vs"] assms(2) by simp
  then have "dbl (of_nat (unat ?lo)) = of_nat (unat ?lo)" "dbl (of_nat (unat ?hi)) = of_nat (unat ?hi)"
    using assms(1) by (intro dbl_int; simp)+
  ultimately show ?thesis
    using h(1,3) dbl_mono [of "of_nat (unat ?lo)" "of_nat ?s / ?n"] dbl_mono [of "of_nat ?s / ?n" "of_nat (unat ?hi)"] mm by auto
qed

end
