(* ===== verification/Tick_Engine.thy ===== *)
theory Tick_Engine
  imports Market_Maker Latency_Histogram Market_Data_Feed Spsc_Ring
begin

text \<open>
  The in-process replay program of \<^verbatim>\<open>src/main.cpp\<close>: the self test, the handling of one feed order
  by book, strategy and histogram, and the feed thread and engine thread that share a ring.
  Time stamps and measured latencies are arguments. The theory shows that a replay never runs into
  undefined behaviour and that, whatever the interleaving, the engine processes exactly the feed, in order.
\<close>

section \<open>The self test\<close>

definition kPoolCapacity :: nat where
  "kPoolCapacity = 2 ^ 20"

definition kRingCapacity :: nat where
  "kRingCapacity = 2 ^ 14"

definition self_test :: "nat \<Rightarrow> bool option" where
  "self_test cap =
     (case add_limit_order (book_init cap) 1 Buy 100 10 0 [] of
        None \<Rightarrow> None
      | Some (b1, _) \<Rightarrow>
          (case best_bid b1 of
             None \<Rightarrow> None
           | Some None \<Rightarrow> Some False
           | Some (Some (bp, bq)) \<Rightarrow>
               if bp \<noteq> 100 \<or> bq \<noteq> 10 then Some False
               else (case add_limit_order b1 2 Sell 100 4 0 [] of
                       None \<Rightarrow> None
                     | Some (b2, trades) \<Rightarrow>
                         if length trades \<noteq> 1 \<or> tr_qty (trades ! 0) \<noteq> 4 \<or> tr_price (trades ! 0) \<noteq> 100 then Some False
                         else (case best_bid b2 of
                                 None \<Rightarrow> None
                               | Some best \<Rightarrow>
                                   let bq' = (case best of None \<Rightarrow> bq | Some (_, q) \<Rightarrow> q)
                                   in if bq' \<noteq> 6 then Some False
                                      else (case cancel b2 1 of
                                              None \<Rightarrow> None
                                            | Some (ok, b3) \<Rightarrow>
                                                if \<not> ok then Some False
                                                else map_option (\<lambda>t. t = None) (best_bid b3))))))"

section \<open>One order\<close>

record tick_engine =
  te_book :: book
  te_mm :: MarketMaker
  strategy_id_cursor :: OrderId
  te_hist :: LatencyHistogram
  processed :: u64
  trade_count :: u64

definition tick_engine_init :: "nat \<Rightarrow> tick_engine" where
  "tick_engine_init cap = \<lparr>te_book = book_init cap, te_mm = market_maker_init 3 10 2, strategy_id_cursor = 1000000000,
     te_hist = default_histogram, processed = 0, trade_count = 0\<rparr>"

text \<open>The body of the engine loop for an order with time stamp \<open>ts\<close>, which took \<open>lat\<close> nanoseconds.\<close>

definition process_order :: "Order \<Rightarrow> Nanos \<Rightarrow> u64 \<Rightarrow> tick_engine \<Rightarrow> tick_engine option" where
  "process_order r ts lat te =
     (case add_limit_order (te_book te) (ord_id r) (ord_side r) (ord_price r) (ord_qty r) ts [] of
        None \<Rightarrow> None
      | Some (b1, trades1) \<Rightarrow>
          (case on_tick (te_mm te) b1 (strategy_id_cursor te) ts trades1 of
             None \<Rightarrow> None
           | Some (mm, b2, cursor, trades2) \<Rightarrow>
               (case hist_record lat (te_hist te) of
                  None \<Rightarrow> None
                | Some h \<Rightarrow>
                    Some \<lparr>te_book = b2, te_mm = mm, strategy_id_cursor = cursor, te_hist = h, processed = processed te + 1,
                          trade_count = trade_count te + of_nat (length trades2)\<rparr>)))"

section \<open>The two threads\<close>

datatype feed_pc = Feed_next | Feed_push Order | Feed_finished
datatype engine_pc = Engine_loop | Engine_check | Engine_finished

record replay =
  rp_left :: "Order list"
  rp_ring :: "Order spsc"
  feed_done :: bool
  rp_feed_pc :: feed_pc
  rp_engine_pc :: engine_pc
  rp_engine :: tick_engine

definition replay_init :: "nat \<Rightarrow> nat \<Rightarrow> Order \<Rightarrow> Order list \<Rightarrow> replay" where
  "replay_init cap ring_cap d feed_events = \<lparr>rp_left = feed_events, rp_ring = spsc_init ring_cap d, feed_done = False,
     rp_feed_pc = Feed_next, rp_engine_pc = Engine_loop, rp_engine = tick_engine_init cap\<rparr>"

definition feed_step :: "Nanos \<Rightarrow> replay \<Rightarrow> replay" where
  "feed_step now s =
     (case rp_feed_pc s of
        Feed_next \<Rightarrow>
          (case rp_left s of
             [] \<Rightarrow> s\<lparr>feed_done := True, rp_feed_pc := Feed_finished\<rparr>
           | r # rs \<Rightarrow> s\<lparr>rp_left := rs, rp_feed_pc := Feed_push (r\<lparr>ord_ts_ns := now\<rparr>)\<rparr>)
      | Feed_push r \<Rightarrow>
          (case spsc_push (rp_ring s) r of
             None \<Rightarrow> s
           | Some q \<Rightarrow> s\<lparr>rp_ring := q, rp_feed_pc := Feed_next\<rparr>)
      | Feed_finished \<Rightarrow> s)"

definition engine_step :: "u64 \<Rightarrow> replay \<Rightarrow> replay option" where
  "engine_step lat s =
     (case rp_engine_pc s of
        Engine_loop \<Rightarrow>
          (case spsc_pop (rp_ring s) of
             None \<Rightarrow> Some (s\<lparr>rp_engine_pc := Engine_check\<rparr>)
           | Some (r, q) \<Rightarrow>
               map_option (\<lambda>te. s\<lparr>rp_ring := q, rp_engine := te\<rparr>) (process_order r (ord_ts_ns r) lat (rp_engine s)))
      | Engine_check \<Rightarrow>
          Some (s\<lparr>rp_engine_pc := if feed_done s \<and> spsc_empty (rp_ring s) then Engine_finished else Engine_loop\<rparr>)
      | Engine_finished \<Rightarrow> Some s)"

datatype replay_action = Feed_acts Nanos | Engine_acts u64

fun replay_step :: "replay_action \<Rightarrow> replay \<Rightarrow> replay option" where
  "replay_step (Feed_acts now) s = Some (feed_step now s)"
| "replay_step (Engine_acts lat) s = engine_step lat s"

section \<open>The self test passes\<close>

lemma book_at:
  "book_inv b \<Longrightarrow> best_bid b = Some (case level_rows (a_bids (abs_book b)) of [] \<Rightarrow> None | row # _ \<Rightarrow> Some row)"
  by (rule lb.top_bid_law)

lemma self_test_passes:
  assumes "1 \<le> cap" and "cap \<le> 2 ^ 31"
  shows "self_test cap = Some True"
proof -
  let ?a = "\<lparr>a_bids = [], a_asks = [], a_cap = cap\<rparr>"
  have init: "book_inv (book_init cap)" "abs_book (book_init cap) = ?a"
    by (rule book_inv_init [OF assms(2)])+
  obtain b1 where b1: "add_limit_order (book_init cap) 1 Buy 100 10 0 [] = Some (b1, [])" "book_inv b1"
    "abs_book b1 = \<lparr>a_bids = [quote 1 Buy 100 10 0], a_asks = [], a_cap = cap\<rparr>"
    using lb.add_law [OF init(1), of 1 Buy 100 10 0 "[]"] assms(1)
    by (auto simp: init(2) spec_add_def prio_insert_def quote_def fill_trades_def)
  have "2 \<notin> a_ids (abs_book b1)"
    by (simp add: b1(3) a_ids_def a_orders_def quote_def)
  from lb.add_law [OF b1(2) this, of Sell 100 4 0 "[]"] obtain b2 where
    b2: "add_limit_order b1 2 Sell 100 4 0 [] = Some (b2, [make_trade 2 Sell 0 100 (quote 1 Buy 100 10 0) 4])" "book_inv b2"
      "abs_book b2 = \<lparr>a_bids = [quote 1 Buy 100 6 0], a_asks = [], a_cap = cap\<rparr>"
    by (auto simp: b1(3) spec_add_def fill_trades_def quote_def)
  from lb.cancel_law [OF b2(2), of 1] obtain b3 where
    b3: "cancel b2 1 = Some (True, b3)" "book_inv b3" "a_bids (abs_book b3) = []"
    by (auto simp: b2(3) spec_cancel_def a_orders_def quote_def)
  have "best_bid b1 = Some (Some (100, 10))" "best_bid b2 = Some (Some (100, 6))" "best_bid b3 = Some None"
    by (simp_all add: book_at b1 b2 b3 level_rows_def qty_at_def quote_def)
  then show ?thesis
    by (simp add: self_test_def b1(1) b2(1) b3(1) make_trade_def)
qed

section \<open>Every order can be processed\<close>

definition a_prices :: "abook \<Rightarrow> int set" where
  "a_prices a = ord_price ` set (a_orders a)"

lemma a_prices_sides: "a_prices a = ord_price ` set (own_side side a) \<union> ord_price ` set (other_side side a)"
  by (auto simp: a_prices_def a_orders_def own_side_def other_side_def)

lemma fill_list_prices:
  assumes "fill_list cr q rs = (rs', q', fs)"
  shows "ord_price ` set rs' \<subseteq> ord_price ` set rs"
proof -
  have key: "ord_price = snd \<circ> snd \<circ> order_key"
    by (simp add: order_key_def fun_eq_iff)
  have "set (map order_key rs') \<subseteq> set (map order_key rs)"
    using fill_list_keys [OF assms] by (metis set_drop_subset)
  then show ?thesis
    unfolding key image_comp [symmetric] by (simp add: image_mono)
qed

lemma a_prices_add: "a_prices (fst (spec_add a oid side price qty ts)) \<subseteq> insert price (a_prices a)"
proof -
  obtain rs' q' fs where "fill_list (acceptable side price) qty (other_side side a) = (rs', q', fs)"
    and s: "other_side side (fst (spec_add a oid side price qty ts)) = rs'"
      "own_side side (fst (spec_add a oid side price qty ts)) =
      (if q' \<noteq> 0 \<and> length (own_side side a) + length rs' < a_cap a
       then prio_insert (side_before side)
         \<lparr>ord_id = oid, ord_side = side, ord_price = price, ord_qty = q', ord_ts_ns = ts\<rparr> (own_side side a)
       else own_side side a)"
    by (rule spec_add_fill)
  then have "ord_price ` set rs' \<subseteq> ord_price ` set (other_side side a)"
    by (intro fill_list_prices)
  then show ?thesis
    unfolding a_prices_sides [of _ side] s by auto
qed

lemma top_prices:
  assumes "book_inv b" and "best_bid b = Some (Some (bp, bq))" and "best_ask b = Some (Some (ap, aq))"
  shows "bp \<in> a_prices (abs_book b)" and "ap \<in> a_prices (abs_book b)"
proof -
  have mem: "px \<in> ord_price ` set rs" if "level_rows rs = (px, q) # rows" for px q rs rows
    using fst_level_rows [of rs] that by (metis fst_conv image_eqI list.set_intros(1))
  show "bp \<in> a_prices (abs_book b)"
    using assms(2) mem unfolding lb.top_bid_law [OF assms(1)] by (auto simp: a_prices_def a_orders_def image_Un split: list.splits)
  show "ap \<in> a_prices (abs_book b)"
    using assms(3) mem unfolding lb.top_ask_law [OF assms(1)] by (auto simp: a_prices_def a_orders_def image_Un split: list.splits)
qed

definition prices_in :: "int \<Rightarrow> abook \<Rightarrow> bool" where
  "prices_in M a \<longleftrightarrow> (\<forall>p \<in> a_prices a. - M \<le> p \<and> p \<le> M)"

lemma prices_in_add: "prices_in M a \<Longrightarrow> - M \<le> price \<Longrightarrow> price \<le> M \<Longrightarrow> prices_in M (fst (spec_add a oid side price qty ts))"
  using a_prices_add unfolding prices_in_def by blast

lemma prices_in_mono: "prices_in M a \<Longrightarrow> M \<le> N \<Longrightarrow> prices_in N a"
  unfolding prices_in_def by fastforce

lemma place_quotes_total:
  assumes inv: "book_inv b" and ids: "n \<notin> a_ids (abs_book b)" "n + 1 \<notin> a_ids (abs_book b)"
    and "prices_in M (abs_book b)" and "- M \<le> mid" "mid \<le> M" and "0 \<le> half_spread mm" and "M + half_spread mm < 2 ^ 60"
  shows "\<exists>b' trs'. place_quotes mm mid b n ts trs =
      Some (mm\<lparr>my_bid_id := n, my_ask_id := n + 1, last_mid := mid, quoting := True\<rparr>, b', n + 2, trs') \<and>
    book_inv b' \<and> a_ids (abs_book b') \<subseteq> a_ids (abs_book b) \<union> {n, n + 1} \<and> prices_in (M + half_spread mm) (abs_book b')"
proof -
  let ?N = "M + half_spread mm" and ?bp = "mid - half_spread mm" and ?ap = "mid + half_spread mm"
  have range: "i64_range ?bp" "i64_range ?ap" and lim: "- ?N \<le> ?bp" "?bp \<le> ?N" "- ?N \<le> ?ap" "?ap \<le> ?N"
    using assms(5-8) by (auto simp: i64_range_def)
  from lb.add_law [OF inv ids(1), of Buy ?bp "quote_size mm" ts trs] obtain b1 trs1 where
    b1: "add_limit_order b n Buy ?bp (quote_size mm) ts trs = Some (b1, trs1)" "book_inv b1"
      "abs_book b1 = fst (spec_add (abs_book b) n Buy ?bp (quote_size mm) ts)"
    by blast
  have ids1: "a_ids (abs_book b1) \<subseteq> insert n (a_ids (abs_book b))"
    unfolding b1(3) by (rule a_ids_add)
  moreover have "n + 1 \<noteq> n"
    by simp
  ultimately have "n + 1 \<notin> a_ids (abs_book b1)"
    using ids(2) by blast
  from lb.add_law [OF b1(2) this, of Sell ?ap "quote_size mm" ts trs1] obtain b2 trs2 where
    b2: "add_limit_order b1 (n + 1) Sell ?ap (quote_size mm) ts trs1 = Some (b2, trs2)" "book_inv b2"
      "abs_book b2 = fst (spec_add (abs_book b1) (n + 1) Sell ?ap (quote_size mm) ts)"
    by blast
  have "a_ids (abs_book b2) \<subseteq> a_ids (abs_book b) \<union> {n, n + 1}"
    using a_ids_add [of "abs_book b1" "n + 1" Sell ?ap "quote_size mm" ts] ids1 unfolding b2(3) by blast
  moreover have "prices_in ?N (abs_book b2)"
    unfolding b2(3) b1(3) using prices_in_mono [OF assms(4)] lim assms(7) by (intro prices_in_add) simp_all
  ultimately show ?thesis
    using b1(1) b2(1,2) range by (simp add: place_quotes_def checked_def Let_def)
qed

lemma pull_quotes_total:
  assumes "book_inv b"
  shows "\<exists>b'. pull_quotes mm b = Some b' \<and> book_inv b' \<and> a_ids (abs_book b') \<subseteq> a_ids (abs_book b) \<and>
    a_prices (abs_book b') \<subseteq> a_prices (abs_book b)"
  using pull_quotes_book [OF assms, of mm] by (auto simp: a_ids_def a_prices_def a_orders_def)

lemma on_tick_total:
  assumes inv: "book_inv b" and ids: "n \<notin> a_ids (abs_book b)" "n + 1 \<notin> a_ids (abs_book b)"
    and win: "prices_in M (abs_book b)" and "- M \<le> last_mid mm" "last_mid mm \<le> M" and "0 \<le> half_spread mm" and lim: "M + half_spread mm < 2 ^ 60"
  shows "\<exists>mm' b' n' trs'. on_tick mm b n ts trs = Some (mm', b', n', trs') \<and> book_inv b' \<and>
    a_ids (abs_book b') \<subseteq> a_ids (abs_book b) \<union> (if n' = n then {} else {n, n + 1}) \<and> (n' = n \<or> n' = n + 2) \<and>
    prices_in (M + half_spread mm) (abs_book b') \<and> half_spread mm' = half_spread mm \<and> - M \<le> last_mid mm' \<and> last_mid mm' \<le> M"
proof (cases "\<exists>bp bq ap aq. best_bid b = Some (Some (bp, bq)) \<and> best_ask b = Some (Some (ap, aq))")
  case False
  have "best_bid b \<noteq> None" "best_ask b \<noteq> None"
    using lb.top_bid_law [OF inv] lb.top_ask_law [OF inv] by simp_all
  with False have "on_tick mm b n ts trs = Some (mm, b, n, trs)"
    by (auto simp: on_tick_def split: option.splits)
  with assms prices_in_mono [OF win] show ?thesis by simp
next
  case True
  then obtain bp bq ap aq where top: "best_bid b = Some (Some (bp, bq))" "best_ask b = Some (Some (ap, aq))"
    by blast
  let ?mid = "half (bp + ap)"
  have "- M \<le> bp" "bp \<le> M" "- M \<le> ap" "ap \<le> M"
    using win top_prices [OF inv top] by (auto simp: prices_in_def)
  moreover note half_bounds [OF book_top(1) [OF inv top]]
  ultimately have mid: "- M \<le> ?mid" "?mid \<le> M" and "i64_range (bp + ap)"
    using lim assms(7) by (auto simp: i64_range_def)
  moreover have "i64_range (?mid - last_mid mm)" "i64_range (- (?mid - last_mid mm))"
    using mid assms(5-7) lim by (auto simp: i64_range_def)
  ultimately have move: "mid_move mm bp ap = Some (?mid, \<bar>?mid - last_mid mm\<bar>)"
    by (simp add: mid_move_def checked_def Let_def)
  show ?thesis
  proof (cases "quoting mm \<and> \<bar>?mid - last_mid mm\<bar> < requote_threshold mm")
    case True
    then have "on_tick mm b n ts trs = Some (mm, b, n, trs)"
      by (simp add: on_tick_def top move)
    with assms prices_in_mono [OF win] show ?thesis by simp
  next
    case False
    from pull_quotes_total [OF inv, of mm] obtain b1 where b1: "pull_quotes mm b = Some b1" "book_inv b1"
      "a_ids (abs_book b1) \<subseteq> a_ids (abs_book b)" "a_prices (abs_book b1) \<subseteq> a_prices (abs_book b)"
      by blast
    have "n \<notin> a_ids (abs_book b1)" "n + 1 \<notin> a_ids (abs_book b1)" "prices_in M (abs_book b1)"
      using ids win b1(3,4) unfolding prices_in_def by blast+
    from place_quotes_total [OF b1(2) this mid assms(7) lim, of ts trs] obtain b2 trs2 where
      b2: "place_quotes mm ?mid b1 n ts trs =
        Some (mm\<lparr>my_bid_id := n, my_ask_id := n + 1, last_mid := ?mid, quoting := True\<rparr>, b2, n + 2, trs2)" "book_inv b2"
        "a_ids (abs_book b2) \<subseteq> a_ids (abs_book b1) \<union> {n, n + 1}" "prices_in (M + half_spread mm) (abs_book b2)"
      by blast
    have "on_tick mm b n ts trs = Some (mm\<lparr>my_bid_id := n, my_ask_id := n + 1, last_mid := ?mid, quoting := True\<rparr>, b2, n + 2, trs2)"
      using False b1(1) b2(1) by (auto simp: on_tick_def top move)
    moreover have "n + 2 \<noteq> n"
      by simp
    ultimately show ?thesis
      using b2(2-4) b1(3) mid by auto
  qed
qed

text \<open>
  \<open>tick_inv N k te\<close>: after \<open>k\<close> orders whose ids are below \<open>N\<close>, the book is sound and holds only ids
  below \<open>N\<close> or from the strategy's range, and no price has drifted more than three ticks per order.
\<close>

definition price_limit :: "nat \<Rightarrow> int" where
  "price_limit k = 2 ^ 59 + 3 * int k"

definition tick_inv :: "nat \<Rightarrow> nat \<Rightarrow> tick_engine \<Rightarrow> bool" where
  "tick_inv N k te \<longleftrightarrow> book_inv (te_book te) \<and> N \<le> 10 ^ 9 \<and>
     (\<forall>i \<in> a_ids (abs_book (te_book te)). unat i < N \<or> 10 ^ 9 \<le> unat i \<and> unat i < unat (strategy_id_cursor te)) \<and>
     10 ^ 9 \<le> unat (strategy_id_cursor te) \<and> unat (strategy_id_cursor te) \<le> 10 ^ 9 + 2 * k \<and>
     prices_in (price_limit k) (abs_book (te_book te)) \<and> half_spread (te_mm te) = 3 \<and>
     - price_limit k \<le> last_mid (te_mm te) \<and> last_mid (te_mm te) \<le> price_limit k \<and>
     hist_ok (te_hist te) \<and> processed te = of_nat k"

definition feed_order :: "nat \<Rightarrow> Order \<Rightarrow> bool" where
  "feed_order N r \<longleftrightarrow> N \<le> unat (ord_id r) \<and> unat (ord_id r) < 10 ^ 9 \<and> - (2 ^ 59) \<le> ord_price r \<and> ord_price r \<le> 2 ^ 59"

lemma hist_record_ok:
  assumes "hist_ok h"
  shows "\<exists>h'. hist_record v h = Some h' \<and> hist_ok h'"
  using index_for_in_range [OF assms, of v] assms by (auto simp: hist_record_def Let_def hist_ok_def)

lemma process_order_total:
  assumes "tick_inv N k te" and "feed_order N r" and "k < 2 ^ 56"
  shows "\<exists>te'. process_order r ts lat te = Some te' \<and> tick_inv (Suc (unat (ord_id r))) (Suc k) te'"
proof -
  let ?b = "te_book te" and ?n = "strategy_id_cursor te" and ?M = "price_limit k"
  have inv: "book_inv ?b" and cur: "10 ^ 9 \<le> unat ?n" "unat ?n \<le> 10 ^ 9 + 2 * k"
    and old: "\<forall>i \<in> a_ids (abs_book ?b). unat i < N \<or> 10 ^ 9 \<le> unat i \<and> unat i < unat ?n"
    and mm: "half_spread (te_mm te) = 3" "- ?M \<le> last_mid (te_mm te)" "last_mid (te_mm te) \<le> ?M" "prices_in ?M (abs_book ?b)"
    using assms(1) by (simp_all add: tick_inv_def)
  have n: "unat (?n + 1) = unat ?n + 1" "unat (?n + 2) = unat ?n + 2"
    using cur(2) assms(3) by (simp_all add: unat_word_ariths)
  have new: "ord_id r \<notin> a_ids (abs_book ?b)" and r: "N \<le> unat (ord_id r)" "unat (ord_id r) < 10 ^ 9"
    using old assms(2) by (auto simp: feed_order_def)
  from lb.add_law [OF inv new, of "ord_side r" "ord_price r" "ord_qty r" ts "[]"] obtain b1 trs1 where
    b1: "add_limit_order ?b (ord_id r) (ord_side r) (ord_price r) (ord_qty r) ts [] = Some (b1, trs1)" "book_inv b1"
      "abs_book b1 = fst (spec_add (abs_book ?b) (ord_id r) (ord_side r) (ord_price r) (ord_qty r) ts)"
    by blast
  have ids1: "a_ids (abs_book b1) \<subseteq> insert (ord_id r) (a_ids (abs_book ?b))"
    unfolding b1(3) by (rule a_ids_add)
  have fresh: "?n \<notin> a_ids (abs_book b1)" "?n + 1 \<notin> a_ids (abs_book b1)"
    using ids1 old r cur n by fastforce+
  have win1: "prices_in ?M (abs_book b1)"
    unfolding b1(3) using assms(2) by (intro prices_in_add mm(4)) (simp_all add: feed_order_def price_limit_def)
  have "?M + half_spread (te_mm te) < 2 ^ 60"
    using assms(3) mm(1) by (simp add: price_limit_def)
  from on_tick_total [OF b1(2) fresh win1 mm(2,3) _ this, of ts trs1] mm(1) obtain mm' b2 n' trs2 where
    2: "on_tick (te_mm te) b1 ?n ts trs1 = Some (mm', b2, n', trs2)" "book_inv b2" "n' = ?n \<or> n' = ?n + 2"
      "a_ids (abs_book b2) \<subseteq> a_ids (abs_book b1) \<union> (if n' = ?n then {} else {?n, ?n + 1})"
      "prices_in (?M + 3) (abs_book b2)" "half_spread mm' = 3" "- ?M \<le> last_mid mm'" "last_mid mm' \<le> ?M"
    by auto
  obtain h where h: "hist_record lat (te_hist te) = Some h" "hist_ok h"
    using hist_record_ok [of "te_hist te" lat] assms(1) by (auto simp: tick_inv_def)
  have "\<forall>i \<in> a_ids (abs_book b2). unat i < Suc (unat (ord_id r)) \<or> 10 ^ 9 \<le> unat i \<and> unat i < unat n'"
    using 2(3,4) ids1 old r cur(1) n by (fastforce split: if_splits)
  moreover have "10 ^ 9 \<le> unat n'" "unat n' \<le> 10 ^ 9 + 2 * Suc k"
    using 2(3) cur n by auto
  ultimately show ?thesis
    using b1(1) 2 h r assms(1) by (auto simp: process_order_def tick_inv_def price_limit_def)
qed

section \<open>Whole feeds\<close>

text \<open>
  A feed is acceptable when its ids increase below the strategy's id range and its prices leave head room
  in 64 bits. A handled order is paired with the latency measured for it; time stamps do not matter for
  comparing it with the feed.
\<close>

definition feed_ok :: "Order list \<Rightarrow> bool" where
  "feed_ok rs \<longleftrightarrow> sorted_wrt (\<lambda>r r'. unat (ord_id r) < unat (ord_id r')) rs \<and> (\<forall>r \<in> set rs. feed_order 0 r)"

definition unstamped :: "Order \<Rightarrow> Order" where
  "unstamped r = r\<lparr>ord_ts_ns := 0\<rparr>"

definition process_all :: "(Order \<times> u64) list \<Rightarrow> tick_engine \<Rightarrow> tick_engine option" where
  "process_all = fold_opt (\<lambda>(r, lat). process_order r (ord_ts_ns r) lat)"

lemma feed_ok_unstamped: "feed_ok (map unstamped rs) = feed_ok rs"
  by (simp add: feed_ok_def unstamped_def sorted_wrt_map feed_order_def)

lemma feed_ok_append: "feed_ok (rs @ rs') \<Longrightarrow> feed_ok rs"
  by (simp add: feed_ok_def sorted_wrt_append)

text \<open>The default feed of the program is acceptable, up to the first id of the strategy.\<close>

lemma synthetic_feed_ok:
  assumes "\<forall>d \<in> set ds. draw_ok max_qty d" and "length ds < 10 ^ 9 - 1"
  shows "feed_ok (generate_synthetic 10000 ds)"
proof -
  let ?fs = "synthetic 10000 1 ds"
  have id: "unat (ord_id (?fs ! i)) = Suc i" if "i < length ds" for i
  proof -
    have "ord_id (?fs ! i) = of_nat (Suc i)"
      using synthetic_bounds [OF assms(1) that, of 10000 1] by simp
    then show ?thesis
      using that assms(2) by (simp only:) (rule u64_of_nat, simp)
  qed
  moreover have "\<bar>ord_price (?fs ! i) - 10000\<bar> \<le> 3 * int (Suc i) + 5" if "i < length ds" for i
    using synthetic_bounds [OF assms(1) that, of 10000 1] by simp
  ultimately have "feed_order 0 (?fs ! i)" if "i < length ds" for i
    using that assms(2) by (fastforce simp: feed_order_def abs_le_iff)
  with id show ?thesis
    by (auto simp: feed_ok_def generate_synthetic_def sorted_wrt_iff_nth_less in_set_conv_nth)
qed

lemma tick_inv_init: "cap \<le> 2 ^ 31 \<Longrightarrow> tick_inv 0 0 (tick_engine_init cap)"
  using default_histogram(1)
  by (simp add: tick_inv_def tick_engine_init_def book_inv_init a_ids_init prices_in_def a_prices_def a_orders_def
      market_maker_init_def price_limit_def hist_inv_def)

lemma process_all_from:
  assumes "tick_inv N k te" and "sorted_wrt (\<lambda>r r'. unat (ord_id r) < unat (ord_id r')) (map fst hs)"
    and "\<forall>r \<in> fst ` set hs. feed_order N r" and "k + length hs \<le> 2 ^ 56"
  shows "\<exists>N' te'. process_all hs te = Some te' \<and> tick_inv N' (k + length hs) te'"
  using assms
proof (induction hs arbitrary: N k te)
  case Nil
  then show ?case by (auto simp: process_all_def)
next
  case (Cons h hs)
  obtain r lat where h: "h = (r, lat)"
    by (cases h)
  from process_order_total [OF Cons.prems(1), of r "ord_ts_ns r" lat] Cons.prems(3,4) obtain te1 where
    te1: "process_order r (ord_ts_ns r) lat te = Some te1" "tick_inv (Suc (unat (ord_id r))) (Suc k) te1"
    by (auto simp: h)
  have "\<forall>r' \<in> fst ` set hs. feed_order (Suc (unat (ord_id r))) r'"
    using Cons.prems(2,3) by (auto simp: h feed_order_def)
  with Cons.IH [OF te1(2)] Cons.prems(2,4) te1(1) show ?case
    by (simp add: h process_all_def)
qed

lemma process_all_total:
  assumes "feed_ok (map fst hs)" and "cap \<le> 2 ^ 31" and "length hs \<le> 2 ^ 56"
  obtains N te where "process_all hs (tick_engine_init cap) = Some te" and "tick_inv N (length hs) te"
  using process_all_from [OF tick_inv_init [OF assms(2)], of hs] assms(1,3) by (auto simp: feed_ok_def)

section \<open>Every interleaving replays the feed\<close>

fun in_hand :: "feed_pc \<Rightarrow> Order list" where
  "in_hand (Feed_push r) = [r]"
| "in_hand _ = []"

definition replay_inv :: "nat \<Rightarrow> nat \<Rightarrow> Order list \<Rightarrow> (Order \<times> u64) list \<Rightarrow> replay \<Rightarrow> bool" where
  "replay_inv cap room feed_events hs s \<longleftrightarrow>
     spsc_inv (rp_ring s) \<and> length (buffer (rp_ring s)) - 1 = room \<and>
     map unstamped (map fst hs @ spsc_list (rp_ring s) @ in_hand (rp_feed_pc s) @ rp_left s) = map unstamped feed_events \<and>
     process_all hs (tick_engine_init cap) = Some (rp_engine s) \<and>
     (feed_done s \<longleftrightarrow> rp_feed_pc s = Feed_finished) \<and> (feed_done s \<longrightarrow> rp_left s = []) \<and>
     (rp_engine_pc s = Engine_finished \<longrightarrow> feed_done s \<and> spsc_list (rp_ring s) = [])"

lemma replay_inv_init:
  assumes "pow2 ring_cap"
  shows "replay_inv cap (ring_cap - 1) fs [] (replay_init cap ring_cap d fs)"
  using spsc_init_inv [OF assms, of d]
  by (simp add: replay_inv_def replay_init_def process_all_def) (simp add: spsc_init_def)

lemma unstamped_stamp [simp]: "unstamped (r\<lparr>ord_ts_ns := t\<rparr>) = unstamped r"
  by (simp add: unstamped_def)

lemma feed_step_inv:
  assumes "replay_inv cap room fs hs s"
  shows "replay_inv cap room fs hs (feed_step now s)"
proof (cases "rp_feed_pc s")
  case Feed_next
  then show ?thesis
    using assms by (cases "rp_left s") (auto simp: feed_step_def replay_inv_def)
next
  case (Feed_push r)
  show ?thesis
  proof (cases "spsc_push (rp_ring s) r")
    case None
    with Feed_push assms show ?thesis by (simp add: feed_step_def)
  next
    case (Some q)
    with sq.push_Some [OF _ Some] assms Feed_push show ?thesis
      by (auto simp: feed_step_def replay_inv_def)
  qed
next
  case Feed_finished
  with assms show ?thesis by (simp add: feed_step_def)
qed

lemma engine_step_inv:
  assumes inv: "replay_inv cap room fs hs s" and "feed_ok fs" and "cap \<le> 2 ^ 31" and "length fs \<le> 2 ^ 56"
  shows "\<exists>s' hs'. engine_step lat s = Some s' \<and> replay_inv cap room fs hs' s'"
proof (cases "rp_engine_pc s = Engine_loop \<and> spsc_list (rp_ring s) \<noteq> []")
  case True
  then obtain r rs where ring: "spsc_list (rp_ring s) = r # rs"
    by (auto simp: neq_Nil_conv)
  have "spsc_inv (rp_ring s)"
    using inv by (simp add: replay_inv_def)
  from sq.pop_Cons [OF this ring] obtain q where
    q: "spsc_pop (rp_ring s) = Some (r, q)" "spsc_inv q" "spsc_list q = rs" "length (buffer q) - 1 = length (buffer (rp_ring s)) - 1"
    by blast
  let ?hs = "hs @ [(r, lat)]"
  have all: "map unstamped (map fst ?hs @ rs @ in_hand (rp_feed_pc s) @ rp_left s) = map unstamped fs"
    using inv ring by (simp add: replay_inv_def)
  then have "feed_ok (map fst ?hs @ rs @ in_hand (rp_feed_pc s) @ rp_left s)"
    using assms(2) by (metis feed_ok_unstamped)
  then have "feed_ok (map fst ?hs)"
    by (rule feed_ok_append)
  moreover have "length ?hs \<le> 2 ^ 56"
    using arg_cong [OF all, of length] assms(4) by simp
  ultimately obtain N te where te: "process_all ?hs (tick_engine_init cap) = Some te"
    using process_all_total [OF _ assms(3)] by blast
  moreover have "process_all hs (tick_engine_init cap) = Some (rp_engine s)"
    using inv by (simp add: replay_inv_def)
  ultimately have "process_order r (ord_ts_ns r) lat (rp_engine s) = Some te"
    by (simp add: process_all_def fold_opt_append split: option.splits)
  with q te all True inv show ?thesis
    by (intro exI [of _ "s\<lparr>rp_ring := q, rp_engine := te\<rparr>"] exI [of _ ?hs]) (simp add: engine_step_def replay_inv_def)
next
  case False
  have ok: "spsc_inv (rp_ring s)"
    using inv by (simp add: replay_inv_def)
  have "engine_step lat s = Some (s\<lparr>rp_engine_pc := (case rp_engine_pc s of Engine_loop \<Rightarrow> Engine_check
      | Engine_check \<Rightarrow> if feed_done s \<and> spsc_list (rp_ring s) = [] then Engine_finished else Engine_loop
      | Engine_finished \<Rightarrow> Engine_finished)\<rparr>)"
    using False sq.pop_None [OF ok] by (cases "rp_engine_pc s") (auto simp: engine_step_def spsc_empty_iff [OF ok])
  with inv False show ?thesis
    by (intro exI conjI) (assumption, auto simp: replay_inv_def split: engine_pc.splits)
qed

lemma replay_acts_inv:
  assumes "replay_inv cap room fs hs s" and "feed_ok fs" and "cap \<le> 2 ^ 31" and "length fs \<le> 2 ^ 56"
  obtains s' hs' where "fold_opt replay_step acts s = Some s'" and "replay_inv cap room fs hs' s'"
proof -
  have "\<exists>s'. fold_opt replay_step acts s = Some s' \<and> (\<exists>hs'. replay_inv cap room fs hs' s')"
  proof (rule fold_opt_total)
    fix a s assume "\<exists>hs. replay_inv cap room fs hs s"
    then show "\<exists>s'. replay_step a s = Some s' \<and> (\<exists>hs'. replay_inv cap room fs hs' s')"
      using feed_step_inv engine_step_inv [OF _ assms(2-4)] by (cases a) (fastforce, force)
  qed (use assms in blast)
  with that show thesis by blast
qed

text \<open>
  (C35) The replay is exact under every interleaving. Whatever steps the feed thread and the engine thread
  take, no step runs into undefined behaviour, the book stays sound, and the engine's state is the one of
  processing a prefix of the feed in order, each order once; when the engine thread has finished, it is the
  whole feed and the counter of processed orders equals its length.
\<close>
theorem replay_exact:
  assumes "feed_ok fs" and "length fs \<le> 2 ^ 56" and "cap \<le> 2 ^ 31" and "pow2 ring_cap"
  shows "\<exists>s hs. fold_opt replay_step acts (replay_init cap ring_cap d fs) = Some s \<and>
    process_all hs (tick_engine_init cap) = Some (rp_engine s) \<and> book_inv (te_book (rp_engine s)) \<and>
    map (unstamped \<circ> fst) hs = map unstamped (take (length hs) fs) \<and> processed (rp_engine s) = of_nat (length hs) \<and>
    (rp_engine_pc s = Engine_finished \<longrightarrow> length hs = length fs)"
proof -
  from replay_acts_inv [OF replay_inv_init [OF assms(4)] assms(1,3,2)] obtain s hs where
    s: "fold_opt replay_step acts (replay_init cap ring_cap d fs) = Some s" "replay_inv cap (ring_cap - 1) fs hs s"
    by blast
  let ?later = "spsc_list (rp_ring s) @ in_hand (rp_feed_pc s) @ rp_left s"
  have all: "map unstamped (map fst hs @ ?later) = map unstamped fs"
    and eng: "process_all hs (tick_engine_init cap) = Some (rp_engine s)"
    using s(2) by (simp_all add: replay_inv_def)
  have len: "length hs + length ?later = length fs"
    using arg_cong [OF all, of length] by simp
  have "feed_ok (map fst hs)"
    using feed_ok_append feed_ok_unstamped all assms(1) by metis
  moreover have "length hs \<le> 2 ^ 56"
    using len assms(2) by linarith
  ultimately obtain N where "tick_inv N (length hs) (rp_engine s)"
    using process_all_total [OF _ assms(3), of hs] eng by (metis option.inject)
  moreover have "map (unstamped \<circ> fst) hs = map unstamped (take (length hs) fs)"
    using arg_cong [OF all, of "take (length hs)"] by (simp add: take_map)
  moreover have "length hs = length fs" if "rp_engine_pc s = Engine_finished"
    using s(2) len that by (auto simp: replay_inv_def)
  ultimately show ?thesis
    using s(1) eng by (auto simp: tick_inv_def)
qed

definition demo_feed :: "Order list" where
  "demo_feed = [\<lparr>ord_id = 1, ord_side = Buy, ord_price = 100, ord_qty = 5, ord_ts_ns = 0\<rparr>,
     \<lparr>ord_id = 2, ord_side = Sell, ord_price = 99, ord_qty = 3, ord_ts_ns = 0\<rparr>]"

lemma demo_feed_ok: "feed_ok demo_feed"
  by (simp add: demo_feed_def feed_ok_def feed_order_def)

lemma pow2_2: "pow2 2"
  by (auto simp: pow2_def intro: exI [of _ 1])

section \<open>The replay ends\<close>

text \<open>
  The work left: two steps of the feed thread per order and one to finish, one step of the engine per queued
  order, and the engine's way out of its loop.
\<close>

definition engine_left :: "replay \<Rightarrow> nat" where
  "engine_left s = (case rp_engine_pc s of Engine_loop \<Rightarrow> 2
     | Engine_check \<Rightarrow> if feed_done s \<and> spsc_list (rp_ring s) = [] then 1 else 3
     | Engine_finished \<Rightarrow> 0)"

definition feed_left :: "replay \<Rightarrow> nat" where
  "feed_left s = (case rp_feed_pc s of Feed_next \<Rightarrow> 4 | Feed_push _ \<Rightarrow> 8 | Feed_finished \<Rightarrow> 0) + 8 * length (rp_left s)"

definition work_left :: "replay \<Rightarrow> nat" where
  "work_left s = feed_left s + length (spsc_list (rp_ring s)) + engine_left s"

lemma feed_step_work:
  assumes "replay_inv cap room fs hs s"
  shows "work_left (feed_step now s) + 3 \<le> work_left s \<or>
    feed_step now s = s \<and> (feed_done s \<or> length (spsc_list (rp_ring s)) = room)"
proof -
  have ok: "spsc_inv (rp_ring s)" and room: "length (buffer (rp_ring s)) - 1 = room"
    and flag: "feed_done s \<longleftrightarrow> rp_feed_pc s = Feed_finished"
    and last: "rp_engine_pc s = Engine_finished \<longrightarrow> feed_done s"
    using assms unfolding replay_inv_def by blast+
  show ?thesis
  proof (cases "rp_feed_pc s")
    case Feed_next
    then show ?thesis
      using flag last by (cases "rp_left s")
        (auto simp: feed_step_def work_left_def feed_left_def engine_left_def split: engine_pc.splits)
  next
    case (Feed_push r)
    then show ?thesis
      using flag last sq.push_None [OF ok, of r] sq.push_Some [OF ok, of r] room
      by (cases "spsc_push (rp_ring s) r")
        (auto simp: feed_step_def work_left_def feed_left_def engine_left_def split: engine_pc.splits)
  next
    case Feed_finished
    then show ?thesis
      using flag by (simp add: feed_step_def)
  qed
qed

lemma engine_step_work:
  assumes "replay_inv cap room fs hs s" and "engine_step lat s = Some s'"
  shows "work_left s' \<le> work_left s + 1"
    and "feed_done s \<or> spsc_list (rp_ring s) \<noteq> [] \<Longrightarrow> rp_engine_pc s \<noteq> Engine_finished \<Longrightarrow> work_left s' < work_left s"
proof -
  have ok: "spsc_inv (rp_ring s)"
    using assms by (simp add: replay_inv_def)
  note laws = sq.pop_None [OF ok] sq.pop_Some [OF ok] spsc_empty_iff [OF ok]
  show "work_left s' \<le> work_left s + 1"
    using assms(2) laws
    by (auto simp: engine_step_def work_left_def feed_left_def engine_left_def split: engine_pc.splits option.splits)
  show "feed_done s \<or> spsc_list (rp_ring s) \<noteq> [] \<Longrightarrow> rp_engine_pc s \<noteq> Engine_finished \<Longrightarrow> work_left s' < work_left s"
    using assms(2) laws
    by (auto simp: engine_step_def work_left_def feed_left_def engine_left_def split: engine_pc.splits option.splits)
qed

fun round_robin :: "(Nanos \<times> u64) list \<Rightarrow> replay_action list" where
  "round_robin [] = []"
| "round_robin ((now, lat) # ts) = Feed_acts now # Engine_acts lat # round_robin ts"

lemma engine_pc_feed_step [simp]: "rp_engine_pc (feed_step now s) = rp_engine_pc s"
  by (simp add: feed_step_def split: feed_pc.splits list.splits option.splits)

lemma round_work:
  assumes inv: "replay_inv cap room fs hs s" and "1 \<le> room" and "engine_step lat (feed_step now s) = Some s'"
    and "rp_engine_pc s \<noteq> Engine_finished"
  shows "work_left s' < work_left s"
proof -
  note work = engine_step_work [OF feed_step_inv [OF inv] assms(3)]
  show ?thesis
    using feed_step_work [OF inv, of now]
  proof
    assume "work_left (feed_step now s) + 3 \<le> work_left s"
    with work(1) show ?thesis by linarith
  next
    assume "feed_step now s = s \<and> (feed_done s \<or> length (spsc_list (rp_ring s)) = room)"
    with work(2) assms(2,4) show ?thesis by fastforce
  qed
qed

lemma rounds_finish:
  assumes "replay_inv cap room fs hs s" and "1 \<le> room" and ok: "feed_ok fs" "cap \<le> 2 ^ 31" "length fs \<le> 2 ^ 56"
    and "work_left s \<le> length ts"
  shows "\<exists>s' hs'. fold_opt replay_step (round_robin ts) s = Some s' \<and> replay_inv cap room fs hs' s' \<and> rp_engine_pc s' = Engine_finished"
  using assms(1,6)
proof (induction ts arbitrary: s hs)
  case Nil
  then have "rp_engine_pc s = Engine_finished"
    by (auto simp: work_left_def engine_left_def split: engine_pc.splits if_splits)
  with Nil show ?case by auto
next
  case (Cons t ts)
  obtain now lat where t: "t = (now, lat)"
    by (cases t)
  from engine_step_inv [OF feed_step_inv [OF Cons.prems(1)] ok] obtain s1 hs1 where
    s1: "engine_step lat (feed_step now s) = Some s1" "replay_inv cap room fs hs1 s1"
    by blast
  have "work_left s1 \<le> length ts"
  proof (cases "rp_engine_pc s = Engine_finished")
    case True
    then have "rp_feed_pc s = Feed_finished" "rp_left s = []" "spsc_list (rp_ring s) = []"
      using Cons.prems(1) unfolding replay_inv_def by blast+
    with True s1(1) show ?thesis
      by (auto simp: engine_step_def feed_step_def work_left_def feed_left_def engine_left_def)
  next
    case False
    with round_work [OF Cons.prems(1) assms(2) s1(1)] Cons.prems(2) show ?thesis by simp
  qed
  with Cons.IH [OF s1(2)] s1(1) show ?case by (simp add: t)
qed

lemma replay_ends:
  assumes "feed_ok fs" and "length fs \<le> 2 ^ 56" and "cap \<le> 2 ^ 31" and "pow2 ring_cap" and "2 \<le> ring_cap"
    and "8 * length fs + 6 \<le> length ts"
  shows "\<exists>s hs. fold_opt replay_step (round_robin ts) (replay_init cap ring_cap d fs) = Some s \<and>
    replay_inv cap (ring_cap - 1) fs hs s \<and> rp_engine_pc s = Engine_finished"
proof -
  let ?s = "replay_init cap ring_cap d fs"
  have "work_left ?s \<le> length ts"
    using assms(6) spsc_init_inv [OF assms(4), of d]
    by (simp add: work_left_def feed_left_def engine_left_def replay_init_def)
  with rounds_finish [OF replay_inv_init [OF assms(4)] _ assms(1,3,2)] assms(5) show ?thesis
    by fastforce
qed

theorem replay_exact_witness:
  "\<exists>s hs. fold_opt replay_step (round_robin (replicate 22 (1, 5))) (replay_init 4 2 (hd demo_feed) demo_feed) = Some s \<and>
    process_all hs (tick_engine_init 4) = Some (rp_engine s) \<and> book_inv (te_book (rp_engine s)) \<and>
    map (unstamped \<circ> fst) hs = map unstamped demo_feed \<and> processed (rp_engine s) = 2 \<and> rp_engine_pc s = Engine_finished"
proof -
  have small: "length demo_feed \<le> 2 ^ 56" "4 \<le> (2 :: nat) ^ 31" "length demo_feed = 2"
    by (simp_all add: demo_feed_def)
  from replay_ends [OF demo_feed_ok small(1,2) pow2_2, of "replicate 22 (1, 5)" "hd demo_feed"] small(3) obtain s where
    s: "fold_opt replay_step (round_robin (replicate 22 (1, 5))) (replay_init 4 2 (hd demo_feed) demo_feed) = Some s"
      "rp_engine_pc s = Engine_finished"
    by auto
  with replay_exact [OF demo_feed_ok small(1,2) pow2_2, of "round_robin (replicate 22 (1, 5))" "hd demo_feed"] small(3) show ?thesis
    by auto
qed

lemma replay_done:
  assumes "feed_ok fs" and "length fs \<le> 2 ^ 56" and "cap \<le> 2 ^ 31" and "pow2 ring_cap" and "2 \<le> ring_cap"
    and "8 * length fs + 6 \<le> length ts"
  shows "\<exists>s hs. fold_opt replay_step (round_robin ts) (replay_init cap ring_cap d fs) = Some s \<and>
    rp_engine_pc s = Engine_finished \<and> rp_feed_pc s = Feed_finished \<and> process_all hs (tick_engine_init cap) = Some (rp_engine s) \<and>
    map (unstamped \<circ> fst) hs = map unstamped fs \<and> book_inv (te_book (rp_engine s)) \<and> processed (rp_engine s) = of_nat (length fs)"
proof -
  from replay_ends [OF assms] obtain s hs where
    s: "fold_opt replay_step (round_robin ts) (replay_init cap ring_cap d fs) = Some s" "replay_inv cap (ring_cap - 1) fs hs s"
      "rp_engine_pc s = Engine_finished"
    by blast
  then have fin: "rp_feed_pc s = Feed_finished" "map unstamped (map fst hs) = map unstamped fs"
      "process_all hs (tick_engine_init cap) = Some (rp_engine s)"
    by (auto simp: replay_inv_def)
  have "feed_ok (map fst hs)"
    using assms(1) fin(2) by (metis feed_ok_unstamped)
  moreover have "length hs = length fs"
    using map_eq_imp_length_eq [OF fin(2)] by simp
  ultimately obtain N where "tick_inv N (length fs) (rp_engine s)"
    using process_all_total [OF _ assms(3), of hs] assms(2) fin(3) by (metis option.inject)
  with s fin show ?thesis
    by (auto simp: tick_inv_def)
qed

text \<open>
  The replay ends. With a ring of at least two slots, if the two threads take turns, then after eight
  rounds per order and six more both loops have been left and every order of the feed is processed; neither
  the full ring nor the check of the end flag makes them wait for each other forever.
\<close>
lemma replay_finishes:
  assumes "feed_ok fs" and "length fs \<le> 2 ^ 56" and "cap \<le> 2 ^ 31" and "pow2 ring_cap" and "2 \<le> ring_cap"
    and "8 * length fs + 6 \<le> length ts"
  shows "\<exists>s. fold_opt replay_step (round_robin ts) (replay_init cap ring_cap d fs) = Some s \<and>
    rp_engine_pc s = Engine_finished \<and> rp_feed_pc s = Feed_finished \<and> processed (rp_engine s) = of_nat (length fs)"
  using replay_done [OF assms] by blast

end
