(* ===== verification/Multicast_Feed.thy ===== *)
theory Multicast_Feed
  imports Tick_Engine Command_Line Wire_Protocol "HOL-Library.Sublist"
begin

text \<open>
  The two processes of the multicast split: \<^verbatim>\<open>src/feed_publisher.cpp\<close>, which sends one datagram per
  order and a last one with id 0, and the receive loop of \<^verbatim>\<open>src/engine_subscriber.cpp\<close>. The network
  between them is an argument: the list of what \<^verbatim>\<open>recv\<close> returns. The theory shows what the subscriber
  has processed, and what its counter of dropped packets says, when datagrams are lost on the way.
\<close>

section \<open>The publisher\<close>

definition publisher_events :: "string option \<Rightarrow> (nat \<Rightarrow> draw) \<Rightarrow> publisher_options \<Rightarrow> feed_error + Order list" where
  "publisher_events file_content draws opts =
     (if po_data_file opts = [] then Inr (generate_synthetic 10000 (map draws [0..<unat (po_synthetic_count opts)]))
      else load_csv file_content)"

definition end_marker :: WireOrder where
  "end_marker = \<lparr>wo_id = 0, wo_side = 0, wo_price = 0, wo_qty = 0, wo_ts_ns = 0\<rparr>"

definition publish :: "Order list \<Rightarrow> u8 list list" where
  "publish events = map (\<lambda>r. encode_WireOrder (to_wire r)) events @ [encode_WireOrder end_marker]"

section \<open>The subscriber\<close>

record subscriber =
  sb_engine :: tick_engine
  expected_id :: u64
  dropped :: u64

definition subscriber_init :: "nat \<Rightarrow> subscriber" where
  "subscriber_init cap = \<lparr>sb_engine = tick_engine_init cap, expected_id = 1, dropped = 0\<rparr>"

definition note_id :: "u64 \<Rightarrow> subscriber \<Rightarrow> subscriber" where
  "note_id i s =
     s\<lparr>dropped := (if i \<noteq> expected_id s then dropped s + (if i > expected_id s then i - expected_id s else 0) else dropped s),
       expected_id := i + 1\<rparr>"

text \<open>
  What \<^verbatim>\<open>recv\<close> into the 29 byte structure yields: the datagram, cut off behind the structure's size, or
  an error. A received order comes with the clock reading and the latency measured for it.
\<close>

datatype udp_recv = Datagram "u8 list" | Udp_error

fun subscriber_step :: "udp_recv \<times> Nanos \<times> u64 \<Rightarrow> subscriber \<Rightarrow> (bool \<times> subscriber) option" where
  "subscriber_step (Udp_error, recv_ns, lat) s = Some (False, s)"
| "subscriber_step (Datagram bytes, recv_ns, lat) s =
     (let w = decode_WireOrder (take sizeof_WireOrder bytes)
      in if length (take sizeof_WireOrder bytes) \<noteq> sizeof_WireOrder then Some (True, s)
         else if wo_id w = 0 then Some (False, s)
         else let s' = note_id (wo_id w) s
              in map_option (\<lambda>te. (True, s'\<lparr>sb_engine := te\<rparr>)) (process_order (from_wire w) recv_ns lat (sb_engine s')))"

text \<open>The loop; the result tells whether it was left or still waits in \<^verbatim>\<open>recv\<close>.\<close>

fun subscriber_loop :: "(udp_recv \<times> Nanos \<times> u64) list \<Rightarrow> subscriber \<Rightarrow> (bool \<times> subscriber) option" where
  "subscriber_loop [] s = Some (False, s)"
| "subscriber_loop (e # es) s =
     (case subscriber_step e s of
        None \<Rightarrow> None
      | Some (go_on, s') \<Rightarrow> if go_on then subscriber_loop es s' else Some (True, s'))"

section \<open>Loss is accounted for\<close>

text \<open>The orders of a published feed: numbered from 1, below the strategy's ids, with sides and prices the wire can carry.\<close>

definition published_ok :: "Order list \<Rightarrow> bool" where
  "published_ok events \<longleftrightarrow> map (\<lambda>r. unat (ord_id r)) events = [1..<Suc (length events)] \<and>
     (\<forall>r \<in> set events. feed_order 0 r \<and> (ord_side r = Buy \<or> ord_side r = Sell))"

lemma published_feed: "published_ok events \<Longrightarrow> feed_ok events"
proof -
  assume ok: "published_ok events"
  then have "sorted_wrt (<) (map (\<lambda>r. unat (ord_id r)) events)"
    unfolding published_ok_def by (metis sorted_wrt_upt)
  then have "sorted_wrt (\<lambda>r r'. unat (ord_id r) < unat (ord_id r')) events"
    by (simp add: sorted_wrt_map)
  with ok show ?thesis
    unfolding published_ok_def feed_ok_def by blast
qed

text \<open>The default feed of the publisher is one, whatever the random draws.\<close>

lemma side_synthetic: "r \<in> set (synthetic mid n ds) \<Longrightarrow> ord_side r = Buy \<or> ord_side r = Sell"
  by (induction ds arbitrary: mid n) (auto simp: Let_def split: if_splits)

lemma publisher_events_ok:
  assumes "po_data_file opts = []" and "\<forall>i. draw_ok max_qty (draws i)" and "unat (po_synthetic_count opts) < 10 ^ 9 - 1"
  obtains events where "publisher_events content draws opts = Inr events" and "published_ok events"
    and "length events = unat (po_synthetic_count opts)"
proof -
  let ?ds = "map draws [0..<unat (po_synthetic_count opts)]"
  let ?events = "generate_synthetic 10000 ?ds"
  have ds: "\<forall>d \<in> set ?ds. draw_ok max_qty d"
    using assms(2) by simp
  have "unat (ord_id (?events ! i)) = Suc i" if "i < length ?ds" for i
  proof -
    have "ord_id (?events ! i) = of_nat (Suc i)"
      using synthetic_bounds [OF ds that, of 10000 1] by (simp add: generate_synthetic_def)
    then show ?thesis
      using that assms(3) by (simp only:) (rule u64_of_nat, simp)
  qed
  then have "map (\<lambda>r. unat (ord_id r)) ?events = [1..<Suc (length ?events)]"
    by (intro nth_equalityI) (simp_all add: generate_synthetic_def del: upt_Suc)
  moreover have "feed_ok ?events"
    using synthetic_feed_ok [OF ds] assms(3) by simp
  ultimately have "published_ok ?events"
    using side_synthetic unfolding published_ok_def feed_ok_def generate_synthetic_def by blast
  with that [of ?events] assms(1) show thesis
    by (simp add: publisher_events_def generate_synthetic_def)
qed

lemma sorted_wrt_subseq: "subseq xs ys \<Longrightarrow> sorted_wrt P ys \<Longrightarrow> sorted_wrt P xs"
  by (induction rule: list_emb.induct) (auto dest: list_emb_set)

lemma tick_inv_Suc: "tick_inv N k te \<Longrightarrow> N < 10 ^ 9 \<Longrightarrow> tick_inv (Suc N) k te"
  by (auto simp: tick_inv_def less_Suc_eq)

definition sub_inv :: "nat \<Rightarrow> nat \<Rightarrow> subscriber \<Rightarrow> bool" where
  "sub_inv p k s \<longleftrightarrow> tick_inv (Suc p) k (sb_engine s) \<and> expected_id s = of_nat (Suc p) \<and>
     dropped s + processed (sb_engine s) = of_nat p"

lemma process_order_counts: "process_order r ts lat te = Some te' \<Longrightarrow> processed te' = processed te + 1"
  by (auto simp: process_order_def split: option.splits prod.splits)

lemma subscriber_order:
  assumes "sub_inv p k s" and r: "feed_order (Suc p) r" "ord_side r = Buy \<or> ord_side r = Sell" and "k < 2 ^ 56"
    and i: "i = unat (ord_id r)"
  obtains te where "process_order r ts lat (sb_engine s) = Some te"
    and "subscriber_step (Datagram (encode_WireOrder (to_wire r)), ts, lat) s = Some (True, (note_id (ord_id r) s)\<lparr>sb_engine := te\<rparr>)"
    and "sub_inv i (Suc k) ((note_id (ord_id r) s)\<lparr>sb_engine := te\<rparr>)"
proof -
  have inv: "tick_inv (Suc p) k (sb_engine s)" "expected_id s = of_nat (Suc p)"
    and sum: "dropped s + processed (sb_engine s) = of_nat p"
    using assms(1) by (simp_all add: sub_inv_def)
  from process_order_total [OF inv(1) r(1) assms(4), of ts lat] obtain te where
    te: "process_order r ts lat (sb_engine s) = Some te" "tick_inv (Suc i) (Suc k) te"
    unfolding i by blast
  have big: "Suc p \<le> i" "i < 10 ^ 9" and price: "i64_range (ord_price r)"
    using r(1) by (auto simp: feed_order_def i64_range_def i)
  have id: "ord_id r = of_nat i"
    by (simp add: i)
  have "wo_id (to_wire r) = ord_id r" "from_wire (to_wire r) = r" "ord_id r \<noteq> 0"
    using wire_order_round_trip [OF r(2) price] big(1) by (auto simp: to_wire_def i)
  then have step: "subscriber_step (Datagram (encode_WireOrder (to_wire r)), ts, lat) s = Some (True, (note_id (ord_id r) s)\<lparr>sb_engine := te\<rparr>)"
    using te(1) by (simp add: note_id_def)
  have less: "(of_nat (Suc p) :: u64) < of_nat i \<longleftrightarrow> Suc p < i"
    unfolding word_less_nat_alt using big by (subst (1 2) u64_of_nat) simp_all
  have new: "dropped (note_id (ord_id r) s) = dropped s + of_nat (i - Suc p)"
    using big less unfolding note_id_def id inv(2) by (auto simp: of_nat_diff le_less simp del: of_nat_Suc)
  have "dropped (note_id (ord_id r) s) + processed te = (dropped s + processed (sb_engine s)) + of_nat (i - Suc p) + 1"
    unfolding new process_order_counts [OF te(1)] by simp
  also have "\<dots> = of_nat i"
    unfolding sum using arg_cong [of "p + (i - Suc p) + 1" i "of_nat :: nat \<Rightarrow> u64"] big(1) by simp
  finally have "sub_inv i (Suc k) ((note_id (ord_id r) s)\<lparr>sb_engine := te\<rparr>)"
    using te(2) by (simp add: sub_inv_def note_id_def id)
  with te(1) step that show thesis by blast
qed

definition process_received :: "(Order \<times> Nanos \<times> u64) list \<Rightarrow> tick_engine \<Rightarrow> tick_engine option" where
  "process_received = fold_opt (\<lambda>(r, ts, lat). process_order r ts lat)"

definition carries :: "(u8 list \<times> Nanos \<times> u64) list \<Rightarrow> Order list \<Rightarrow> bool" where
  "carries ins delivered \<longleftrightarrow> (\<forall>x \<in> set ins. length (fst x) \<le> sizeof_WireOrder) \<and>
     filter (\<lambda>b. length b = sizeof_WireOrder) (map fst ins) = map (\<lambda>r. encode_WireOrder (to_wire r)) delivered"

lemma subscriber_orders:
  assumes "sub_inv p k s" and "sorted_wrt (\<lambda>r r'. unat (ord_id r) < unat (ord_id r')) delivered"
    and "\<forall>r \<in> set delivered. feed_order (Suc p) r \<and> (ord_side r = Buy \<or> ord_side r = Sell)"
    and "k + length delivered \<le> 2 ^ 56" and "carries ins delivered"
  shows "\<exists>s' stamps. length stamps = length delivered \<and> process_received (zip delivered stamps) (sb_engine s) = Some (sb_engine s') \<and>
    sub_inv (last (p # map (\<lambda>r. unat (ord_id r)) delivered)) (k + length delivered) s' \<and>
    subscriber_loop (map (apfst Datagram) ins @ es) s = subscriber_loop es s'"
  using assms
proof (induction ins arbitrary: p k s delivered)
  case Nil
  then show ?case by (auto simp: carries_def process_received_def)
next
  case (Cons x ins)
  obtain b ts lat where x: "x = (b, ts, lat)"
    by (cases x) auto
  show ?case
  proof (cases "length b = sizeof_WireOrder")
    case False
    with Cons.prems(5) have "carries ins delivered" "length b < sizeof_WireOrder"
      by (auto simp: carries_def x)
    with Cons.IH [OF Cons.prems(1-4)] show ?thesis
      by (simp add: x)
  next
    case True
    then obtain r rs where d: "delivered = r # rs" "b = encode_WireOrder (to_wire r)" "carries ins rs"
      using Cons.prems(5) by (auto simp: carries_def x Cons_eq_map_conv)
    have r: "feed_order (Suc p) r" "ord_side r = Buy \<or> ord_side r = Sell" "k < 2 ^ 56"
      using Cons.prems(3,4) by (auto simp: d)
    obtain te where te: "process_order r ts lat (sb_engine s) = Some te"
      "subscriber_step (Datagram b, ts, lat) s = Some (True, (note_id (ord_id r) s)\<lparr>sb_engine := te\<rparr>)"
      "sub_inv (unat (ord_id r)) (Suc k) ((note_id (ord_id r) s)\<lparr>sb_engine := te\<rparr>)"
      using subscriber_order [OF Cons.prems(1) r refl] unfolding d by blast
    have "\<forall>r' \<in> set rs. feed_order (Suc (unat (ord_id r))) r' \<and> (ord_side r' = Buy \<or> ord_side r' = Sell)"
      using Cons.prems(2,3) by (auto simp: d feed_order_def)
    from Cons.IH [OF te(3) _ this _ d(3)] Cons.prems(2,4) obtain s' stamps where
      s': "length stamps = length rs" "process_received (zip rs stamps) te = Some (sb_engine s')"
        "sub_inv (last (unat (ord_id r) # map (\<lambda>r. unat (ord_id r)) rs)) (Suc k + length rs) s'"
        "subscriber_loop (map (apfst Datagram) ins @ es) ((note_id (ord_id r) s)\<lparr>sb_engine := te\<rparr>) = subscriber_loop es s'"
      by (auto simp: d)
    with te(1,2) show ?thesis
      by (intro exI [of _ s'] exI [of _ "(ts, lat) # stamps"]) (simp add: d(1) x process_received_def)
  qed
qed

lemma published_received:
  assumes "published_ok events" and "subseq delivered events"
  shows "sorted_wrt (\<lambda>r r'. unat (ord_id r) < unat (ord_id r')) delivered"
    and "\<forall>r \<in> set delivered. feed_order (Suc 0) r \<and> (ord_side r = Buy \<or> ord_side r = Sell)"
    and "length delivered \<le> 10 ^ 9"
proof -
  have set: "set delivered \<subseteq> set events"
    using assms(2) by (metis subseq_conv_nths set_nths_subset)
  have "feed_ok events"
    using published_feed [OF assms(1)] .
  with assms(2) show "sorted_wrt (\<lambda>r r'. unat (ord_id r) < unat (ord_id r')) delivered"
    by (auto simp: feed_ok_def intro: sorted_wrt_subseq)
  have ids: "map (\<lambda>r. unat (ord_id r)) events = [1..<Suc (length events)]"
    and ok: "\<forall>r \<in> set events. feed_order 0 r \<and> (ord_side r = Buy \<or> ord_side r = Sell)"
    using assms(1) unfolding published_ok_def by blast+
  have "1 \<le> unat (ord_id r)" if "r \<in> set events" for r
  proof -
    have "unat (ord_id r) \<in> set (map (\<lambda>r. unat (ord_id r)) events)"
      using that by simp
    then show ?thesis unfolding ids by auto
  qed
  with ok set show "\<forall>r \<in> set delivered. feed_order (Suc 0) r \<and> (ord_side r = Buy \<or> ord_side r = Sell)"
    by (fastforce simp: feed_order_def)
  have "length events < 10 ^ 9"
  proof (cases events rule: rev_cases)
    case (snoc es r)
    with ids have "unat (ord_id r) = length events"
      by simp
    with ok snoc show ?thesis by (simp add: feed_order_def)
  qed simp
  moreover have "length delivered \<le> length events"
    using assms(2) by (rule list_emb_length)
  ultimately show "length delivered \<le> 10 ^ 9"
    by linarith
qed

text \<open>
  Packet loss is survived and accounted for. When a published feed reaches the subscriber with any of its
  datagrams lost, with any shorter datagrams in between, and the end marker arrives, then the receive loop is
  left, the engine's state is the one of processing exactly the delivered orders in order, the book is sound,
  and the two counters printed at the end add up to the id of the last delivered order: the dropped counter
  is the number of orders missing before it. Orders lost behind the last delivered one are not counted.
\<close>
lemma subscriber_accounts_for_loss:
  assumes "published_ok events" and "subseq delivered events" and "carries ins delivered" and "cap \<le> 2 ^ 31"
  shows "\<exists>s stamps. subscriber_loop (map (apfst Datagram) ins @ [(Datagram (last (publish events)), ts, lat)]) (subscriber_init cap) = Some (True, s) \<and>
    length stamps = length delivered \<and> process_received (zip delivered stamps) (tick_engine_init cap) = Some (sb_engine s) \<and>
    book_inv (te_book (sb_engine s)) \<and> processed (sb_engine s) = of_nat (length delivered) \<and>
    dropped s + processed (sb_engine s) = (if delivered = [] then 0 else ord_id (last delivered))"
proof -
  note ok = published_received [OF assms(1,2)]
  have "tick_inv (Suc 0) 0 (tick_engine_init cap)"
    using tick_inv_init [OF assms(4)] by (rule tick_inv_Suc) simp
  then have "sub_inv 0 0 (subscriber_init cap)"
    by (simp add: sub_inv_def subscriber_init_def tick_engine_init_def)
  from subscriber_orders [OF this ok(1,2) _ assms(3), of "[(Datagram (last (publish events)), ts, lat)]"] ok(3) obtain s stamps where
    s: "length stamps = length delivered" "process_received (zip delivered stamps) (sb_engine (subscriber_init cap)) = Some (sb_engine s)"
      "sub_inv (last (0 # map (\<lambda>r. unat (ord_id r)) delivered)) (length delivered) s"
      "subscriber_loop (map (apfst Datagram) ins @ [(Datagram (last (publish events)), ts, lat)]) (subscriber_init cap) =
        subscriber_loop [(Datagram (last (publish events)), ts, lat)] s"
    by auto
  moreover have "subscriber_loop [(Datagram (last (publish events)), ts, lat)] s = Some (True, s)"
    by (simp add: publish_def end_marker_def)
  ultimately show ?thesis
    by (intro exI [of _ s] exI [of _ stamps]) (auto simp: sub_inv_def tick_inv_def subscriber_init_def last_map)
qed

text \<open>
  The counter trusts the order of arrival: three orders that all arrive, the second one first, are reported
  with two dropped packets.
\<close>

lemma reordering_counted_as_loss: "dropped (fold note_id [2, 1, 3] (subscriber_init cap)) = 2"
  by (simp add: note_id_def subscriber_init_def)

text \<open>Without the end marker, and without a receive error, the subscriber waits: nothing else ends its loop.\<close>

lemma subscriber_waits:
  assumes "\<forall>(e, x) \<in> set es. \<exists>b. e = Datagram b \<and> (length b < sizeof_WireOrder \<or> wo_id (decode_WireOrder (take sizeof_WireOrder b)) \<noteq> 0)"
    and "subscriber_loop es s = Some (left_loop, s')"
  shows "\<not> left_loop"
  using assms
proof (induction es arbitrary: s)
  case (Cons e es)
  then show ?case
    by (cases e; cases "fst e") (auto simp: Let_def split: option.splits prod.splits if_splits)
qed simp

end
