(* ===== verification/Result_Log.thy ===== *)
theory Result_Log
  imports Latency_Histogram Market_Data_Feed
begin

text \<open>
  What a measuring run leaves behind: the summary \<^verbatim>\<open>LatencyHistogram::print_summary\<close> prints and the line
  \<^verbatim>\<open>append_result_csv\<close> of \<^verbatim>\<open>include/results.hpp\<close> adds to the history file, with the number formats of \<^verbatim>\<open>printf\<close> and of
  output streams. The output of the \<^verbatim>\<open>git\<close> command, the local time and the file are arguments. The theory shows
  that the history file is at all times one header and one complete row per run.
\<close>

section \<open>Number formats\<close>

definition newline :: char where
  "newline = CHR 0x0A"

definition pad :: "nat \<Rightarrow> char \<Rightarrow> string \<Rightarrow> string" where
  "pad w c s = replicate (w - length s) c @ s"

definition zeros :: "nat \<Rightarrow> nat \<Rightarrow> string" where
  "zeros w n = pad w (CHR ''0'') (show_nat n)"

text \<open>\<^verbatim>\<open>%.kf\<close> for a number that is not negative.\<close>

definition show_fixed :: "nat \<Rightarrow> rat \<Rightarrow> string" where
  "show_fixed k x =
     (let n = nat (round_even (x * 10 ^ k))
      in show_nat (n div 10 ^ k) @ (if k = 0 then [] else CHR ''.'' # zeros k (n mod 10 ^ k)))"

text \<open>
  The format of \<^verbatim>\<open><<\<close> for a double, which is \<^verbatim>\<open>%g\<close>: six significant digits without trailing zeros, in scientific notation
  when the exponent is below \<open>-4\<close> or above 5.
\<close>

definition dec_exponent :: "rat \<Rightarrow> int" where
  "dec_exponent x = (if 1 \<le> x then int (length (show_nat (nat \<lfloor>x\<rfloor>))) - 1 else - int (length (show_nat (nat (\<lceil>1 / x\<rceil> - 1)))))"

definition six_digits :: "rat \<Rightarrow> nat \<times> int" where
  "six_digits x =
     (let e = dec_exponent x; n = nat (round_even (x / 10 powi (e - 5)))
      in if n = 10 ^ 6 then (10 ^ 5, e + 1) else (n, e))"

definition drop_zeros :: "string \<Rightarrow> string" where
  "drop_zeros s = rev (dropWhile (\<lambda>c. c = CHR ''0'') (rev s))"

definition with_point :: "string \<Rightarrow> string \<Rightarrow> string" where
  "with_point ip fp = ip @ (if drop_zeros fp = [] then [] else CHR ''.'' # drop_zeros fp)"

definition show_double :: "rat \<Rightarrow> string" where
  "show_double x =
     (if x = 0 then ''0''
      else case six_digits x of
             (n, e) \<Rightarrow>
               let ds = show_nat n
               in if - 4 \<le> e \<and> e < 6
                  then if 0 \<le> e then with_point (take (nat e + 1) ds) (drop (nat e + 1) ds)
                       else with_point ''0'' (replicate (nat (- e - 1)) (CHR ''0'') @ ds)
                  else with_point (take 1 ds) (drop 1 ds) @ (if e < 0 then ''e-'' else ''e+'') @ zeros 2 (nat \<bar>e\<bar>))"

lemma show_nat_step: "n < 10 \<Longrightarrow> show_nat n = [digit_char n]" "10 \<le> n \<Longrightarrow> show_nat n = show_nat (n div 10) @ [digit_char (n mod 10)]"
  by (subst show_nat.simps; simp)+

lemma digit_chars: "map digit_char [0, 1, 2, 3, 4, 5, 6, 7, 8, 9] = ''0123456789''"
  by (simp add: digit_char_def char_of_def bit_0)

lemma format_examples: "show_double (433 / 4) = ''108.25''" "show_double 1234567 = ''1.23457e+06''" "show_fixed 1 (433 / 4) = ''108.2''"
proof -
  have "\<lfloor>433 / (4 :: rat)\<rfloor> = 108"
    by (simp add: floor_eq_iff)
  then have "dec_exponent (433 / 4) = 2" "dec_exponent 1234567 = 6"
    by (simp_all add: dec_exponent_def show_nat_step)
  moreover have "round_even (433 / 4 / 10 powi - 3) = 108250" "round_even (1234567 / 10 powi 1) = 123457"
    by (rule round_even_eqI; simp add: power_int_def power_one_over abs_if)+
  ultimately have "six_digits (433 / 4) = (108250, 2)" "six_digits 1234567 = (123457, 6)"
    by (simp_all add: six_digits_def Let_def)
  then show "show_double (433 / 4) = ''108.25''" "show_double 1234567 = ''1.23457e+06''"
    by (simp_all add: show_double_def Let_def show_nat_step digit_chars [simplified] with_point_def drop_zeros_def zeros_def pad_def)
  have "\<lfloor>2165 / (2 :: rat)\<rfloor> = 1082"
    by (simp add: floor_eq_iff)
  then have "round_even (2165 / 2) = 1082"
    by (simp add: round_even_def Let_def)
  then show "show_fixed 1 (433 / 4) = ''108.2''"
    by (simp add: show_fixed_def Let_def show_nat_step digit_chars [simplified] zeros_def pad_def)
qed

section \<open>The summary\<close>

text \<open>The percentages are double literals.\<close>

definition summary_pcts :: "rat list" where
  "summary_pcts = [dbl 50, dbl 90, dbl 99, dbl (999 / 10), dbl (9999 / 100)]"

definition percentiles :: "LatencyHistogram \<Rightarrow> u64 list option" where
  "percentiles h = those (map (\<lambda>p. percentile p h) summary_pcts)"

definition ns_line :: "string \<Rightarrow> u64 \<Rightarrow> string" where
  "ns_line name v = ''  '' @ name @ '': '' @ pad 10 (CHR '' '') (show_nat (unat v)) @ '' ns''"

definition print_summary :: "string \<Rightarrow> LatencyHistogram \<Rightarrow> string list option" where
  "print_summary label h =
     (case percentiles h of
        None \<Rightarrow> None
      | Some ps \<Rightarrow>
          Some ([''=== '' @ label @ '' (n='' @ show_nat (unat (total_count h)) @ '') ==='', ns_line ''min    '' (hist_min h),
                 ''  mean   : '' @ pad 13 (CHR '' '') (show_fixed 1 (hist_mean h)) @ '' ns''] @
                map2 ns_line [''p50    '', ''p90    '', ''p99    '', ''p99.9  '', ''p99.99 ''] ps @
                [ns_line ''max    '' (max_ns h)]))"

section \<open>The history file\<close>

text \<open>\<^verbatim>\<open>fgets\<close> with a buffer of \<open>n\<close> bytes, and the string a zero-terminated buffer holds.\<close>

definition fgets :: "nat \<Rightarrow> string \<Rightarrow> string option" where
  "fgets n s =
     (if s = [] then None
      else let l = takeWhile (\<lambda>c. c \<noteq> newline) s
           in Some (take (n - 1) (if length l < length s then l @ [newline] else l)))"

definition c_string :: "string \<Rightarrow> string" where
  "c_string s = takeWhile (\<lambda>c. c \<noteq> CHR 0x00) s"

text \<open>The argument is what the pipe delivers, if it can be opened.\<close>

definition git_short_hash :: "string option \<Rightarrow> string" where
  "git_short_hash pipe =
     (case pipe of
        None \<Rightarrow> ''unknown''
      | Some s \<Rightarrow>
          (case fgets 64 s of
             None \<Rightarrow> ''unknown''
           | Some buf \<Rightarrow>
               let hash = rev (dropWhile (\<lambda>c. c = newline \<or> c = CHR 0x0D) (rev (c_string buf)))
               in if hash = [] then ''unknown'' else hash))"

text \<open>Year, month, day, hour, minute and second of the local time.\<close>

type_synonym local_time = "nat \<times> nat \<times> nat \<times> nat \<times> nat \<times> nat"

fun timestamp :: "local_time \<Rightarrow> string" where
  "timestamp (y, mo, d, h, mi, s) =
     show_nat y @ ''-'' @ zeros 2 mo @ ''-'' @ zeros 2 d @ ''T'' @ zeros 2 h @ '':'' @ zeros 2 mi @ '':'' @ zeros 2 s"

fun commas :: "string list \<Rightarrow> string" where
  "commas [] = []"
| "commas [f] = f"
| "commas (f # fs) = f @ '','' @ commas fs"

definition csv_header :: string where
  "csv_header = ''timestamp,git_hash,run_label,n,min_ns,mean_ns,p50_ns,p90_ns,p99_ns,p99_9_ns,p99_99_ns,max_ns''"

definition row_fields :: "local_time \<Rightarrow> string option \<Rightarrow> string \<Rightarrow> u64 \<Rightarrow> LatencyHistogram \<Rightarrow> u64 list \<Rightarrow> string list" where
  "row_fields t pipe label n h ps =
     [timestamp t, git_short_hash pipe, label, show_nat (unat n), show_nat (unat (hist_min h)), show_double (hist_mean h)] @
     map (\<lambda>v. show_nat (unat v)) ps @ [show_nat (unat (max_ns h))]"

text \<open>
  The file is \<^const>\<open>None\<close> as long as it does not exist. Creating its directory may throw; a stream that cannot be opened
  swallows what is written.
\<close>

datatype log_error = Filesystem_error | Rank_cast

definition append_result_csv ::
  "bool \<Rightarrow> bool \<Rightarrow> local_time \<Rightarrow> string option \<Rightarrow> string \<Rightarrow> u64 \<Rightarrow> LatencyHistogram \<Rightarrow> string option \<Rightarrow> log_error + string option" where
  "append_result_csv dir_ok can_open t pipe label n h file =
     (if \<not> dir_ok then Inl Filesystem_error
      else case percentiles h of
             None \<Rightarrow> Inl Rank_cast
           | Some ps \<Rightarrow>
               Inr (if \<not> can_open then file
                    else Some ((case file of None \<Rightarrow> csv_header @ [newline] | Some s \<Rightarrow> s) @
                               commas (row_fields t pipe label n h ps) @ [newline])))"

section \<open>Reading the file\<close>

fun split_commas :: "string \<Rightarrow> string list" where
  "split_commas [] = [[]]"
| "split_commas (c # cs) =
     (if c = CHR '','' then [] # split_commas cs
      else case split_commas cs of [] \<Rightarrow> [[c]] | f # fs \<Rightarrow> (c # f) # fs)"

definition csv_table :: "string \<Rightarrow> string list list" where
  "csv_table s = map split_commas (file_lines s)"

text \<open>Characters that would break a row.\<close>

definition clean :: "string \<Rightarrow> bool" where
  "clean s \<longleftrightarrow> CHR '','' \<notin> set s \<and> newline \<notin> set s"

lemma split_one: "CHR '','' \<notin> set s \<Longrightarrow> split_commas s = [s]"
  by (induction s) auto

lemma split_field: "CHR '','' \<notin> set s \<Longrightarrow> split_commas (s @ CHR '','' # cs) = s # split_commas cs"
  by (induction s) auto

lemma split_commas_commas: "fs \<noteq> [] \<Longrightarrow> \<forall>f \<in> set fs. clean f \<Longrightarrow> split_commas (commas fs) = fs"
  by (induction fs rule: commas.induct) (auto simp: clean_def split_one split_field)

lemma commas_newline: "\<forall>f \<in> set fs. clean f \<Longrightarrow> newline \<notin> set (commas fs)"
  by (induction fs rule: commas.induct) (auto simp: clean_def newline_def)

definition history :: "string list list \<Rightarrow> string" where
  "history rows = csv_header @ [newline] @ concat (map (\<lambda>r. commas r @ [newline]) rows)"

lemma history_table:
  assumes "\<forall>r \<in> set rows. r \<noteq> [] \<and> (\<forall>f \<in> set r. clean f)"
  shows "csv_table (history rows) = split_commas csv_header # rows"
proof -
  have "file_lines (concat (map (\<lambda>r. commas r @ [newline]) rows)) = map commas rows"
    using assms
  proof (induction rows)
    case (Cons r rows)
    then have "newline \<notin> set (commas r)"
      using commas_newline by simp
    with Cons show ?case
      using file_lines_sep [of "commas r"] by (simp add: newline_def)
  qed (simp add: file_lines.simps)
  moreover have "newline \<notin> set csv_header"
    by (simp add: csv_header_def newline_def)
  ultimately have "file_lines (history rows) = csv_header # map commas rows"
    using file_lines_sep [of csv_header] by (simp add: history_def newline_def)
  then show ?thesis
    using assms by (simp add: csv_table_def split_commas_commas map_idI)
qed

section \<open>No field breaks its row\<close>

lemma clean_simps [simp]:
  "clean []" "clean (c # s) \<longleftrightarrow> c \<noteq> CHR '','' \<and> c \<noteq> newline \<and> clean s" "clean (s @ s') \<longleftrightarrow> clean s \<and> clean s'"
  by (auto simp: clean_def)

lemma clean_show_nat [simp]: "clean (show_nat n)"
  using show_nat_digits [of n] is_digit_other(4,5) unfolding clean_def newline_def by blast

lemma clean_subset: "clean s \<Longrightarrow> set s' \<subseteq> set s \<Longrightarrow> clean s'"
  by (auto simp: clean_def)

lemma clean_pad [simp]: "clean (pad w (CHR ''0'') s) = clean s"
  by (auto simp: pad_def clean_def newline_def)

lemma clean_with_point:
  assumes "clean ip" and "clean fp"
  shows "clean (with_point ip fp)"
proof -
  have "set (drop_zeros fp) \<subseteq> set fp"
    by (auto simp: drop_zeros_def dest: set_dropWhileD)
  with assms show ?thesis
    by (auto simp: with_point_def newline_def intro: clean_subset)
qed

lemma clean_show_double: "clean (show_double x)"
proof -
  obtain n e where ne: "six_digits x = (n, e)" by fastforce
  have sub: "clean (take k (show_nat n))" "clean (drop k (show_nat n))" for k
    using clean_subset [OF clean_show_nat [of n]] by (simp_all add: set_take_subset set_drop_subset)
  have "clean (replicate k (CHR ''0''))" for k
    by (auto simp: clean_def newline_def)
  with sub show ?thesis
    by (auto simp: show_double_def ne Let_def newline_def zeros_def intro!: clean_with_point)
qed

lemma clean_timestamp: "clean (timestamp t)"
  by (cases t) (simp add: zeros_def newline_def)

lemma fgets_line:
  assumes "fgets n s = Some buf"
  shows "\<exists>y. c_string buf \<in> {y, y @ [newline]} \<and> newline \<notin> set y \<and> set y \<subseteq> set s"
proof -
  define l where "l = takeWhile (\<lambda>c. c \<noteq> newline) s"
  have l: "newline \<notin> set l" "set l \<subseteq> set s"
    by (auto simp: l_def dest: set_takeWhileD)
  define x where "x = take (n - 1) l"
  have "set x \<subseteq> set l"
    by (simp add: x_def set_take_subset)
  with l have x: "newline \<notin> set x" "set x \<subseteq> set s"
    by blast+
  have "buf \<in> {x, x @ [newline]}"
    using assms by (auto simp: fgets_def Let_def x_def simp flip: l_def split: if_splits)
  moreover have "c_string (x @ [newline]) \<in> {c_string x, c_string x @ [newline]}"
    by (cases "\<forall>c \<in> set x. c \<noteq> CHR 0x00") (auto simp: c_string_def takeWhile_append newline_def takeWhile_eq_all_conv [THEN iffD2])
  ultimately have "c_string buf \<in> {c_string x, c_string x @ [newline]}"
    by blast
  moreover have "set (c_string x) \<subseteq> set x"
    by (auto simp: c_string_def dest: set_takeWhileD)
  ultimately show ?thesis
    using x by blast
qed

lemma clean_git_hash:
  assumes "\<And>s. pipe = Some s \<Longrightarrow> CHR '','' \<notin> set s"
  shows "clean (git_short_hash pipe)"
proof -
  have unknown: "clean ''unknown''"
    by (simp add: newline_def)
  have "clean (rev (dropWhile (\<lambda>c. c = newline \<or> c = CHR 0x0D) (rev (c_string buf))))" if "pipe = Some s" "fgets 64 s = Some buf" for s buf
  proof -
    from fgets_line [OF that(2)] obtain y where y: "c_string buf \<in> {y, y @ [newline]}" "newline \<notin> set y" "set y \<subseteq> set s"
      by blast
    then have "clean y"
      using assms [OF that(1)] by (auto simp: clean_def)
    moreover have "dropWhile (\<lambda>c. c = newline \<or> c = CHR 0x0D) (rev (c_string buf)) = dropWhile (\<lambda>c. c = newline \<or> c = CHR 0x0D) (rev y)"
      using y(1) by auto
    then have "set (rev (dropWhile (\<lambda>c. c = newline \<or> c = CHR 0x0D) (rev (c_string buf)))) \<subseteq> set y"
      by (auto dest: set_dropWhileD)
    ultimately show ?thesis
      by (rule clean_subset)
  qed
  with unknown show ?thesis
    by (auto simp: git_short_hash_def Let_def split: option.split)
qed

section \<open>Runs\<close>

lemma percentile_defined:
  assumes "unat (total_count h) \<le> 2 ^ 50" and "0 < q" and "q \<le> 100"
  shows "\<exists>v. percentile (dbl q) h = Some v"
proof (cases "total_count h = 0")
  case False
  then have "0 < unat (total_count h)"
    by (simp add: word_gt_0_unat [symmetric] word_neq_0_conv)
  from target_rank_close [OF assms(2,3) this assms(1)] show ?thesis
    by (auto simp: percentile_def)
qed (simp add: percentile_def)

lemma percentiles_defined:
  assumes "unat (total_count h) \<le> 2 ^ 50"
  shows "\<exists>ps. percentiles h = Some ps \<and> map (\<lambda>p. percentile p h) summary_pcts = map Some ps"
proof -
  have "\<exists>v. percentile p h = Some v" if "p \<in> set summary_pcts" for p
    using that percentile_defined [OF assms] by (auto simp: summary_pcts_def)
  then have "map (\<lambda>p. percentile p h) summary_pcts = map Some (map (\<lambda>p. the (percentile p h)) summary_pcts)"
    by force
  moreover have "those (map Some xs) = Some xs" for xs :: "u64 list"
    by (induction xs) simp_all
  ultimately show ?thesis
    unfolding percentiles_def by metis
qed

record run =
  rn_opens :: bool
  rn_time :: local_time
  rn_pipe :: "string option"
  rn_label :: string
  rn_count :: u64
  rn_hist :: LatencyHistogram

definition log_run :: "run \<Rightarrow> string option \<Rightarrow> string option option" where
  "log_run r file =
     (case append_result_csv True (rn_opens r) (rn_time r) (rn_pipe r) (rn_label r) (rn_count r) (rn_hist r) file of
        Inl e \<Rightarrow> None
      | Inr file' \<Rightarrow> Some file')"

definition run_ok :: "run \<Rightarrow> bool" where
  "run_ok r \<longleftrightarrow> clean (rn_label r) \<and> (\<forall>s. rn_pipe r = Some s \<longrightarrow> CHR '','' \<notin> set s) \<and> unat (total_count (rn_hist r)) \<le> 2 ^ 50"

definition run_row :: "run \<Rightarrow> string list" where
  "run_row r = row_fields (rn_time r) (rn_pipe r) (rn_label r) (rn_count r) (rn_hist r) (the (percentiles (rn_hist r)))"

lemma run_row_clean:
  assumes "run_ok r"
  shows "length (run_row r) = 12" and "\<forall>f \<in> set (run_row r). clean f"
proof -
  from percentiles_defined [of "rn_hist r"] assms obtain ps where
    ps: "percentiles (rn_hist r) = Some ps" "map (\<lambda>p. percentile p (rn_hist r)) summary_pcts = map Some ps"
    by (auto simp: run_ok_def)
  have "length ps = 5"
    using arg_cong [OF ps(2), of length] by (simp add: summary_pcts_def)
  then show "length (run_row r) = 12"
    by (simp add: run_row_def row_fields_def ps(1))
  show "\<forall>f \<in> set (run_row r). clean f"
    using assms clean_git_hash [of "rn_pipe r"] by (auto simp: run_row_def row_fields_def run_ok_def clean_timestamp clean_show_double)
qed

lemma log_runs:
  assumes "\<forall>r \<in> set runs. run_ok r"
  shows "fold_opt log_run runs (Some (history rows)) = Some (Some (history (rows @ map run_row (filter rn_opens runs))))"
  using assms
proof (induction runs arbitrary: rows)
  case (Cons r runs)
  from percentiles_defined [of "rn_hist r"] Cons.prems obtain ps where "percentiles (rn_hist r) = Some ps"
    by (auto simp: run_ok_def)
  then have "log_run r (Some (history rows)) = Some (Some (history (rows @ (if rn_opens r then [run_row r] else []))))"
    by (simp add: log_run_def append_result_csv_def history_def run_row_def)
  with Cons.IH [of "rows @ (if rn_opens r then [run_row r] else [])"] Cons.prems show ?case
    by simp
qed simp

text \<open>
  (C38) The history file. When runs whose labels and hashes are free of commas and line breaks log their results one after the other into a
  file that does not exist yet, and the first of them can open it, the file reads back as the header and one row for every run that could open
  it; each row has as many fields as the header, and its fields are those of the run.
\<close>
theorem history_file_table:
  assumes "\<forall>r \<in> set (r0 # runs). run_ok r" and "rn_opens r0"
  shows "\<exists>s. fold_opt log_run (r0 # runs) None = Some (Some s) \<and>
    csv_table s = split_commas csv_header # map run_row (r0 # filter rn_opens runs) \<and>
    (\<forall>row \<in> set (csv_table s). length row = 12)"
proof -
  from percentiles_defined [of "rn_hist r0"] assms(1) obtain ps where "percentiles (rn_hist r0) = Some ps"
    by (auto simp: run_ok_def)
  then have "log_run r0 None = Some (Some (history [run_row r0]))"
    using assms(2) by (simp add: log_run_def append_result_csv_def history_def run_row_def)
  then have "fold_opt log_run (r0 # runs) None = Some (Some (history (map run_row (r0 # filter rn_opens runs))))"
    using log_runs [of runs "[run_row r0]"] assms(1) by simp
  moreover have "csv_table (history (map run_row (r0 # filter rn_opens runs))) = split_commas csv_header # map run_row (r0 # filter rn_opens runs)"
    using assms(1) run_row_clean by (intro history_table) fastforce
  moreover have "length (split_commas csv_header) = 12"
    by (simp add: csv_header_def)
  ultimately show ?thesis
    using assms(1) run_row_clean(1) by auto
qed

definition demo_run :: "string \<Rightarrow> run" where
  "demo_run label = \<lparr>rn_opens = True, rn_time = (2026, 8, 5, 22, 50, 34), rn_pipe = Some (''955dff8'' @ [newline]), rn_label = label,
     rn_count = 0, rn_hist = default_histogram\<rparr>"

theorem history_file_table_witness:
  "\<exists>s. fold_opt log_run [demo_run ''synthetic'', demo_run ''udp_multicast''] None = Some (Some s) \<and> length (csv_table s) = 3 \<and>
    csv_table s ! 2 ! 1 = ''955dff8'' \<and> csv_table s ! 2 ! 2 = ''udp_multicast''"
proof -
  have ok: "run_ok (demo_run ''synthetic'')" "run_ok (demo_run ''udp_multicast'')"
    by (simp_all add: run_ok_def demo_run_def newline_def default_histogram_def histogram_init_def)
  have "run_row (demo_run ''udp_multicast'') ! 1 = ''955dff8''" "run_row (demo_run ''udp_multicast'') ! 2 = ''udp_multicast''"
    by (simp_all add: run_row_def demo_run_def row_fields_def git_short_hash_def fgets_def newline_def c_string_def Let_def)
  with history_file_table [of "demo_run ''synthetic''" "[demo_run ''udp_multicast'']"] ok show ?thesis
    by (auto simp: demo_run_def simp del: fold_opt.simps)
qed

end
