(* ===== verification/Programs.thy ===== *)
theory Programs
  imports Multicast_Feed Result_Log
begin

text \<open>
  The main functions of \<^verbatim>\<open>src/main.cpp\<close>, \<^verbatim>\<open>src/feed_publisher.cpp\<close> and \<^verbatim>\<open>src/engine_subscriber.cpp\<close> from the command line
  to the exit code: what they print, what they send, and what they leave in the history file. The results of system calls, the
  random draws, what arrives from the network and the schedule of the threads are arguments. The theory shows that a replay of an acceptable
  feed exits with 0 and logs one row with the true number of orders, and that publisher and subscriber agree over a lossy network.
\<close>

section \<open>Outcomes\<close>

text \<open>A program exits, ends with an uncaught exception, has undefined behaviour, or still runs.\<close>

datatype ending = Exit nat | Uncaught feed_error | Uncaught_filesystem | Undefined | Running

record outcome =
  oc_lines :: "string list"
  oc_sent :: "u8 list list"
  oc_history :: "string option"
  oc_end :: ending

definition ends :: "string option \<Rightarrow> string list \<Rightarrow> ending \<Rightarrow> outcome" where
  "ends file ls e = \<lparr>oc_lines = ls, oc_sent = [], oc_history = file, oc_end = e\<rparr>"

record world =
  w_file :: "string \<Rightarrow> string option"
  w_draws :: "nat \<Rightarrow> draw"
  w_dir_ok :: bool
  w_opens :: bool
  w_time :: local_time
  w_pipe :: "string option"
  w_history :: "string option"

text \<open>The last statements of the measuring programs: the report is printed, the row is appended, and the program returns 0.\<close>

definition finish :: "world \<Rightarrow> string \<Rightarrow> tick_engine \<Rightarrow> string list \<Rightarrow> string list option \<Rightarrow> outcome" where
  "finish w label te before report =
     (case report of
        None \<Rightarrow> ends (w_history w) before Undefined
      | Some ls \<Rightarrow>
          (case append_result_csv (w_dir_ok w) (w_opens w) (w_time w) (w_pipe w) label (processed te) (te_hist te) (w_history w) of
             Inl Filesystem_error \<Rightarrow> ends (w_history w) (before @ ls) Uncaught_filesystem
           | Inl Rank_cast \<Rightarrow> ends (w_history w) (before @ ls) Undefined
           | Inr file \<Rightarrow> ends file (before @ ls) (Exit 0)))"

section \<open>The reports\<close>

definition top_row :: "Price \<times> Qty \<Rightarrow> string" where
  "top_row r = ''    '' @ show_int (fst r) @ '' x '' @ show_nat (unat (snd r))"

definition top_lines :: "book \<Rightarrow> string list option" where
  "top_lines b =
     map_option (\<lambda>(as, bs). [''  asks (best first):''] @ map top_row as @ [''  bids (best first):''] @ map top_row bs) (print_top b 5)"

definition resting_line :: "book \<Rightarrow> string" where
  "resting_line b = ''Resting orders remaining: '' @ show_nat (resting_orders b) @ '' ('' @ show_nat (bid_levels b) @ '' bid levels, '' @
     show_nat (ask_levels b) @ '' ask levels)''"

definition replay_report :: "tick_engine \<Rightarrow> string list option" where
  "replay_report te =
     (case top_lines (te_book te) of
        None \<Rightarrow> None
      | Some tls \<Rightarrow>
          map_option (\<lambda>sls. [[], ''Processed '' @ show_nat (unat (processed te)) @ '' orders, generated '' @ show_nat (unat (trade_count te)) @ '' trades'',
              resting_line (te_book te), [], ''Final book snapshot:''] @ tls @ [[]] @ sls)
            (print_summary ''order-to-book tick latency'' (te_hist te)))"

definition subscriber_report :: "subscriber \<Rightarrow> string list option" where
  "subscriber_report s =
     (let te = sb_engine s
      in map_option (\<lambda>sls. [[], ''engine_subscriber: processed '' @ show_nat (unat (processed te)) @ '' orders, '' @
            show_nat (unat (trade_count te)) @ '' trades'', ''Dropped packets (sequence gaps): '' @ show_nat (unat (dropped s)),
            resting_line (te_book te), []] @ sls)
          (print_summary ''wire-to-book tick latency'' (te_hist te)))"

section \<open>The in-process replay\<close>

definition replay_events :: "world \<Rightarrow> replay_options \<Rightarrow> feed_error + Order list" where
  "replay_events w opts =
     (if ro_data_file opts = [] then Inr (generate_synthetic 10000 (map (w_draws w) [0..<unat (ro_synthetic_count opts)]))
      else load_csv (w_file w (ro_data_file opts)))"

definition replay_usage :: "string list" where
  "replay_usage = [''usage: hft_lob [--data feed.csv] [--count N] [--test]'',
     ''  --data FILE   replay a CSV feed (side,price,qty per line)'',
     ''  --count N     number of synthetic events if --data not given (default 200000)'',
     ''  --test        run matching-engine self-tests and exit'']"

definition loaded_line :: "replay_options \<Rightarrow> Order list \<Rightarrow> string" where
  "loaded_line opts es = ''Loaded '' @ show_nat (length es) @ '' feed events '' @
     (if ro_data_file opts = [] then ''(synthetic)'' else ''from '' @ ro_data_file opts)"

text \<open>
  The two threads run by the given schedule and are joined when both have ended. The messages of a failing self
  test are left out; none is ever printed.
\<close>

definition hft_lob :: "world \<Rightarrow> Order \<Rightarrow> replay_action list \<Rightarrow> string list \<Rightarrow> outcome" where
  "hft_lob w d acts argv =
     (case replay_args argv replay_defaults of
        Inl e \<Rightarrow> ends (w_history w) [] (Uncaught e)
      | Inr Show_help \<Rightarrow> ends (w_history w) replay_usage (Exit 0)
      | Inr (Run opts) \<Rightarrow>
          if ro_run_self_test opts then
            (case self_test kPoolCapacity of
               None \<Rightarrow> ends (w_history w) [] Undefined
             | Some True \<Rightarrow> ends (w_history w) [''self-test: all checks passed''] (Exit 0)
             | Some False \<Rightarrow> ends (w_history w) [] (Exit 1))
          else
            (case replay_events w opts of
               Inl e \<Rightarrow> ends (w_history w) [] (Uncaught e)
             | Inr es \<Rightarrow>
                 (case fold_opt replay_step acts (replay_init kPoolCapacity kRingCapacity d es) of
                    None \<Rightarrow> ends (w_history w) [loaded_line opts es] Undefined
                  | Some s \<Rightarrow>
                      if rp_feed_pc s = Feed_finished \<and> rp_engine_pc s = Engine_finished
                      then finish w (if ro_data_file opts = [] then ''synthetic'' else ''csv_replay'') (rp_engine s)
                             [loaded_line opts es] (replay_report (rp_engine s))
                      else ends (w_history w) [loaded_line opts es] Running)))"

section \<open>Publisher and subscriber\<close>

definition publisher_usage :: string where
  "publisher_usage = ''usage: feed_publisher [--data feed.csv] [--count N] [--group IP] [--port P] [--delay-us US]''"

definition sending_line :: "publisher_options \<Rightarrow> Order list \<Rightarrow> string" where
  "sending_line opts es = ''feed_publisher: sending '' @ show_nat (length es) @ '' events to '' @ po_group_ip opts @ '':'' @ show_nat (unat (po_port opts)) @
     (if 0 < po_delay_us opts then '' (throttled)'' else '' (as fast as possible)'')"

text \<open>The datagrams are those handed to \<^verbatim>\<open>sendto\<close>; a refused one is only reported on the error stream.\<close>

definition feed_publisher :: "world \<Rightarrow> int \<Rightarrow> string list \<Rightarrow> outcome" where
  "feed_publisher w sock argv =
     (case publisher_args argv publisher_defaults of
        Inl e \<Rightarrow> ends (w_history w) [] (Uncaught e)
      | Inr Show_help \<Rightarrow> ends (w_history w) [publisher_usage] (Exit 0)
      | Inr (Run opts) \<Rightarrow>
          (case publisher_events (w_file w (po_data_file opts)) (w_draws w) opts of
             Inl e \<Rightarrow> ends (w_history w) [] (Uncaught e)
           | Inr es \<Rightarrow>
               if sock < 0 then ends (w_history w) [sending_line opts es] (Exit 1)
               else (ends (w_history w) [sending_line opts es, ''feed_publisher: done, sent '' @ show_nat (length es) @ '' events + end marker''] (Exit 0))
                      \<lparr>oc_sent := publish es\<rparr>))"

definition subscriber_usage :: string where
  "subscriber_usage = ''usage: engine_subscriber [--group IP] [--port P]''"

definition listening_line :: "subscriber_options \<Rightarrow> string" where
  "listening_line opts = ''engine_subscriber: listening on '' @ so_group_ip opts @ '':'' @ show_nat (unat (so_port opts))"

text \<open>The line that is printed when a receive error ends the loop.\<close>

definition idle_line :: string where
  "idle_line = ''engine_subscriber: idle timeout (5s, no traffic) '' @ [CHR 0xE2, CHR 0x80, CHR 0x94] @ '' treating as end of stream''"

fun idle_lines :: "(udp_recv \<times> Nanos \<times> u64) list \<Rightarrow> string list" where
  "idle_lines [] = []"
| "idle_lines ((Udp_error, _) # es) = [idle_line]"
| "idle_lines ((Datagram b, _) # es) =
     (if sizeof_WireOrder \<le> length b \<and> wo_id (decode_WireOrder (take sizeof_WireOrder b)) = 0 then [] else idle_lines es)"

text \<open>With the results of \<^verbatim>\<open>socket\<close>, \<^verbatim>\<open>bind\<close> and the group join.\<close>

definition engine_subscriber :: "world \<Rightarrow> int \<times> int \<times> int \<Rightarrow> (udp_recv \<times> Nanos \<times> u64) list \<Rightarrow> string list \<Rightarrow> outcome" where
  "engine_subscriber w calls ins argv =
     (case subscriber_args argv subscriber_defaults of
        Inl e \<Rightarrow> ends (w_history w) [] (Uncaught e)
      | Inr Show_help \<Rightarrow> ends (w_history w) [subscriber_usage] (Exit 0)
      | Inr (Run opts) \<Rightarrow>
          (case calls of
             (sock, bound, joined) \<Rightarrow>
               if sock < 0 \<or> bound < 0 \<or> joined < 0 then ends (w_history w) [] (Exit 1)
               else
                 (case subscriber_loop ins (subscriber_init kPoolCapacity) of
                    None \<Rightarrow> ends (w_history w) [listening_line opts] Undefined
                  | Some (False, s) \<Rightarrow> ends (w_history w) [listening_line opts] Running
                  | Some (True, s) \<Rightarrow> finish w ''udp_multicast'' (sb_engine s) (listening_line opts # idle_lines ins) (subscriber_report s))))"

section \<open>The report can always be printed\<close>

text \<open>Every processed order is one sample of the histogram.\<close>

lemma process_order_sampled:
  "process_order r ts lat te = Some te' \<Longrightarrow> total_count (te_hist te) = processed te \<Longrightarrow> total_count (te_hist te') = processed te'"
  by (auto simp: process_order_def hist_record_def Let_def split: option.splits prod.splits if_splits)

lemma init_sampled: "total_count (te_hist (tick_engine_init cap)) = processed (tick_engine_init cap)"
  by (simp add: tick_engine_init_def default_histogram_def histogram_init_def)

lemma orders_sampled:
  "fold_opt (\<lambda>x. process_order (f x) (g x) (h x)) xs te = Some te' \<Longrightarrow> total_count (te_hist te) = processed te \<Longrightarrow>
   total_count (te_hist te') = processed te'"
  by (induction xs arbitrary: te) (auto split: option.splits dest: process_order_sampled)

lemma process_all_sampled: "process_all hs (tick_engine_init cap) = Some te \<Longrightarrow> total_count (te_hist te) = processed te"
  using orders_sampled [of fst "\<lambda>x. ord_ts_ns (fst x)" snd hs] init_sampled by (simp add: process_all_def case_prod_unfold)

lemma process_received_sampled: "process_received hs (tick_engine_init cap) = Some te \<Longrightarrow> total_count (te_hist te) = processed te"
  using orders_sampled [of fst "\<lambda>x. fst (snd x)" "\<lambda>x. snd (snd x)" hs] init_sampled by (simp add: process_received_def case_prod_unfold)

lemma summary_defined: "unat (total_count h) \<le> 2 ^ 50 \<Longrightarrow> \<exists>ls. print_summary label h = Some ls"
  using percentiles_defined [of h] by (auto simp: print_summary_def)

lemma replay_report_defined:
  assumes "book_inv (te_book te)" and "unat (total_count (te_hist te)) \<le> 2 ^ 50"
  shows "\<exists>ls. replay_report te = Some ls"
  using summary_defined [OF assms(2)] book_queries [OF assms(1), of 5] by (auto simp: replay_report_def top_lines_def)

lemma subscriber_report_defined:
  "unat (total_count (te_hist (sb_engine s))) \<le> 2 ^ 50 \<Longrightarrow> \<exists>ls. subscriber_report s = Some ls"
  using summary_defined by (fastforce simp: subscriber_report_def Let_def)

text \<open>The run a program logs.\<close>

definition logged :: "world \<Rightarrow> string \<Rightarrow> tick_engine \<Rightarrow> run" where
  "logged w label te = \<lparr>rn_opens = w_opens w, rn_time = w_time w, rn_pipe = w_pipe w, rn_label = label, rn_count = processed te, rn_hist = te_hist te\<rparr>"

lemma finish_logs:
  assumes "w_dir_ok w" and "unat (total_count (te_hist te)) \<le> 2 ^ 50"
  shows "\<exists>file. log_run (logged w label te) (w_history w) = Some file \<and>
    finish w label te before (Some ls) = ends file (before @ ls) (Exit 0)"
  using percentiles_defined [OF assms(2)] assms(1) by (auto simp: finish_def log_run_def logged_def append_result_csv_def)

lemma no_idle_line: "idle_lines (map (apfst Datagram) ins @ [(Datagram (last (publish es)), x)]) = []"
  by (induction ins) (auto simp: publish_def end_marker_def)

section \<open>Runs of the programs\<close>

text \<open>
  (C36) A replay from the command line to the history file. Given an acceptable feed and threads that take turns long enough, \<^verbatim>\<open>hft_lob\<close> exits with
  0 and appends exactly the row of this run, whose count is the number of orders in the feed, each of which is one sample of the
  histogram; it prints the totals of the engine's final state. The engine's state is that of processing the feed in order.
\<close>
theorem replay_program_logs:
  assumes "replay_args argv replay_defaults = Inr (Run opts)" and "\<not> ro_run_self_test opts" and "replay_events w opts = Inr es"
    and "feed_ok es" and "length es \<le> 2 ^ 50" and "8 * length es + 6 \<le> length ts" and "w_dir_ok w"
  shows "\<exists>te hs file ls. process_all hs (tick_engine_init kPoolCapacity) = Some te \<and> map (unstamped \<circ> fst) hs = map unstamped es \<and>
    processed te = of_nat (length es) \<and> total_count (te_hist te) = of_nat (length es) \<and> replay_report te = Some ls \<and>
    log_run (logged w (if ro_data_file opts = [] then ''synthetic'' else ''csv_replay'') te) (w_history w) = Some file \<and>
    hft_lob w d (round_robin ts) argv = ends file (loaded_line opts es # ls) (Exit 0)"
proof -
  have caps: "kPoolCapacity \<le> 2 ^ 31" "pow2 kRingCapacity" "2 \<le> kRingCapacity"
    by (simp_all add: kPoolCapacity_def) (unfold kRingCapacity_def pow2_def, blast, simp)
  have len: "length es \<le> 2 ^ 56"
    using assms(5) by simp
  from replay_done [OF assms(4) len caps assms(6), of d] obtain s hs where
    s: "fold_opt replay_step (round_robin ts) (replay_init kPoolCapacity kRingCapacity d es) = Some s"
      "rp_engine_pc s = Engine_finished" "rp_feed_pc s = Feed_finished" "book_inv (te_book (rp_engine s))"
    and hs: "process_all hs (tick_engine_init kPoolCapacity) = Some (rp_engine s)" "map (unstamped \<circ> fst) hs = map unstamped es"
      "processed (rp_engine s) = of_nat (length es)"
    by blast
  have n: "total_count (te_hist (rp_engine s)) = of_nat (length es)"
    using process_all_sampled [OF hs(1)] hs(3) by simp
  then have count: "unat (total_count (te_hist (rp_engine s))) \<le> 2 ^ 50"
    using assms(5) u64_of_nat [of "length es"] by simp
  from replay_report_defined [OF s(4) count] obtain ls where ls: "replay_report (rp_engine s) = Some ls" ..
  let ?label = "if ro_data_file opts = [] then ''synthetic'' else ''csv_replay''"
  from finish_logs [OF assms(7) count, of ?label "[loaded_line opts es]" ls] obtain fl where
    fl: "log_run (logged w ?label (rp_engine s)) (w_history w) = Some fl"
      "finish w ?label (rp_engine s) [loaded_line opts es] (Some ls) = ends fl (loaded_line opts es # ls) (Exit 0)"
    by auto
  have "hft_lob w d (round_robin ts) argv = ends fl (loaded_line opts es # ls) (Exit 0)"
    unfolding hft_lob_def using assms(1-3) s ls fl(2) by simp
  with hs n ls fl(1) show ?thesis by blast
qed

definition demo_world :: world where
  "demo_world = \<lparr>w_file = (\<lambda>name. if name = ''feed.csv'' then Some (csv_file demo_feed) else None),
     w_draws = (\<lambda>i. \<lparr>dr_step = 0, dr_buy = even i, dr_spread = 1, dr_qty = 1\<rparr>), w_dir_ok = True, w_opens = True,
     w_time = (2026, 8, 5, 22, 50, 34), w_pipe = None, w_history = None\<rparr>"

lemma replay_program_logs_demo:
  "replay_args [''--data'', ''feed.csv''] replay_defaults = Inr (Run (replay_defaults\<lparr>ro_data_file := ''feed.csv''\<rparr>))"
  "replay_events demo_world (replay_defaults\<lparr>ro_data_file := ''feed.csv''\<rparr>) = Inr demo_feed"
proof -
  show "replay_args [''--data'', ''feed.csv''] replay_defaults = Inr (Run (replay_defaults\<lparr>ro_data_file := ''feed.csv''\<rparr>))"
    by simp
  have "load_csv (Some (csv_file demo_feed)) = Inr demo_feed"
    by (subst load_csv_round_trip) (simp_all add: demo_feed_def csv_order_def i64_range_def)
  then show "replay_events demo_world (replay_defaults\<lparr>ro_data_file := ''feed.csv''\<rparr>) = Inr demo_feed"
    by (simp add: replay_events_def demo_world_def)
qed

theorem replay_program_logs_witness:
  "\<exists>te file ls. processed te = 2 \<and> log_run (logged demo_world ''csv_replay'' te) None = Some file \<and>
    hft_lob demo_world (hd demo_feed) (round_robin (replicate 22 (1, 5))) [''--data'', ''feed.csv''] =
      ends file (''Loaded 2 feed events from feed.csv'' # ls) (Exit 0)"
proof -
  have line: "loaded_line (replay_defaults\<lparr>ro_data_file := ''feed.csv''\<rparr>) demo_feed = ''Loaded 2 feed events from feed.csv''"
    using digit_chars by (simp add: loaded_line_def demo_feed_def show_nat_step numeral_2_eq_2)
  have "length demo_feed = 2" "w_dir_ok demo_world" "w_history demo_world = None"
    by (simp_all add: demo_feed_def demo_world_def)
  with replay_program_logs [OF replay_program_logs_demo(1) _ replay_program_logs_demo(2) demo_feed_ok, of "replicate 22 (1, 5)" "hd demo_feed"]
  have "\<exists>te file ls. processed te = 2 \<and> log_run (logged demo_world ''csv_replay'' te) None = Some file \<and>
    hft_lob demo_world (hd demo_feed) (round_robin (replicate 22 (1, 5))) [''--data'', ''feed.csv''] =
      ends file (loaded_line (replay_defaults\<lparr>ro_data_file := ''feed.csv''\<rparr>) demo_feed # ls) (Exit 0)"
    by (simp add: replay_defaults_def) blast
  then show ?thesis
    unfolding line .
qed

text \<open>
  (C37) Publisher and subscriber. A publisher that gets a socket sends every order of its feed and then the end marker, and exits with 0.
  If the network loses any of these datagrams but the end marker, and delivers the others in order, possibly with shorter datagrams in
  between, the subscriber exits with 0, its engine is in the state of processing exactly the delivered orders, it logs one row with their number,
  and the two counters it prints add up to the number of the last delivered order.
\<close>
theorem published_feed_received:
  assumes "publisher_args pargv publisher_defaults = Inr (Run popts)" and "publisher_events (w_file w (po_data_file popts)) (w_draws w) popts = Inr es"
    and "published_ok es" and "0 \<le> psock" and "out = feed_publisher w psock pargv"
    and "subscriber_args sargv subscriber_defaults = Inr (Run sopts)" and "0 \<le> sock" and "0 \<le> bound" and "0 \<le> joined" and "w_dir_ok w"
    and "subseq delivered es" and "carries ins delivered"
    and "res = engine_subscriber w (sock, bound, joined) (map (apfst Datagram) ins @ [(Datagram (last (oc_sent out)), ts, lat)]) sargv"
  shows "oc_end out = Exit 0 \<and> oc_sent out = map (\<lambda>r. encode_WireOrder (to_wire r)) es @ [encode_WireOrder end_marker] \<and> oc_end res = Exit 0 \<and>
    (\<exists>s stamps ls. process_received (zip delivered stamps) (tick_engine_init kPoolCapacity) = Some (sb_engine s) \<and>
      length stamps = length delivered \<and> processed (sb_engine s) = of_nat (length delivered) \<and>
      dropped s + processed (sb_engine s) = (if delivered = [] then 0 else ord_id (last delivered)) \<and>
      subscriber_report s = Some ls \<and> oc_lines res = listening_line sopts # ls \<and>
      log_run (logged w ''udp_multicast'' (sb_engine s)) (w_history w) = Some (oc_history res))"
proof -
  have out: "oc_end out = Exit 0" "oc_sent out = publish es"
    using assms(1,2,4) by (simp_all add: assms(5) feed_publisher_def ends_def)
  let ?ins = "map (apfst Datagram) ins @ [(Datagram (last (publish es)), ts, lat)]"
  have "kPoolCapacity \<le> 2 ^ 31"
    by (simp add: kPoolCapacity_def)
  from subscriber_accounts_for_loss [OF assms(3,11,12) this, of ts lat] obtain s stamps where
    s: "subscriber_loop ?ins (subscriber_init kPoolCapacity) = Some (True, s)"
      "length stamps = length delivered" "process_received (zip delivered stamps) (tick_engine_init kPoolCapacity) = Some (sb_engine s)"
      "processed (sb_engine s) = of_nat (length delivered)"
      "dropped s + processed (sb_engine s) = (if delivered = [] then 0 else ord_id (last delivered))"
    by blast
  have "length delivered \<le> 10 ^ 9"
    using published_received(3) [OF assms(3,11)] .
  then have count: "unat (total_count (te_hist (sb_engine s))) \<le> 2 ^ 50"
    using process_received_sampled [OF s(3)] s(4) u64_of_nat [of "length delivered"] by simp
  from subscriber_report_defined [OF this] obtain ls where ls: "subscriber_report s = Some ls" ..
  have "idle_lines ?ins = []"
    by (rule no_idle_line)
  with finish_logs [OF assms(10) count, of "''udp_multicast''" "[listening_line sopts]" ls] assms(6-9) s(1) ls obtain fl where
    "log_run (logged w ''udp_multicast'' (sb_engine s)) (w_history w) = Some fl" "res = ends fl (listening_line sopts # ls) (Exit 0)"
    unfolding assms(13) out(2) engine_subscriber_def by auto
  then have res: "log_run (logged w ''udp_multicast'' (sb_engine s)) (w_history w) = Some (oc_history res)"
    "oc_lines res = listening_line sopts # ls" "oc_end res = Exit 0"
    by (simp_all add: ends_def)
  show ?thesis
    unfolding publish_def [symmetric] using out s(2-5) ls res by blast
qed

theorem published_feed_received_witness:
  "\<exists>s :: subscriber. processed (sb_engine s) = 1 \<and> dropped s + processed (sb_engine s) = 2 \<and>
    oc_end (engine_subscriber demo_world (3, 0, 0) (map (apfst Datagram) [([1, 2], 3, 4), (publish demo_feed ! 1, 7, 5)] @
      [(Datagram (last (oc_sent (feed_publisher demo_world 3 [''--data'', ''feed.csv'']))), 8, 0)]) []) = Exit 0"
proof -
  let ?popts = "publisher_defaults\<lparr>po_data_file := ''feed.csv''\<rparr>"
  have load: "load_csv (Some (csv_file demo_feed)) = Inr demo_feed"
    by (subst load_csv_round_trip) (simp_all add: demo_feed_def csv_order_def i64_range_def)
  have args: "publisher_args [''--data'', ''feed.csv''] publisher_defaults = Inr (Run ?popts)" "subscriber_args [] subscriber_defaults = Inr (Run subscriber_defaults)"
    by simp_all
  have events: "publisher_events (w_file demo_world (po_data_file ?popts)) (w_draws demo_world) ?popts = Inr demo_feed"
    by (simp add: publisher_events_def demo_world_def load)
  have feed: "published_ok demo_feed" "subseq (tl demo_feed) demo_feed"
    "carries [([1, 2], 3, 4), (publish demo_feed ! 1, 7, 5)] (tl demo_feed)"
    by (simp_all add: demo_feed_def published_ok_def feed_order_def carries_def publish_def) (simp add: sizeof_WireOrder_def)
  have w: "w_dir_ok demo_world"
    by (simp add: demo_world_def)
  have one: "length (tl demo_feed) = 1" "tl demo_feed \<noteq> []" "ord_id (last (tl demo_feed)) = 2" "(0 :: int) \<le> 3" "(0 :: int) \<le> 0"
    by (simp_all add: demo_feed_def)
  note run = published_feed_received [OF args(1) events feed(1) one(4) refl args(2) one(4,5,5) w feed(2,3) refl, of 8 0]
  then obtain s :: subscriber where "processed (sb_engine s) = of_nat (length (tl demo_feed))"
    "dropped s + processed (sb_engine s) = (if tl demo_feed = [] then 0 else ord_id (last (tl demo_feed)))"
    by blast
  then have "processed (sb_engine s) = 1" "dropped s + processed (sb_engine s) = 2"
    using one(1-3) by simp_all
  with run show ?thesis
    by blast
qed

end
