(* ===== verification/Tsc_Clock.thy ===== *)
theory Tsc_Clock
  imports Latency_Histogram
begin

text \<open>
  The clock of \<^verbatim>\<open>include/timer.hpp\<close>: raw readings of the time stamp counter, converted to nanoseconds with a factor that
  start-up measures against the steady clock. The readings are arguments. The theory shows that calibration ends and
  that its factor maps the measured interval back to itself up to rounding, and that converted readings never run backwards.
\<close>

section \<open>Calibration and conversion\<close>

text \<open>Calibration is still spinning, divided by zero, or has found the factor.\<close>

datatype calibration = Spinning | Infinite | Factor rat

definition calib_duration :: int where
  "calib_duration = 100000000"

text \<open>The readings of the steady clock that the loop condition makes, until the first that ends the loop.\<close>

fun calib_spin :: "int \<Rightarrow> int list \<Rightarrow> bool" where
  "calib_spin start_wall [] = True"
| "calib_spin start_wall (w # ws) = (if w - start_wall < calib_duration then calib_spin start_wall ws else False)"

definition calibrate :: "bool \<Rightarrow> u64 \<Rightarrow> int \<Rightarrow> int list \<Rightarrow> u64 \<Rightarrow> int \<Rightarrow> calibration" where
  "calibrate has_rdtsc start_tsc start_wall readings end_tsc end_wall =
     (if \<not> has_rdtsc then Factor 1
      else if calib_spin start_wall readings then Spinning
      else let wall_ns = dbl (of_int (end_wall - start_wall)); cycles = double_of (end_tsc - start_tsc)
           in if cycles = 0 then Infinite else Factor (dbl (wall_ns / cycles)))"

definition cycles_to_ns :: "rat \<Rightarrow> u64 \<Rightarrow> rat" where
  "cycles_to_ns ns_per_cycle cycles = dbl (double_of cycles * ns_per_cycle)"

text \<open>The time stamp of the sequencer, and the latency the measuring loops record; both casts can be undefined.\<close>

definition now_ns :: "rat \<Rightarrow> u64 \<Rightarrow> u64 option" where
  "now_ns ns_per_cycle tsc = u64_of (cycles_to_ns ns_per_cycle tsc)"

definition latency_ns :: "rat \<Rightarrow> u64 \<Rightarrow> u64 \<Rightarrow> u64 option" where
  "latency_ns ns_per_cycle t0 t1 = u64_of (cycles_to_ns ns_per_cycle (t1 - t0))"

section \<open>Calibration\<close>

lemma calib_spin_ends: "w \<in> set ws \<Longrightarrow> start_wall + calib_duration \<le> w \<Longrightarrow> \<not> calib_spin start_wall ws"
  by (induction ws) auto

lemma double_of_0 [simp]: "double_of w = 0 \<longleftrightarrow> w = 0"
proof -
  have "0 < double_of w" if "w \<noteq> 0"
    unfolding double_of_def using that by (intro dbl_pos) (simp only: of_nat_0_less_iff word_neq_0_conv word_gt_0_unat)
  moreover have "double_of 0 = 0"
    by (simp add: double_of_def)
  ultimately show ?thesis by force
qed

lemma u64_of_mono:
  assumes "x \<le> y" and "u64_of x = Some m" and "u64_of y = Some n"
  shows "m \<le> n"
proof -
  have x: "0 \<le> \<lfloor>x\<rfloor>" "\<lfloor>x\<rfloor> < 2 ^ 64" "m = of_int \<lfloor>x\<rfloor>" and y: "0 \<le> \<lfloor>y\<rfloor>" "\<lfloor>y\<rfloor> < 2 ^ 64" "n = of_int \<lfloor>y\<rfloor>"
    using assms(2,3) by (auto simp: u64_of_def split: if_splits)
  then have "uint m = \<lfloor>x\<rfloor>" "uint n = \<lfloor>y\<rfloor>"
    by (simp_all add: unsigned_of_int take_bit_int_eq_self)
  with floor_mono [OF assms(1)] show ?thesis
    by (simp add: word_le_def)
qed

lemma now_ns_mono:
  assumes "0 \<le> f" and "t \<le> t'" and "now_ns f t = Some n" and "now_ns f t' = Some n'"
  shows "n \<le> n'"
proof -
  have "(of_nat (unat t) :: rat) \<le> of_nat (unat t')"
    using assms(2) by (simp only: of_nat_le_iff word_le_nat_alt)
  then have "double_of t \<le> double_of t'"
    unfolding double_of_def by (rule dbl_mono)
  then have "cycles_to_ns f t \<le> cycles_to_ns f t'"
    unfolding cycles_to_ns_def using assms(1) by (intro dbl_mono mult_right_mono)
  with assms(3,4) show ?thesis
    unfolding now_ns_def by (blast intro: u64_of_mono)
qed

text \<open>A quotient times its divisor, rounded twice.\<close>

lemma quotient_back:
  assumes "0 \<le> x" and "0 < y"
  shows "\<bar>dbl (y * dbl (x / y)) - x\<bar> \<le> 3 * x / 2 ^ 53"
proof -
  define z where "z = y * dbl (x / y)"
  have "\<bar>dbl (x / y) - x / y\<bar> * y \<le> x / y / 2 ^ 53 * y"
    using dbl_close [of "x / y"] assms by (intro mult_right_mono) simp_all
  then have 1: "\<bar>z - x\<bar> \<le> x / 2 ^ 53"
    using assms(2) unfolding z_def abs_mult_pos' [OF less_imp_le [OF assms(2)], symmetric] by (simp add: field_simps abs_mult)
  have "0 \<le> z"
    using assms by (simp add: z_def)
  from dbl_close [OF this] 1 have "\<bar>dbl z - x\<bar> \<le> z / 2 ^ 53 + x / 2 ^ 53"
    by linarith
  moreover have "x / 2 ^ 53 \<le> x"
    using assms(1) by (simp add: field_simps)
  then have "z \<le> 2 * x"
    using 1 by linarith
  then have "z / 2 ^ 53 \<le> 2 * x / 2 ^ 53"
    by (intro divide_right_mono) simp_all
  ultimately show ?thesis
    unfolding z_def by linarith
qed

text \<open>
  (C39) Calibration. As soon as one reading of the steady clock is 100 ms after the first, the loop ends; if the counter
  moved, the factor is positive, and converting the measured interval with it gives back the elapsed time up to a few parts in
  \<open>2 ^ 53\<close>. Conversion preserves order, so time stamps taken from a counter that does not run backwards do not either.
\<close>
theorem calibration_measures:
  assumes "w \<in> set readings" and "start_wall + 100000000 \<le> w" and "start_wall < end_wall" and "end_wall - start_wall \<le> 2 ^ 53"
    and "end_tsc \<noteq> start_tsc"
  shows "\<exists>f > 0. calibrate True start_tsc start_wall readings end_tsc end_wall = Factor f \<and>
    \<bar>cycles_to_ns f (end_tsc - start_tsc) - of_int (end_wall - start_wall)\<bar> \<le> 3 * of_int (end_wall - start_wall) / 2 ^ 53 \<and>
    (\<forall>t t' n n'. t \<le> t' \<longrightarrow> now_ns f t = Some n \<longrightarrow> now_ns f t' = Some n' \<longrightarrow> n \<le> n')"
proof -
  define y where "y = double_of (end_tsc - start_tsc)"
  define x where "x = (of_int (end_wall - start_wall) :: rat)"
  have x: "0 < x" "dbl x = x"
    using assms(3) dbl_int [of "nat (end_wall - start_wall)"] assms(4) by (simp_all add: x_def of_nat_nat)
  have y: "0 < y"
    using assms(5) double_of_0 [of "end_tsc - start_tsc"] by (simp add: y_def double_of_def order_less_le)
  have "calibrate True start_tsc start_wall readings end_tsc end_wall = Factor (dbl (x / y))"
    using calib_spin_ends [OF assms(1), of start_wall] assms(2) y
    unfolding calibrate_def Let_def x_def [symmetric] y_def [symmetric] x(2) by (simp add: calib_duration_def)
  moreover have "\<bar>cycles_to_ns (dbl (x / y)) (end_tsc - start_tsc) - x\<bar> \<le> 3 * x / 2 ^ 53"
    using quotient_back [of x y] x y by (simp add: cycles_to_ns_def y_def)
  moreover have "0 < dbl (x / y)"
    using x y by (simp add: dbl_pos)
  ultimately show ?thesis
    using now_ns_mono unfolding x_def by (metis less_imp_le)
qed

theorem calibration_measures_witness:
  "\<exists>f > 0. calibrate True 1000 0 [50000000, 100000001] 300001000 100000002 = Factor f \<and>
    \<bar>cycles_to_ns f 300000000 - 100000002\<bar> \<le> 3 * 100000002 / 2 ^ 53"
  using calibration_measures [of 100000001 "[50000000, 100000001]" 0 100000002 300001000 1000] by auto

text \<open>Without the counter the factor is 1 and readings below \<open>2 ^ 53\<close> ns are exact.\<close>

lemma fallback_exact:
  assumes "n \<le> 2 ^ 53"
  shows "calibrate False a b ws c e = Factor 1" and "now_ns 1 (of_nat n) = Some (of_nat n)"
  using assms double_of_nat [OF assms] by (simp_all add: calibrate_def now_ns_def cycles_to_ns_def dbl_int u64_of_def)

end
