(* ===== verification/Supervisor.thy ===== *)
theory Supervisor
  imports Command_Line
begin

text \<open>
  The process supervisor of \<^verbatim>\<open>src/supervisor.cpp\<close>. What \<^verbatim>\<open>fork\<close> and \<^verbatim>\<open>waitpid\<close> return are arguments; the
  state records the children that have not been reaped, every program started and every pause. The theory
  shows that the supervisor never restarts the subscriber more than five times, with growing pauses, and
  that it always comes to an end once its children do.
\<close>

section \<open>State and operations\<close>

definition kMaxRestarts :: nat where
  "kMaxRestarts = 5"

datatype sup_pc = Waiting | Shut_down | Exited int

record supervisor =
  subscriber_path :: string
  publisher_path :: string
  subscriber_pid :: int
  publisher_pid :: int
  subscriber_restarts :: nat
  publisher_done :: bool
  children :: "(int \<times> string list) list"
  started :: "string list list"
  slept_ms :: "int list"
  sup_pc :: sup_pc

definition spawn :: "string \<Rightarrow> string list \<Rightarrow> int \<Rightarrow> supervisor \<Rightarrow> int \<times> supervisor" where
  "spawn path args pid s =
     (if pid < 0 then (pid, s\<lparr>sup_pc := Exited 1\<rparr>)
      else (pid, s\<lparr>children := (pid, path # args) # children s, started := started s @ [path # args]\<rparr>))"

definition supervisor_start :: "string list \<Rightarrow> int \<Rightarrow> int \<Rightarrow> supervisor" where
  "supervisor_start argv fork1 fork2 =
     (let build_dir = (if 1 < length argv then argv ! 1 else ''./build'');
          s = \<lparr>subscriber_path = build_dir @ ''/engine_subscriber'', publisher_path = build_dir @ ''/feed_publisher'',
               subscriber_pid = 0, publisher_pid = 0, subscriber_restarts = 0, publisher_done = False,
               children = [], started = [], slept_ms = [], sup_pc = Waiting\<rparr>;
          (sub, s1) = spawn (subscriber_path s) [] fork1 s
      in if sup_pc s1 \<noteq> Waiting then s1
         else let (pub, s2) = spawn (publisher_path s) [''--count'', ''200000''] fork2 (s1\<lparr>subscriber_pid := sub, slept_ms := [300]\<rparr>)
              in if sup_pc s2 \<noteq> Waiting then s2 else s2\<lparr>publisher_pid := pub\<rparr>)"

text \<open>What \<^verbatim>\<open>waitpid\<close> reports: an error, or a child that was killed by a signal or left with an exit code.\<close>

datatype wait_status = Signaled int | Exit_code int
datatype wait_result = Wait_failed | Child_exited int wait_status

fun crashed :: "wait_status \<Rightarrow> bool" where
  "crashed (Signaled sig) = True"
| "crashed (Exit_code c) = False"

fun exit_code :: "wait_status \<Rightarrow> int" where
  "exit_code (Signaled sig) = - 1"
| "exit_code (Exit_code c) = c"

definition reap :: "int \<Rightarrow> supervisor \<Rightarrow> supervisor" where
  "reap pid s = s\<lparr>children := filter (\<lambda>c. fst c \<noteq> pid) (children s)\<rparr>"

definition restart_subscriber :: "int \<Rightarrow> supervisor \<Rightarrow> supervisor" where
  "restart_subscriber fork_pid s =
     (if kMaxRestarts \<le> subscriber_restarts s then s\<lparr>sup_pc := Shut_down\<rparr>
      else let n = subscriber_restarts s + 1;
               (pid, s') = spawn (subscriber_path s) [] fork_pid (s\<lparr>subscriber_restarts := n, slept_ms := slept_ms s @ [500 * int n]\<rparr>)
           in s'\<lparr>subscriber_pid := pid\<rparr>)"

fun on_wait :: "wait_result \<Rightarrow> int \<Rightarrow> supervisor \<Rightarrow> supervisor" where
  "on_wait Wait_failed fork_pid s = s\<lparr>sup_pc := Shut_down\<rparr>"
| "on_wait (Child_exited pid st) fork_pid s =
     (let s' = reap pid s
      in if pid = publisher_pid s then s'\<lparr>publisher_done := True\<rparr>
         else if pid = subscriber_pid s then
           if \<not> crashed st \<and> exit_code st = 0 then s'\<lparr>sup_pc := Shut_down\<rparr> else restart_subscriber fork_pid s'
         else s')"

fun supervise :: "(wait_result \<times> int) list \<Rightarrow> supervisor \<Rightarrow> supervisor" where
  "supervise [] s = s"
| "supervise ((w, fork_pid) # ws) s = (if sup_pc s = Waiting then supervise ws (on_wait w fork_pid s) else s)"

section \<open>The supervisor ends\<close>

text \<open>\<^verbatim>\<open>waitpid\<close> reports only children that exist and have not been reaped; without any it fails.\<close>

fun waits_ok :: "(wait_result \<times> int) list \<Rightarrow> supervisor \<Rightarrow> bool" where
  "waits_ok [] s \<longleftrightarrow> True"
| "waits_ok ((w, fork_pid) # ws) s \<longleftrightarrow> (sup_pc s = Waiting \<longrightarrow>
     (case w of Wait_failed \<Rightarrow> True | Child_exited pid st \<Rightarrow> pid \<in> fst ` set (children s)) \<and> waits_ok ws (on_wait w fork_pid s))"

text \<open>Every pause so far is the documented linear backoff, and every program started beyond the first two is a restart.\<close>

definition sup_inv :: "supervisor \<Rightarrow> supervisor \<Rightarrow> bool" where
  "sup_inv s0 s \<longleftrightarrow> subscriber_restarts s \<le> kMaxRestarts \<and> subscriber_path s = subscriber_path s0 \<and>
     slept_ms s = slept_ms s0 @ map (\<lambda>k. 500 * int k) [1..<Suc (subscriber_restarts s)] \<and>
     (\<exists>n \<le> subscriber_restarts s. started s = started s0 @ replicate n [subscriber_path s0])"

definition waits_left :: "supervisor \<Rightarrow> nat" where
  "waits_left s = length (children s) + (kMaxRestarts - subscriber_restarts s)"

lemma restart_cases:
  assumes "kMaxRestarts > subscriber_restarts s"
  shows "restart_subscriber fork_pid s = (if fork_pid < 0
    then s\<lparr>subscriber_restarts := Suc (subscriber_restarts s), slept_ms := slept_ms s @ [500 * (1 + int (subscriber_restarts s))],
      sup_pc := Exited 1, subscriber_pid := fork_pid\<rparr>
    else s\<lparr>subscriber_restarts := Suc (subscriber_restarts s), slept_ms := slept_ms s @ [500 * (1 + int (subscriber_restarts s))],
      children := (fork_pid, [subscriber_path s]) # children s, started := started s @ [[subscriber_path s]], subscriber_pid := fork_pid\<rparr>)"
  using assms by (simp add: restart_subscriber_def spawn_def Let_def)

lemma sup_inv_restart:
  assumes "sup_inv s0 s"
  shows "sup_inv s0 (restart_subscriber fork_pid s)"
proof (cases "kMaxRestarts \<le> subscriber_restarts s")
  case True
  with assms show ?thesis by (auto simp: restart_subscriber_def sup_inv_def)
next
  case False
  from assms obtain n where n: "n \<le> subscriber_restarts s" "started s = started s0 @ replicate n [subscriber_path s0]"
    by (auto simp: sup_inv_def)
  then have "\<exists>m \<le> Suc (subscriber_restarts s). started s @ [[subscriber_path s0]] = started s0 @ replicate m [subscriber_path s0]"
    by (intro exI [of _ "Suc n"]) (simp add: replicate_append_same)
  moreover have "\<exists>m \<le> Suc (subscriber_restarts s). started s = started s0 @ replicate m [subscriber_path s0]"
    using n by (intro exI [of _ n]) simp
  ultimately show ?thesis
    using assms False by (simp add: restart_cases sup_inv_def)
qed

lemma sup_inv_on_wait: "sup_inv s0 s \<Longrightarrow> sup_inv s0 (on_wait w fork_pid s)"
proof (cases w)
  case (Child_exited pid st)
  assume inv: "sup_inv s0 s"
  then have "sup_inv s0 (reap pid s)"
    by (simp add: sup_inv_def reap_def)
  from sup_inv_restart [OF this, of fork_pid] this show ?thesis
    by (auto simp: Child_exited Let_def sup_inv_def)
qed (simp add: sup_inv_def)

lemma waits_decrease:
  assumes "pid \<in> fst ` set (children s)" and "sup_pc (on_wait (Child_exited pid st) fork_pid s) = Waiting"
  shows "waits_left (on_wait (Child_exited pid st) fork_pid s) < waits_left s"
proof -
  have less: "length (filter (\<lambda>c. fst c \<noteq> pid) (children s)) < length (children s)"
    using assms(1) by (auto intro: length_filter_less)
  show ?thesis
  proof (cases "kMaxRestarts \<le> subscriber_restarts s")
    case True
    with assms(2) less show ?thesis
      by (auto simp: waits_left_def reap_def restart_subscriber_def Let_def split: if_splits)
  next
    case False
    with assms(2) less show ?thesis
      by (auto simp: waits_left_def reap_def restart_cases Let_def split: if_splits)
  qed
qed

lemma supervise_ends:
  assumes "sup_inv s0 s" and "waits_ok ws s" and "waits_left s < length ws"
  shows "sup_pc (supervise ws s) \<noteq> Waiting \<and> sup_inv s0 (supervise ws s)"
  using assms
proof (induction ws arbitrary: s)
  case (Cons x ws)
  obtain w f where x: "x = (w, f)"
    by (cases x)
  show ?case
  proof (cases "sup_pc s = Waiting \<and> sup_pc (on_wait w f s) = Waiting")
    case True
    then obtain pid st where w: "w = Child_exited pid st" "pid \<in> fst ` set (children s)"
      using Cons.prems(2) by (cases w) (simp_all add: x)
    with waits_decrease [of pid s st f] True Cons.prems(3) have "waits_left (on_wait w f s) < length ws"
      by simp
    with Cons.IH [OF sup_inv_on_wait [OF Cons.prems(1)], of w f] Cons.prems(2) True show ?thesis
      by (simp add: x)
  next
    case False
    then have "supervise (x # ws) s \<in> {s, on_wait w f s}" "sup_pc (supervise (x # ws) s) \<noteq> Waiting"
      by (cases ws; auto simp: x)+
    with Cons.prems(1) sup_inv_on_wait show ?thesis by auto
  qed
qed simp

lemma supervisor_start_state:
  "subscriber_restarts (supervisor_start argv fork1 fork2) = 0" "length (children (supervisor_start argv fork1 fork2)) \<le> 2"
  by (simp_all add: supervisor_start_def spawn_def Let_def)

text \<open>
  (C40) The supervisor ends, whatever its children do. When \<^verbatim>\<open>waitpid\<close> reports nothing but children that were
  started and not yet reaped, the loop is left after at most eight reports, whichever children crash, fail or
  finish and whatever \<^verbatim>\<open>fork\<close> returns. By then the subscriber was restarted at most five times, with pauses of
  500, 1000, ... milliseconds, and nothing but the two initial programs and these restarts was started.
\<close>
theorem supervisor_stops:
  assumes "s0 = supervisor_start argv fork1 fork2" and "waits_ok ws s0" and "8 \<le> length ws"
  shows "sup_pc (supervise ws s0) \<noteq> Waiting \<and> subscriber_restarts (supervise ws s0) \<le> 5 \<and>
    slept_ms (supervise ws s0) = slept_ms s0 @ map (\<lambda>k. 500 * int k) [1..<Suc (subscriber_restarts (supervise ws s0))] \<and>
    (\<exists>n \<le> subscriber_restarts (supervise ws s0). started (supervise ws s0) = started s0 @ replicate n [subscriber_path s0])"
proof -
  note start = supervisor_start_state [of argv fork1 fork2]
  have "sup_inv s0 s0"
    using start(1) by (simp add: assms(1) sup_inv_def)
  moreover have "waits_left s0 < length ws"
    using start assms(3) by (simp add: assms(1) waits_left_def kMaxRestarts_def)
  ultimately have "sup_pc (supervise ws s0) \<noteq> Waiting \<and> sup_inv s0 (supervise ws s0)"
    using assms(2) by (intro supervise_ends)
  then show ?thesis
    unfolding sup_inv_def kMaxRestarts_def by blast
qed

definition demo_waits :: "(wait_result \<times> int) list" where
  "demo_waits = [(Child_exited 11 (Exit_code 0), 0), (Child_exited 10 (Signaled 11), 12), (Child_exited 12 (Exit_code 1), 13),
     (Child_exited 13 (Exit_code 0), 0)] @ [(Wait_failed, 0), (Wait_failed, 0), (Wait_failed, 0), (Wait_failed, 0)]"

theorem supervisor_stops_witness:
  "waits_ok demo_waits (supervisor_start [] 10 11) \<and> sup_pc (supervise demo_waits (supervisor_start [] 10 11)) \<noteq> Waiting \<and>
    subscriber_restarts (supervise demo_waits (supervisor_start [] 10 11)) = 2 \<and>
    slept_ms (supervise demo_waits (supervisor_start [] 10 11)) = [300, 500, 1000]"
proof -
  note defs = demo_waits_def supervisor_start_def spawn_def reap_def restart_subscriber_def kMaxRestarts_def Let_def
  have "waits_ok demo_waits (supervisor_start [] 10 11)" "8 \<le> length demo_waits"
    and "subscriber_restarts (supervise demo_waits (supervisor_start [] 10 11)) = 2"
    and "slept_ms (supervisor_start [] 10 11) = [300]"
    by (simp_all add: defs)
  with supervisor_stops [OF refl this(1,2)] show ?thesis
    by (simp add: upt_rec)
qed

text \<open>A clean exit is not answered by a restart.\<close>

lemma clean_exit_not_restarted:
  assumes "subscriber_pid s \<noteq> publisher_pid s"
  shows "on_wait (Child_exited (subscriber_pid s) (Exit_code 0)) fork_pid s = (reap (subscriber_pid s) s)\<lparr>sup_pc := Shut_down\<rparr>"
  using assms by simp

text \<open>
  A process number can be given again once its child was reaped. A subscriber restarted under the number of the
  finished publisher is then taken for the publisher: its crash is not answered by a restart.
\<close>

lemma reused_pid_not_restarted:
  assumes "subscriber_pid s = publisher_pid s"
  shows "on_wait (Child_exited (subscriber_pid s) st) fork_pid s = (reap (subscriber_pid s) s)\<lparr>publisher_done := True\<rparr>"
  using assms by simp

end
