(* ===== verification/Spec2Isabelle.thy ===== *)
theory Spec2Isabelle
  imports Gateway_Main Browser Bridge_History Programs Tsc_Clock Supervisor
begin

text \<open>
  \<^bold>\<open>The program.\<close> The sources under \<^verbatim>\<open>src\<close> are a small exchange. Clients talk a binary protocol to a
  gateway (\<^verbatim>\<open>include/gateway_server.hpp\<close>), which pushes their orders and cancels to a sequencer
  (\<^verbatim>\<open>include/sequencer.hpp\<close>). The sequencer numbers them and publishes them on a broadcast ring with three
  readers: the matching engine (\<^verbatim>\<open>include/matching_engine_consumer.hpp\<close>), which owns the order book and
  acknowledges every request, a write-ahead log (\<^verbatim>\<open>include/wal_consumer.hpp\<close>) and a database writer
  (\<^verbatim>\<open>include/db_consumer.hpp\<close>); \<^verbatim>\<open>src/gateway_main.cpp\<close> starts and stops them. A bridge
  (\<^verbatim>\<open>scripts/web_bridge.py\<close>) holds one session to the gateway and serves a page (\<^verbatim>\<open>ui/app.js\<close>) over HTTP. Beside it
  there is a tick-to-book benchmark: a market data feed is replayed into book, strategy and latency histogram, in one
  process (\<^verbatim>\<open>src/main.cpp\<close>) or over UDP multicast between \<^verbatim>\<open>src/feed_publisher.cpp\<close> and
  \<^verbatim>\<open>src/engine_subscriber.cpp\<close> under \<^verbatim>\<open>src/supervisor.cpp\<close>; each run appends a row to a history file
  (\<^verbatim>\<open>include/results.hpp\<close>).

  \<^bold>\<open>Conventions.\<close> A class is a record of its members and a method is a function that returns the updated
  record. \<^verbatim>\<open>uint8_t\<close> to \<^verbatim>\<open>uint64_t\<close> are words of that width and wrap around; prices are integers, and where
  the source computes with them a result outside 64 bits is undefined behaviour. A \<^verbatim>\<open>double\<close> is a rational number that every
  operation rounds to 53 significant bits. Undefined behaviour (a dead
  object, an index out of range, a dereferenced end iterator, signed overflow) is the result \<^const>\<open>None\<close>; a
  theorem that an operation returns \<^const>\<open>Some\<close> says that it does not happen. Exceptions are values of a sum
  type. What comes from outside is an argument: clock readings, random draws, the results of \<^verbatim>\<open>recv\<close>, \<^verbatim>\<open>send\<close>,
  \<^verbatim>\<open>kevent\<close>, \<^verbatim>\<open>fwrite\<close>, \<^verbatim>\<open>fork\<close> and \<^verbatim>\<open>waitpid\<close>, the padding bytes of a structure, and the database library, whose
  documented behaviour is the hypothesis \<^const>\<open>sqlite_ok\<close> (it holds for the small database \<^const>\<open>lite\<close>).
  Threads are step functions or step relations that interleave in any order.

  \<^bold>\<open>Theories.\<close>
  \<^item> \<open>Hft_Prelude\<close>, \<open>Hft_Types\<close>: word and map lemmas, runs that can fail (\<^const>\<open>fold_opt\<close>); the structures of
    \<^verbatim>\<open>types.hpp\<close>, \<^verbatim>\<open>event.hpp\<close> and \<^verbatim>\<open>outbound_ack.hpp\<close>.
  \<^item> \<open>Object_Pool\<close> (\<^verbatim>\<open>object_pool.hpp\<close>): the intrusive free list; allocation is exact and hands out dead slots
    only. Interface \<open>object_store\<close>.
  \<^item> \<open>Spsc_Ring\<close> (\<^verbatim>\<open>spsc_ring_buffer.hpp\<close>): the ring as a sequential queue (interface \<open>bounded_fifo\<close>) and as two
    threads with one step per memory access; every interleaving delivers in order and no slot is raced on.
  \<^item> \<open>Broadcast_Ring\<close> (\<^verbatim>\<open>broadcast_ring.hpp\<close>): the ring as a window on the published history (\<^const>\<open>bring_hist\<close>,
    interface \<open>event_log\<close>), and the batch and drain loops of its readers.
  \<^item> \<open>Order_Book\<close>, \<open>Book_Spec\<close>, \<open>Book_Refinement\<close>, \<open>Book_Correct\<close>, \<open>Book_Interface\<close>, \<open>Book_Properties\<close>
    (\<^verbatim>\<open>order_book.hpp\<close>): the book over pool pointers and an abstract book of two priority lists; add and cancel
    refine the abstract operations (interface \<open>limit_book\<close>), from which price-time priority, conservation of
    quantity and the uncrossed book follow.
  \<^item> \<open>Matching_Engine\<close>, \<open>Engine_Correct\<close>, \<open>Engine_Properties\<close>: event handlers, acknowledgements and the consumer
    thread; the engine survives every numbered stream, its maps agree with the book, each event has exactly the
    stated acknowledgements, and the thread ends in the state of an in-order replay.
  \<^item> \<open>Wire_Protocol\<close>, \<open>Frame_Reader\<close>, \<open>Session_State\<close> (\<^verbatim>\<open>gateway_protocol.hpp\<close>, \<^verbatim>\<open>wire_format.hpp\<close>,
    \<^verbatim>\<open>frame_reader.hpp\<close>, \<^verbatim>\<open>session_state.hpp\<close>): packed layouts, reassembly of frames from arbitrary chunks, logon
    and gap detection.
  \<^item> \<open>Gateway_Server\<close>, \<open>Gateway_Properties\<close>: \<^verbatim>\<open>start\<close> and everything \<^verbatim>\<open>poll_once\<close> reaches; requests reach the sequencer in
    order (interface \<open>frame_handler\<close>), acknowledgements are routed, heartbeats are exact, the connection table stays well formed, and a
    closing frame makes the reading loop use an erased connection.
  \<^item> \<open>Sequencer\<close>: the sequencer thread between its queues and the ring; the total order loses nothing and no
    producer starves.
  \<^item> \<open>Log_Consumer\<close>, \<open>Wal_Consumer\<close>, \<open>Db_Consumer\<close>: readers of the ring (interfaces \<open>ring_reader\<close> and
    \<open>log_consumer\<close>), the log file with its sync policy and the database with its batch policy; complete after
    shutdown, bounded loss on a crash.
  \<^item> \<open>Exchange\<close> and this theory: start-up, the interleaved steps and shutdown of sequencer and consumers, and the
    theorem that all consumers end with the same history.
  \<^item> \<open>Gateway_Program\<close>, \<open>Gateway_Process\<close>, \<open>Gateway_Main\<close> (\<^verbatim>\<open>gateway_main.cpp\<close>): \<^verbatim>\<open>poll_once\<close> as a step machine equal to the
    function; the process of all threads, which is undefined exactly after a closing frame and in which everything goes back to
    frames that clients sent; and \<^verbatim>\<open>main\<close> from the command line to the exit code, with \<^verbatim>\<open>start\<close>, \<^verbatim>\<open>stop\<close> and destructors of the
    consumers: what the two files hold at each exit code, and that the shutdown completes.
  \<^item> \<open>Py_Struct\<close>, \<open>Web_Bridge\<close>, \<open>Bridge_Properties\<close>, \<open>Bridge_History\<close> (\<^verbatim>\<open>web_bridge.py\<close>): Python's binary packing, the session to the
    gateway, the POST and GET handlers and the two database queries; answered requests reach the sequencer,
    acknowledgements reach the order table of the bridge, and the history shows each order's latest report.
  \<^item> \<open>Browser\<close> (\<^verbatim>\<open>app.js\<close> and the event stream of the bridge): the page shows the bridge's orders, except for changes between
    snapshot and subscription.
  \<^item> \<open>Market_Data_Feed\<close>, \<open>Market_Maker\<close>, \<open>Double\<close>, \<open>Latency_Histogram\<close>, \<open>Tsc_Clock\<close>, \<open>Result_Log\<close> (\<^verbatim>\<open>market_data_feed.hpp\<close>, \<^verbatim>\<open>strategy.hpp\<close>,
    \<^verbatim>\<open>latency_histogram.hpp\<close>, \<^verbatim>\<open>timer.hpp\<close>, \<^verbatim>\<open>results.hpp\<close>): the CSV reader and the synthetic feed, the quoting strategy, rounding to double
    precision, the log-linear histogram with the precision of its percentiles, the calibration of the time stamp counter, and
    the history file as a table.
  \<^item> \<open>Tick_Engine\<close>, \<open>Command_Line\<close>, \<open>Multicast_Feed\<close>, \<open>Programs\<close>, \<open>Supervisor\<close>: self test, feed and engine thread of
    \<^verbatim>\<open>main.cpp\<close>, the argument loops, publisher and subscriber with a lossy network, the three programs from their command lines
    to exit codes, output and history row, and the supervisor's loop.

  \<^bold>\<open>Bounds.\<close> Histories and runs are shorter than \<open>2 ^ 63\<close> steps, so that 64-bit sequence numbers do not wrap.
  Order pools hold at most \<open>2 ^ 31\<close> slots, the range of the free list's indices. Ring capacities are powers of
  two, as the sources assert. Feed ids stay below the strategy's first id \<open>10 ^ 9\<close> and feed prices within
  \<open>2 ^ 59\<close>; each order moves a quote by at most three ticks, which leaves room in 64 bits for \<open>2 ^ 56\<close> orders.
  Percentiles are exact up to the stated precision for fewer than \<open>2 ^ 50\<close> samples, for which the rank survives the rounding.
  Loops that need not end in general (\<^const>\<open>consume_all\<close>, \<^const>\<open>drain_acks\<close>, \<^const>\<open>drain_fills\<close>) are partial functions,
  and the lemmas about them show that they return.

  \<^bold>\<open>Not modelled.\<close> The weak memory orders of the atomics (steps are sequentially consistent) and \<^verbatim>\<open>cpu_pause\<close>, which has no effect on
  the state; \<^verbatim>\<open>handle_sigint\<close>, which only decides where a run of the poll loop ends; \<^verbatim>\<open>set_nonblocking\<close>, \<^verbatim>\<open>register_read\<close> and
  socket options, which change the kernel's state only; log lines of the gateway and the messages of a failing
  self test, none of which is ever printed; argument parsing of the bridge, and times, averages, tabs, keys and the polling of statistics in the page, which are
  presentation; \<^verbatim>\<open>manual_gateway_client.py\<close> and \<^verbatim>\<open>plot_latency.py\<close>, which are run and read by hand; and \<^verbatim>\<open>CMakeCXXCompilerId.cpp\<close>, a file that
  CMake generates to identify the compiler.
\<close>

section \<open>The whole gateway program\<close>

lemma numbered_distinct:
  assumes "numbered hist" and "length hist < 2 ^ 64"
  shows "distinct (map ev_seq_num hist)"
  using numbered_seq_log [OF assms] by (simp add: seq_log_def strict_sorted_iff)

text \<open>
  (C4) One history for all. Start the program with a log that opens and an empty database that behaves as
  documented. However the gateway's pushes, the sequencer, the matching engine, the log and the database
  interleave, no thread runs into undefined behaviour. Once the sequencer thread has ended, the shutdown
  succeeds, and there is one history, numbered 1, 2, 3, ..., such that: from every producer it holds the
  accepted requests in order, except those still queued; the book and the bookkeeping of the engine are those
  of applying it in order; the log holds one record per event of it, all durable; and the order table holds
  one row per order or cancel of it.
\<close>
theorem exchange_consistent:
  assumes "pow2 in_cap" and "pow2 out_cap" and "out_cap < 2 ^ 64" and "3 \<le> maxc" and "pow2 ack_cap" and "pool_cap \<le> 2 ^ 31"
    and "sqlite_ok (en_api en) view disk txn" and "\<not> txn d" and "view d = disk d" and "fst (disk d) = []"
    and "\<forall>a \<in> set acts. x_act_ok a" and "length acts < 2 ^ 63"
    and "e0 = engine_init pool_cap (spsc_init ack_cap dack) (Some (spsc_init ack_cap dack))"
  shows "\<exists>x0 x. exchange_start (en_api en) True wal_now db_now
      (exchange_init in_cap maxc out_cap ack_cap pool_cap dev dack (wal_init wdisk wn wiv) (db_init d dn iv)) = Inr x0 \<and>
    fold_opt (x_act en) acts x0 = Some x \<and>
    (seq_thread_pc (x_seq x) = Seq_done \<longrightarrow>
      (\<exists>x' hist e. exchange_shutdown en env wal_t db_t x = Some x' \<and> map ev_seq_num hist = map of_nat [1..<Suc (length hist)] \<and>
        (\<forall>p < producer_count. map payload (from_producer p hist @ spsc_list (inputs (x_seq x') ! p)) = map payload (pushed_to p (x_pushed x'))) \<and>
        fold_opt (engine_apply env0) hist e0 = Some e \<and> same_core e (x_engine x') \<and>
        durable (x_wal x') = wdisk @ wal_bytes (en_fw en) (en_pad en) 0 hist \<and> \<not> file_open (x_wal x') \<and>
        fst (disk (db_conn (x_db x'))) = map order_row (filter is_request hist) \<and> \<not> db_opened (x_db x')))"
proof -
  from exchange_start_inv [OF assms(1-9), of wal_now db_now dev dack wdisk wn wiv dn iv env0] obtain x0 where
    x0: "exchange_start (en_api en) True wal_now db_now
        (exchange_init in_cap maxc out_cap ack_cap pool_cap dev dack (wal_init wdisk wn wiv) (db_init d dn iv)) = Inr x0"
      "x_inv en view disk txn (disk d) wdisk wn env0 e0 [] [] x0"
    unfolding assms(13) by blast
  have "Suc (length ([] :: SequencedEvent list) + length acts) < 2 ^ 64"
    using assms(12) by simp
  from x_acts_inv [OF x0(2) this assms(11)] obtain x hist as where
    x: "fold_opt (x_act en) acts x0 = Some x" "x_inv en view disk txn (disk d) wdisk wn env0 e0 hist as x"
    by blast
  note parts = x_inv_parts [OF x(2)]
  have num: "numbered hist" and short: "length hist < 2 ^ 64"
    using seq_inv_log(2) [OF parts(1)] parts(3) by (simp_all add: bring_hist_def)
  from exchange_shutdown_inv [OF x(2), of env wal_t db_t] obtain x' as' e where
    x': "exchange_shutdown en env wal_t db_t x = Some x'" "inputs (x_seq x') = inputs (x_seq x)" "x_pushed x' = x_pushed x"
      "fold_opt (engine_apply env0) hist e0 = Some e" "same_core e (x_engine x')"
      "durable (x_wal x') = wdisk @ wal_bytes (en_fw en) (en_pad en) 0 hist" "\<not> file_open (x_wal x')"
      "disk (db_conn (x_db x')) = (order_rows hist (fst (disk d)), snd (disk d) @ exec_rows (en_wall en) 0 as')" "\<not> db_opened (x_db x')"
    by blast
  have "fst (disk (db_conn (x_db x'))) = map order_row (filter is_request hist)"
    using order_rows_fresh [OF numbered_distinct [OF num short], of "[]"] by (simp add: x'(8) assms(10))
  moreover have "map payload (from_producer p hist @ spsc_list (inputs (x_seq x') ! p)) = map payload (pushed_to p (x_pushed x'))"
    if "p < producer_count" "seq_thread_pc (x_seq x) = Seq_done" for p
    using seq_inv_log(3) [OF parts(1) that(1)] by (simp add: that(2) x'(2,3))
  ultimately show ?thesis
    using x0(1) x(1) x' num unfolding numbered_def by blast
qed

text \<open>A run in which one order is pushed and sequenced before the sequencer is stopped.\<close>

definition demo_seq_actions :: "seq_action list" where
  "demo_seq_actions = [Produce 0 wal_demo_event, Thread 1, Thread 2, Thread 3, Thread 4, Thread 5, Thread 6, Stop, Thread 7]"

lemma demo_sequenced:
  "\<exists>s acc. fold_opt seq_act demo_seq_actions (seq_start (x_seq demo_exchange), []) = Some (s, acc) \<and> seq_thread_pc s = Seq_done"
  by (simp add: demo_seq_actions_def demo_exchange_def exchange_init_def sequencer_init_def seq_start_def Let_def
      register_consumer_def producer_count_def input_for_def spsc_push_def spsc_pop_def spsc_init_def spsc_mask_def
      seq_thread_def next_producer_def next_in_batch_def kMaxBatch_def seq_stop_def try_publish_def bring_init_def
      scan_min_consumer_cursor_def bring_put_def slot_index_def)

theorem exchange_consistent_witness:
  "\<exists>x0 x x' hist e. exchange_start lite True 0 0 demo_exchange = Inr x0 \<and>
    fold_opt (x_act demo_surroundings) (map X_seq demo_seq_actions) x0 = Some x \<and>
    exchange_shutdown demo_surroundings (\<lambda>a k q. q) (0, 0) (0, 0) x = Some x' \<and>
    fold_opt (engine_apply (\<lambda>a k q. q)) hist (engine_init 16 (spsc_init 4 demo_ack) (Some (spsc_init 4 demo_ack))) = Some e \<and>
    same_core e (x_engine x') \<and> durable (x_wal x') = wal_bytes (\<lambda>n. 56) (\<lambda>n. replicate 9 0) 0 hist \<and>
    fst (fst (snd (db_conn (x_db x')))) = map order_row (filter is_request hist)"
proof -
  let ?acts = "map X_seq demo_seq_actions"
  have ok: "\<forall>a \<in> set ?acts. x_act_ok a" "length ?acts < 2 ^ 63"
    by (simp_all add: demo_seq_actions_def producer_count_def)
  have api: "en_api demo_surroundings = lite" "en_fw demo_surroundings = (\<lambda>n. 56)" "en_pad demo_surroundings = (\<lambda>n. replicate 9 0)"
    by (simp_all add: demo_surroundings_def)
  have pushed: "x_pushed demo_exchange = []"
    by (simp add: demo_exchange_def exchange_init_def Let_def split: prod.splits)
  note run = exchange_consistent [OF pow2_small(1) pow2_small(1) _ _ pow2_small(1) _ lite_ok [folded api(1)] _ _ _ ok refl,
      of 8 16 "((([], []), ([], []), False))" 0 0 idle_event demo_ack "[]" 256 50 256 50 "\<lambda>a k q. q" "(0, 0)" "(0, 0)" "\<lambda>a k q. q"]
  from run obtain x0 x where
    x: "exchange_start lite True 0 0 demo_exchange = Inr x0" "fold_opt (x_act demo_surroundings) ?acts x0 = Some x"
    and fin: "seq_thread_pc (x_seq x) = Seq_done \<Longrightarrow>
      \<exists>x' hist e. exchange_shutdown demo_surroundings (\<lambda>a k q. q) (0, 0) (0, 0) x = Some x' \<and>
        fold_opt (engine_apply (\<lambda>a k q. q)) hist (engine_init 16 (spsc_init 4 demo_ack) (Some (spsc_init 4 demo_ack))) = Some e \<and>
        same_core e (x_engine x') \<and> durable (x_wal x') = wal_bytes (\<lambda>n. 56) (\<lambda>n. replicate 9 0) 0 hist \<and>
        fst (fst (snd (db_conn (x_db x')))) = map order_row (filter is_request hist)"
    by (simp add: api demo_exchange_def [symmetric]) blast
  have "seq_thread_pc (x_seq x) = Seq_done"
    using x(2) demo_sequenced exchange_start_seq [OF x(1)] by (auto simp: x_act_seq pushed)
  with fin x show ?thesis by blast
qed

end
